(* ===== verification/P9Prelude.thy ===== *)
theory P9Prelude
  imports Main "HOL-Library.Word" "HOL-Library.Monad_Syntax"
begin

unbundle bit_operations_syntax

text \<open>
  The vocabulary the component theories share: names for the machine types of the C sources,
  reads from a C object that may run out of bounds, the value of a little-endian vector of machine
  words, and the few facts on bits and words from which the component proofs are assembled.
\<close>

section \<open>Machine types\<close>

type_synonym byte = "8 word"
type_synonym u16 = "16 word"
type_synonym u32 = "32 word"
type_synonym u64 = "64 word"

text \<open>A \<^verbatim>\<open>Rune\<close> is an \<^verbatim>\<open>unsigned int\<close> (include/utf.h); an \<^verbatim>\<open>mpdigit\<close> is a \<^verbatim>\<open>uint\<close> (include/mp.h).\<close>

type_synonym rune = "32 word"
type_synonym mpdigit = "32 word"

text \<open>
  Collections: \<open>cbits\<close> turns bit operations of the C code into arithmetic, \<open>wval\<close> gives the value
  of a word expression, \<open>cmem\<close> evaluates reads from C objects.
\<close>

named_theorems cbits
named_theorems wval
named_theorems cmem

section \<open>Reading C objects\<close>

text \<open>
  A pointer into an object is modelled by the list of the cells from the pointer to the end of the
  object. \<open>rd s i\<close> is the expression \<^verbatim>\<open>s[i]\<close>: \<open>None\<close> when the access is outside the object, which
  C leaves undefined, so that a result \<open>Some\<close> of a model says that every access was in bounds.
\<close>

definition rd :: "'a list \<Rightarrow> nat \<Rightarrow> 'a option" where
  "rd s i = (if i < length s then Some (s ! i) else None)"

lemma rd_Nil [cmem, simp]: "rd [] i = None"
  by (simp add: rd_def)

lemma rd_Cons_0 [cmem, simp]: "rd (x # s) 0 = Some x"
  by (simp add: rd_def)

lemma rd_Cons_Suc [cmem, simp]: "rd (x # s) (Suc i) = rd s i"
  by (simp add: rd_def)

lemma rd_Some_iff: "rd s i = Some x \<longleftrightarrow> i < length s \<and> s ! i = x"
  by (auto simp: rd_def)

lemma rd_drop [simp]: "rd (drop n s) i = rd s (n + i)"
  by (auto simp: rd_def)

lemma rd_append_left [simp]: "i < length s \<Longrightarrow> rd (s @ t) i = rd s i"
  by (simp add: rd_def nth_append)

lemma rd_append_Some: "rd s i = Some x \<Longrightarrow> rd (s @ t) i = Some x"
  by (simp add: rd_Some_iff nth_append)

text \<open>A C string: the object holds a NUL, at the distance \<open>strlen\<close>.\<close>

definition cstring :: "'a::zero list \<Rightarrow> bool" where
  "cstring s \<longleftrightarrow> 0 \<in> set s"

lemma cstring_Cons: "cstring (x # s) \<longleftrightarrow> x = 0 \<or> cstring s"
  by (auto simp: cstring_def)

lemma cstring_append [simp]: "cstring s \<or> cstring t \<Longrightarrow> cstring (s @ t)"
  by (auto simp: cstring_def)

fun strlen :: "'a::zero list \<Rightarrow> nat option" where
  "strlen [] = None"
| "strlen (x # s) = (if x = 0 then Some 0 else map_option Suc (strlen s))"

lemma strlen_append [simp]: "0 \<notin> set s \<Longrightarrow> strlen (s @ 0 # t) = Some (length s)"
  by (induction s) auto

lemma strlen_Some_iff:
  "strlen s = Some n \<longleftrightarrow> n < length s \<and> s ! n = 0 \<and> 0 \<notin> set (take n s)"
proof (induction s arbitrary: n)
  case (Cons x s)
  then show ?case by (cases n) auto
qed simp

lemma cstring_iff_strlen: "cstring s \<longleftrightarrow> (\<exists>n. strlen s = Some n)"
  by (induction s) (auto simp: cstring_def)

lemma cstring_split:
  assumes "cstring s"
  obtains t u where "s = t @ 0 # u" and "0 \<notin> set t"
  using assms split_list_first[of 0 s] by (auto simp: cstring_def)

section \<open>Bit operations as arithmetic\<close>

lemma not_bit_nat_ge: "(c::nat) < 2 ^ k \<Longrightarrow> k \<le> n \<Longrightarrow> \<not> bit c n"
  by (metis bit_take_bit_iff linorder_not_less take_bit_nat_eq_self)

lemma push_bit_or_nat [cbits]: "c1 < 2 ^ k \<Longrightarrow> push_bit k c OR c1 = c * 2 ^ k + (c1::nat)"
proof -
  assume a: "c1 < 2 ^ k"
  have "push_bit k c AND c1 = 0"
    by (rule bit_eqI) (use a in \<open>auto simp: bit_simps dest: not_bit_nat_ge\<close>)
  then show ?thesis
    by (simp add: disjunctive_add_eq_or[symmetric] push_bit_eq_mult)
qed

lemma and_mask_nat [cbits]: "a AND (2 ^ k - 1) = a mod 2 ^ k" for a :: nat
  by (metis mask_eq_exp_minus_1 take_bit_eq_mask take_bit_eq_mod)

lemma and_exp_nat: "(r::nat) < 2 ^ k \<Longrightarrow> r AND 2 ^ k = 0"
  by (rule bit_eqI) (auto simp: bit_simps dest: not_bit_nat_ge)

lemma xor_exp_nat: "(r::nat) < 2 ^ k \<Longrightarrow> r XOR 2 ^ k = r + 2 ^ k"
  using disjunctive_add_eq_xor[OF and_exp_nat] by simp

lemma xor_128_nat [cbits]:
  assumes "b < 256"
  shows "b XOR 128 = (if b < 128 then b + 128 else b - (128::nat))"
proof (cases "b < 128")
  case True
  then show ?thesis using xor_exp_nat[of b 7] by simp
next
  case False
  with assms have "(b - 128) XOR 128 = b" using xor_exp_nat[of "b - 128" 7] by simp
  then have "b XOR 128 = b - 128"
    by (metis xor.assoc xor_self_eq xor.right_neutral)
  with False show ?thesis by simp
qed

lemma and_push_mask_nat:
  assumes "(b::nat) < 2 ^ (k + j)"
  shows "b AND push_bit k (mask j) = push_bit k (drop_bit k b)"
proof (rule bit_eqI)
  fix n
  have "bit b n \<Longrightarrow> n < k + j"
    using not_bit_nat_ge[OF assms] by (meson not_less)
  then show "bit (b AND push_bit k (mask j)) n = bit (push_bit k (drop_bit k b)) n"
    by (auto simp: bit_simps)
qed

lemma and_high_nat:
  "(b::nat) < 2 ^ (k + j) \<Longrightarrow> b AND push_bit k (mask j) = 0 \<longleftrightarrow> b < 2 ^ k"
  by (simp add: and_push_mask_nat drop_bit_eq_div div_eq_0_iff)

lemma and_192_nat [cbits]: "(b::nat) < 256 \<Longrightarrow> b AND 192 = 0 \<longleftrightarrow> b < 64"
  using and_high_nat[of b 6 2] by (simp add: push_bit_eq_mult mask_eq_exp_minus_1)

lemma unat_byte_bound [simp]: "unat (b::byte) < 256"
  using unsigned_less[of b] by simp

lemma unat_u32_bound [simp]: "unat (d::32 word) < 4294967296"
  using unsigned_less[of d] by simp

lemma unat_of_nat_byte [simp]: "x < 256 \<Longrightarrow> unat (of_nat x :: byte) = x"
  by (simp add: unat_of_nat)

lemma unat_of_nat_rune [simp]: "x < 4294967296 \<Longrightarrow> unat (of_nat x :: rune) = x"
  by (simp add: unat_of_nat)

lemma unat_byte_rune: "unat (of_nat (unat (b::byte)) :: rune) = unat b"
  using unat_byte_bound[of b] by (intro unat_of_nat_rune) linarith

lemma uint_byte_rune [simp]: "uint (ucast (b::byte) :: rune) = uint b"
  using arg_cong[OF unat_byte_rune[of b], of int] by simp

lemma byte_rune_neq_0: "b \<noteq> 0 \<Longrightarrow> (of_nat (unat (b::byte)) :: rune) \<noteq> 0"
  using unat_byte_rune[of b] by (metis unat_eq_zero unsigned_0)

end
