(* ===== verification/Utf.thy ===== *)
theory Utf
  imports P9Prelude
begin

text \<open>
  The UTF-8 codec of lib9 (src/src/lib9/utf/rune.c): \<^verbatim>\<open>chartorune\<close>, \<^verbatim>\<open>runetochar\<close>, \<^verbatim>\<open>runelen\<close>,
  \<^verbatim>\<open>runenlen\<close> and \<^verbatim>\<open>fullrune\<close>, with the constants of their \<^verbatim>\<open>enum\<close>. The \<^verbatim>\<open>int\<close> and \<^verbatim>\<open>long\<close> variables
  of these functions hold non-negative values below \<open>2 ^ 31\<close> throughout, so they are natural numbers
  here and the bit operations are those of \<open>nat\<close>; stores into \<^verbatim>\<open>char\<close> and \<^verbatim>\<open>Rune\<close> cells truncate to
  the width of the cell.
\<close>

unbundle bit_operations_syntax

section \<open>Constants\<close>

definition UTFmax :: nat where "UTFmax = 4"
definition Runesync :: nat where "Runesync = 0x80"
definition Runeself :: nat where "Runeself = 0x80"
definition Runeerror :: nat where "Runeerror = 0xFFFD"
definition Runemax :: nat where "Runemax = 0x10FFFF"

definition Bit1 :: nat where "Bit1 = 7"
definition Bitx :: nat where "Bitx = 6"
definition Bit2 :: nat where "Bit2 = 5"
definition Bit3 :: nat where "Bit3 = 4"
definition Bit4 :: nat where "Bit4 = 3"
definition Bit5 :: nat where "Bit5 = 2"

definition Tx :: nat where "Tx = (push_bit (Bitx + 1) 1 - 1) XOR 0xFF"
definition T2 :: nat where "T2 = (push_bit (Bit2 + 1) 1 - 1) XOR 0xFF"
definition T3 :: nat where "T3 = (push_bit (Bit3 + 1) 1 - 1) XOR 0xFF"
definition T4 :: nat where "T4 = (push_bit (Bit4 + 1) 1 - 1) XOR 0xFF"
definition T5 :: nat where "T5 = (push_bit (Bit5 + 1) 1 - 1) XOR 0xFF"

definition Rune1 :: nat where "Rune1 = push_bit (Bit1 + 0 * Bitx) 1 - 1"
definition Rune2 :: nat where "Rune2 = push_bit (Bit2 + 1 * Bitx) 1 - 1"
definition Rune3 :: nat where "Rune3 = push_bit (Bit3 + 2 * Bitx) 1 - 1"
definition Rune4 :: nat where "Rune4 = push_bit (Bit4 + 3 * Bitx) 1 - 1"

definition Maskx :: nat where "Maskx = push_bit Bitx 1 - 1"
definition Testx :: nat where "Testx = Maskx XOR 0xFF"
definition Bad :: nat where "Bad = Runeerror"

lemmas rune_widths = Bit1_def Bitx_def Bit2_def Bit3_def Bit4_def Bit5_def

lemma rune_consts:
  "Bitx = 6" "Tx = 0x80" "T2 = 0xC0" "T3 = 0xE0" "T4 = 0xF0" "T5 = 0xF8"
  "Rune1 = 0x7F" "Rune2 = 0x7FF" "Rune3 = 0xFFFF" "Rune4 = 0x1FFFFF"
  "Maskx = 0x3F" "Testx = 0xC0" "Bad = 0xFFFD"
  "UTFmax = 4" "Runesync = 0x80" "Runeself = 0x80" "Runeerror = 0xFFFD" "Runemax = 0x10FFFF"
  by (simp_all add: rune_widths Tx_def T2_def T3_def T4_def T5_def Rune1_def Rune2_def Rune3_def
      Rune4_def Testx_def Maskx_def Bad_def UTFmax_def Runesync_def Runeself_def Runeerror_def
      Runemax_def push_bit_eq_mult)

section \<open>Operations\<close>

text \<open>
  \<^verbatim>\<open>chartorune(rune, str)\<close>: the rune stored and the number of bytes consumed, or \<open>None\<close> when a byte
  outside the object would be read.
\<close>

definition bad_rune :: "(rune \<times> nat) option" where
  "bad_rune = Some (of_nat Bad, 1)"

definition chartorune :: "byte list \<Rightarrow> (rune \<times> nat) option" where
  "chartorune str = do {
     b0 \<leftarrow> rd str 0;
     let c = unat b0;
     if c < Tx then Some (of_nat c, 1)
     else do {
       b1 \<leftarrow> rd str 1;
       let c1 = unat b1 XOR Tx;
       if c1 AND Testx \<noteq> 0 then bad_rune
       else if c < T3 then
         (if c < T2 then bad_rune
          else let l = (push_bit Bitx c OR c1) AND Rune2 in
            if l \<le> Rune1 then bad_rune else Some (of_nat l, 2))
       else do {
         b2 \<leftarrow> rd str 2;
         let c2 = unat b2 XOR Tx;
         if c2 AND Testx \<noteq> 0 then bad_rune
         else if c < T4 then
           (let l = (push_bit Bitx (push_bit Bitx c OR c1) OR c2) AND Rune3 in
            if l \<le> Rune2 then bad_rune else Some (of_nat l, 3))
         else if UTFmax \<ge> 4 then do {
           b3 \<leftarrow> rd str 3;
           let c3 = unat b3 XOR Tx;
           if c3 AND Testx \<noteq> 0 then bad_rune
           else if c < T5 then
             (let l = (push_bit Bitx (push_bit Bitx (push_bit Bitx c OR c1) OR c2) OR c3) AND Rune4 in
              if l \<le> Rune3 then bad_rune
              else if l > Runemax then bad_rune
              else Some (of_nat l, 4))
           else bad_rune
         }
         else bad_rune
       }
     }
   }"

text \<open>\<^verbatim>\<open>runetochar(str, rune)\<close>: the bytes stored at \<^verbatim>\<open>str\<close>; the return value is their number.\<close>

definition runetochar :: "rune \<Rightarrow> byte list" where
  "runetochar r =
    (let c = unat r in
     if c \<le> Rune1 then [of_nat c]
     else if c \<le> Rune2 then
       [of_nat (T2 OR drop_bit (1 * Bitx) c), of_nat (Tx OR (c AND Maskx))]
     else let c = (if c > Runemax then Runeerror else c) in
       if c \<le> Rune3 then
         [of_nat (T3 OR drop_bit (2 * Bitx) c),
          of_nat (Tx OR (drop_bit (1 * Bitx) c AND Maskx)),
          of_nat (Tx OR (c AND Maskx))]
       else
         [of_nat (T4 OR drop_bit (3 * Bitx) c),
          of_nat (Tx OR (drop_bit (2 * Bitx) c AND Maskx)),
          of_nat (Tx OR (drop_bit (1 * Bitx) c AND Maskx)),
          of_nat (Tx OR (c AND Maskx))])"

definition runelen :: "int \<Rightarrow> nat" where
  "runelen c = (let rune = (of_int c :: rune) in length (runetochar rune))"

text \<open>
  \<^verbatim>\<open>runenlen(r, nrune)\<close>. The loop variable \<^verbatim>\<open>c\<close> is an \<^verbatim>\<open>int\<close>, so a rune at or above \<open>2 ^ 31\<close> is
  compared as a negative number.
\<close>

fun runenlen :: "rune list \<Rightarrow> nat \<Rightarrow> nat option" where
  "runenlen r 0 = Some 0"
| "runenlen [] (Suc n) = None"
| "runenlen (x # r) (Suc n) =
     (let c = sint x;
          k = (if c \<le> int Rune1 then 1
               else if c \<le> int Rune2 then 2
               else if c \<le> int Rune3 \<or> c > int Runemax then 3
               else 4)
      in map_option (\<lambda>nb. k + nb) (runenlen r n))"

definition fullrune :: "byte list \<Rightarrow> int \<Rightarrow> bool option" where
  "fullrune str n =
    (if n \<le> 0 then Some False
     else do {
       b \<leftarrow> rd str 0;
       let c = unat b;
       if c < Tx then Some True
       else if c < T3 then Some (n \<ge> 2)
       else if UTFmax = 3 \<or> c < T4 then Some (n \<ge> 3)
       else Some (n \<ge> 4)
     })"

section \<open>Arithmetic of the codec\<close>

lemma or_lead_nat [cbits]:
  "x < 64 \<Longrightarrow> 128 OR x = 128 + (x::nat)"
  "x < 32 \<Longrightarrow> 192 OR x = 192 + (x::nat)"
  "x < 16 \<Longrightarrow> 224 OR x = 224 + (x::nat)"
  "x < 8 \<Longrightarrow> 240 OR x = 240 + (x::nat)"
  using push_bit_or_nat[of x 6 2] push_bit_or_nat[of x 5 6] push_bit_or_nat[of x 4 14]
    push_bit_or_nat[of x 3 30]
  by (simp_all add: push_bit_eq_mult)

lemma and_rune_masks [cbits]:
  "(a::nat) AND 63 = a mod 64" "(a::nat) AND 2047 = a mod 2048"
  "(a::nat) AND 65535 = a mod 65536" "(a::nat) AND 2097151 = a mod 2097152"
  using and_mask_nat[of a 6] and_mask_nat[of a 11] and_mask_nat[of a 16] and_mask_nat[of a 21]
  by simp_all

lemma drop_bit_rune [cbits]:
  "drop_bit 6 (c::nat) = c div 64" "drop_bit 12 (c::nat) = c div 4096"
  "drop_bit 18 (c::nat) = c div 262144"
  by (simp_all add: drop_bit_eq_div)

lemma push_or_cont [cbits]: "x < 64 \<Longrightarrow> push_bit 6 c OR x = c * 64 + (x::nat)"
  using push_bit_or_nat[of x 6 c] by simp

text \<open>A continuation byte is one of \<open>0x80 .. 0xBF\<close>; its payload is the low six bits.\<close>

definition is_cont :: "byte \<Rightarrow> bool" where
  "is_cont b \<longleftrightarrow> 128 \<le> unat b \<and> unat b < 192"

lemma cont_test:
  "(unat b XOR Tx) AND Testx = 0 \<longleftrightarrow> is_cont b"
  "0 < (unat b XOR Tx) AND Testx \<longleftrightarrow> \<not> is_cont b"
proof -
  have b: "unat b < 256" by simp
  have "unat b - 128 < 256" using b by linarith
  then show "(unat b XOR Tx) AND Testx = 0 \<longleftrightarrow> is_cont b"
    using b by (auto simp: rune_consts is_cont_def xor_128_nat and_192_nat)
  then show "0 < (unat b XOR Tx) AND Testx \<longleftrightarrow> \<not> is_cont b" by auto
qed

lemma cont_payload: "is_cont b \<Longrightarrow> unat b XOR Tx = unat b - 128"
  by (simp add: rune_consts is_cont_def xor_128_nat)

text \<open>The code point a two, three or four byte sequence spells.\<close>

definition code2 :: "byte \<Rightarrow> byte \<Rightarrow> nat" where
  "code2 b b1 = (unat b * 64 + (unat b1 - 128)) mod 2048"

definition code3 :: "byte \<Rightarrow> byte \<Rightarrow> byte \<Rightarrow> nat" where
  "code3 b b1 b2 = ((unat b * 64 + (unat b1 - 128)) * 64 + (unat b2 - 128)) mod 65536"

definition code4 :: "byte \<Rightarrow> byte \<Rightarrow> byte \<Rightarrow> byte \<Rightarrow> nat" where
  "code4 b b1 b2 b3 =
    (((unat b * 64 + (unat b1 - 128)) * 64 + (unat b2 - 128)) * 64 + (unat b3 - 128)) mod 2097152"

lemma payload_bound: "is_cont b \<Longrightarrow> unat b XOR Tx < 64"
  by (auto simp: cont_payload is_cont_def)

lemma code_folds:
  "is_cont b1 \<Longrightarrow> (push_bit Bitx (unat b) OR (unat b1 XOR Tx)) AND Rune2 = code2 b b1"
  "is_cont b1 \<Longrightarrow> is_cont b2 \<Longrightarrow>
    (push_bit Bitx (push_bit Bitx (unat b) OR (unat b1 XOR Tx)) OR (unat b2 XOR Tx)) AND Rune3
      = code3 b b1 b2"
  "is_cont b1 \<Longrightarrow> is_cont b2 \<Longrightarrow> is_cont b3 \<Longrightarrow>
    (push_bit Bitx (push_bit Bitx (push_bit Bitx (unat b) OR (unat b1 XOR Tx)) OR (unat b2 XOR Tx))
      OR (unat b3 XOR Tx)) AND Rune4 = code4 b b1 b2 b3"
  using payload_bound[of b1] payload_bound[of b2] payload_bound[of b3]
  by (simp_all only: rune_consts(1,8,9,10) push_or_cont and_rune_masks cont_payload
      code2_def code3_def code4_def)

text \<open>The decoder by the shape of its input.\<close>

lemmas chartorune_unfold = chartorune_def Let_def cont_test code_folds

lemma rd_2_3 [simp]: "rd (a # b # s) 2 = rd s 0" "rd (a # b # c # s) 3 = rd s 0"
  "rd (a # s) 1 = rd s 0"
  by (simp_all add: rd_def numeral_2_eq_2 numeral_3_eq_3)

lemma chartorune_1:
  "unat b < 128 \<Longrightarrow> chartorune (b # s) = Some (of_nat (unat b), 1)"
  by (simp add: chartorune_def rune_consts)

lemma chartorune_short:
  "chartorune [] = None"
  "128 \<le> unat b \<Longrightarrow> chartorune [b] = None"
  "224 \<le> unat b \<Longrightarrow> is_cont b1 \<Longrightarrow> chartorune [b, b1] = None"
  "240 \<le> unat b \<Longrightarrow> is_cont b1 \<Longrightarrow> is_cont b2 \<Longrightarrow> chartorune [b, b1, b2] = None"
  by (simp_all add: chartorune_unfold, simp_all add: rune_consts)

lemma chartorune_not_cont:
  "128 \<le> unat b \<Longrightarrow> \<not> is_cont b1 \<Longrightarrow> chartorune (b # b1 # s) = bad_rune"
  "224 \<le> unat b \<Longrightarrow> is_cont b1 \<Longrightarrow> \<not> is_cont b2 \<Longrightarrow> chartorune (b # b1 # b2 # s) = bad_rune"
  "240 \<le> unat b \<Longrightarrow> is_cont b1 \<Longrightarrow> is_cont b2 \<Longrightarrow> \<not> is_cont b3 \<Longrightarrow>
    chartorune (b # b1 # b2 # b3 # s) = bad_rune"
  by (simp_all add: chartorune_unfold, simp_all add: rune_consts)

lemma chartorune_2:
  "128 \<le> unat b \<Longrightarrow> unat b < 224 \<Longrightarrow> is_cont b1 \<Longrightarrow>
    chartorune (b # b1 # s) =
      (if unat b < 192 \<or> code2 b b1 \<le> 127 then bad_rune else Some (of_nat (code2 b b1), 2))"
  by (simp add: chartorune_unfold) (simp add: rune_consts)

lemma chartorune_3:
  "224 \<le> unat b \<Longrightarrow> unat b < 240 \<Longrightarrow> is_cont b1 \<Longrightarrow> is_cont b2 \<Longrightarrow>
    chartorune (b # b1 # b2 # s) =
      (if code3 b b1 b2 \<le> 2047 then bad_rune else Some (of_nat (code3 b b1 b2), 3))"
  by (simp add: chartorune_unfold del: push_bit_or push_bit_xor) (simp add: rune_consts)

lemma chartorune_4:
  "240 \<le> unat b \<Longrightarrow> is_cont b1 \<Longrightarrow> is_cont b2 \<Longrightarrow> is_cont b3 \<Longrightarrow>
    chartorune (b # b1 # b2 # b3 # s) =
      (if 248 \<le> unat b \<or> code4 b b1 b2 b3 \<le> 65535 \<or> 1114111 < code4 b b1 b2 b3 then bad_rune
       else Some (of_nat (code4 b b1 b2 b3), 4))"
  by (simp add: chartorune_unfold del: push_bit_or push_bit_xor) (simp add: rune_consts)

text \<open>The encoder with its bit operations written as arithmetic.\<close>

lemma runetochar_1: "unat r \<le> 127 \<Longrightarrow> runetochar r = [of_nat (unat r)]"
  by (simp add: runetochar_def rune_consts)

lemma runetochar_2:
  "127 < unat r \<Longrightarrow> unat r \<le> 2047 \<Longrightarrow>
    runetochar r = [of_nat (192 + unat r div 64), of_nat (128 + unat r mod 64)]"
  by (simp add: runetochar_def rune_consts cbits Let_def)

lemma runetochar_3:
  "2047 < unat r \<Longrightarrow> unat r \<le> 65535 \<Longrightarrow>
    runetochar r = [of_nat (224 + unat r div 4096), of_nat (128 + unat r div 64 mod 64),
      of_nat (128 + unat r mod 64)]"
  by (simp add: runetochar_def rune_consts cbits Let_def)

lemma runetochar_4:
  "65535 < unat r \<Longrightarrow> unat r \<le> 1114111 \<Longrightarrow>
    runetochar r = [of_nat (240 + unat r div 262144), of_nat (128 + unat r div 4096 mod 64),
      of_nat (128 + unat r div 64 mod 64), of_nat (128 + unat r mod 64)]"
  by (simp add: runetochar_def rune_consts cbits Let_def)

lemma runetochar_big: "1114111 < unat r \<Longrightarrow> runetochar r = runetochar (of_nat Runeerror)"
  by (simp add: runetochar_def rune_consts cbits Let_def)

text \<open>Spelling and code point determine each other.\<close>

lemma six_bits:
  "c = c div 64 * 64 + c mod 64"
  "c div 64 = c div 4096 * 64 + c div 64 mod 64"
  "c div 4096 = c div 262144 * 64 + c div 4096 mod 64" for c :: nat
proof -
  have "c div 4096 = c div 64 div 64" "c div 262144 = c div 4096 div 64"
    by (simp_all add: div_mult2_eq[symmetric])
  then show "c = c div 64 * 64 + c mod 64" "c div 64 = c div 4096 * 64 + c div 64 mod 64"
    "c div 4096 = c div 262144 * 64 + c div 4096 mod 64"
    by (simp_all only: div_mult_mod_eq)
qed

lemma spell_sums:
  "c = q * 64 + r \<Longrightarrow> q = q' * 64 + r' \<Longrightarrow>
    ((224 + q') * 64 + r') * 64 + r = 14 * 65536 + (c::nat)"
  "c = q * 64 + r \<Longrightarrow> q = q' * 64 + r' \<Longrightarrow> q' = q'' * 64 + r'' \<Longrightarrow>
    (((240 + q'') * 64 + r'') * 64 + r') * 64 + r = 30 * 2097152 + (c::nat)"
  by simp_all

lemma code2_spell:
  "c \<le> 2047 \<Longrightarrow> code2 (of_nat (192 + c div 64)) (of_nat (128 + c mod 64)) = c"
proof -
  assume c: "c \<le> 2047"
  then have "192 + c div 64 < 256" "128 + c mod 64 < 256" by auto
  then have "code2 (of_nat (192 + c div 64)) (of_nat (128 + c mod 64)) =
     ((192 + c div 64) * 64 + c mod 64) mod 2048"
    by (simp only: code2_def unat_of_nat_byte) simp
  also have "(192 + c div 64) * 64 + c mod 64 = 6 * 2048 + c" by simp
  also have "(6 * 2048 + c) mod 2048 = c" using c by (simp only: mod_mult_self3 mod_less)
  finally show ?thesis .
qed

lemma code3_spell:
  "c \<le> 65535 \<Longrightarrow> code3 (of_nat (224 + c div 4096)) (of_nat (128 + c div 64 mod 64))
     (of_nat (128 + c mod 64)) = c"
proof -
  assume c: "c \<le> 65535"
  then have "224 + c div 4096 < 256" "128 + c div 64 mod 64 < 256" "128 + c mod 64 < 256" by auto
  then have "code3 (of_nat (224 + c div 4096)) (of_nat (128 + c div 64 mod 64))
       (of_nat (128 + c mod 64)) =
     (((224 + c div 4096) * 64 + c div 64 mod 64) * 64 + c mod 64) mod 65536"
    by (simp only: code3_def unat_of_nat_byte) simp
  also have "((224 + c div 4096) * 64 + c div 64 mod 64) * 64 + c mod 64 = 14 * 65536 + c"
    by (rule spell_sums(1)[OF six_bits(1,2)])
  also have "(14 * 65536 + c) mod 65536 = c" using c by (simp only: mod_mult_self3 mod_less)
  finally show ?thesis .
qed

lemma code4_spell:
  "c \<le> 1114111 \<Longrightarrow> code4 (of_nat (240 + c div 262144)) (of_nat (128 + c div 4096 mod 64))
     (of_nat (128 + c div 64 mod 64)) (of_nat (128 + c mod 64)) = c"
proof -
  assume c: "c \<le> 1114111"
  then have "240 + c div 262144 < 256" "128 + c div 4096 mod 64 < 256"
    "128 + c div 64 mod 64 < 256" "128 + c mod 64 < 256" by auto
  then have "code4 (of_nat (240 + c div 262144)) (of_nat (128 + c div 4096 mod 64))
       (of_nat (128 + c div 64 mod 64)) (of_nat (128 + c mod 64)) =
     ((((240 + c div 262144) * 64 + c div 4096 mod 64) * 64 + c div 64 mod 64) * 64 + c mod 64)
       mod 2097152"
    by (simp only: code4_def unat_of_nat_byte) simp
  also have "(((240 + c div 262144) * 64 + c div 4096 mod 64) * 64 + c div 64 mod 64) * 64 + c mod 64
      = 30 * 2097152 + c"
    by (rule spell_sums(2)[OF six_bits])
  also have "(30 * 2097152 + c) mod 2097152 = c" using c by (simp only: mod_mult_self3 mod_less)
  finally show ?thesis .
qed

lemma spell_bounds:
  "(c::nat) \<le> 2047 \<Longrightarrow> 127 < c \<Longrightarrow> 194 \<le> 192 + c div 64 \<and> 192 + c div 64 < 224"
  "(c::nat) \<le> 65535 \<Longrightarrow> 224 + c div 4096 < 240"
  "(c::nat) \<le> 1114111 \<Longrightarrow> 240 + c div 262144 < 245"
  by auto

lemma is_cont_of_nat [simp]: "x < 64 \<Longrightarrow> is_cont (of_nat (128 + x))"
  by (simp add: is_cont_def del: of_nat_add)

lemma decode_encode:
  "chartorune (runetochar r @ rest) =
     Some (if unat r \<le> Runemax then r else of_nat Runeerror, length (runetochar r))"
proof -
  have main: "chartorune (runetochar r @ rest) = Some (r, length (runetochar r))"
    if r: "unat r \<le> 1114111" for r
  proof -
    consider "unat r \<le> 127" | "127 < unat r" "unat r \<le> 2047" | "2047 < unat r" "unat r \<le> 65535"
      | "65535 < unat r" using r by linarith
    then show ?thesis
    proof cases
      case 1
      then have "unat (ucast r :: byte) = unat r" using unat_of_nat_byte[of "unat r"] by simp
      with 1 show ?thesis using chartorune_1[of "ucast r"] by (simp add: runetochar_1)
    next
      case 2
      then show ?thesis
        by (simp add: runetochar_2 chartorune_2 code2_spell spell_bounds del: of_nat_add)
    next
      case 3
      then show ?thesis
        by (simp add: runetochar_3 chartorune_3 code3_spell spell_bounds del: of_nat_add)
    next
      case 4
      have "\<not> 8 \<le> unat r div 262144" using r by simp
      with 4 show ?thesis using r
        by (simp add: runetochar_4 chartorune_4 code4_spell spell_bounds del: of_nat_add)
    qed
  qed
  show ?thesis
  proof (cases "unat r \<le> Runemax")
    case True
    then show ?thesis using main by (simp add: rune_consts)
  next
    case False
    then show ?thesis using main[of "of_nat Runeerror"] runetochar_big[of r] 
      by (simp add: rune_consts del: of_nat_numeral)
  qed
qed

lemma chartorune_cases:
  assumes "chartorune s = Some (r, n)"
  obtains (bad) "r = of_nat Runeerror" "n = 1" "s \<noteq> []" "128 \<le> unat (hd s)"
  | (one) b t where "s = b # t" "unat b < 128" "r = of_nat (unat b)" "n = 1"
  | (two) b b1 t where "s = b # b1 # t" "192 \<le> unat b" "unat b < 224" "is_cont b1"
      "127 < code2 b b1" "r = of_nat (code2 b b1)" "n = 2"
  | (three) b b1 b2 t where "s = b # b1 # b2 # t" "224 \<le> unat b" "unat b < 240" "is_cont b1"
      "is_cont b2" "2047 < code3 b b1 b2" "r = of_nat (code3 b b1 b2)" "n = 3"
  | (four) b b1 b2 b3 t where "s = b # b1 # b2 # b3 # t" "240 \<le> unat b" "unat b < 248"
      "is_cont b1" "is_cont b2" "is_cont b3" "65535 < code4 b b1 b2 b3"
      "code4 b b1 b2 b3 \<le> 1114111" "r = of_nat (code4 b b1 b2 b3)" "n = 4"
proof -
  obtain b t where s: "s = b # t" using assms by (cases s) (auto simp: chartorune_short)
  consider "unat b < 128" | "128 \<le> unat b" "unat b < 224" | "224 \<le> unat b" "unat b < 240"
    | "240 \<le> unat b" by linarith
  then show thesis
  proof cases
    case 1
    then show ?thesis using assms one s chartorune_1[OF 1] by auto
  next
    case 2
    then obtain b1 u where t: "t = b1 # u" using assms s by (cases t) (auto simp: chartorune_short)
    then show ?thesis using 2 assms s bad two[of b b1 u]
      by (cases "is_cont b1") (auto simp: chartorune_2 chartorune_not_cont bad_rune_def rune_consts not_le split: if_splits)
  next
    case 3
    then obtain b1 u where t: "t = b1 # u" using assms s by (cases t) (auto simp: chartorune_short)
    show ?thesis
    proof (cases "is_cont b1")
      case True
      with 3 t obtain b2 v where u: "u = b2 # v"
        using assms s by (cases u) (auto simp: chartorune_short)
      then show ?thesis using 3 True t assms s bad three[of b b1 b2 v]
        by (cases "is_cont b2") (auto simp: chartorune_3 chartorune_not_cont bad_rune_def rune_consts not_le split: if_splits)
    next
      case False
      then show ?thesis using 3 t assms s bad
        by (auto simp: chartorune_not_cont bad_rune_def rune_consts)
    qed
  next
    case 4
    then obtain b1 u where t: "t = b1 # u" using assms s by (cases t) (auto simp: chartorune_short)
    show ?thesis
    proof (cases "is_cont b1")
      case c1: True
      with 4 t obtain b2 v where u: "u = b2 # v"
        using assms s by (cases u) (auto simp: chartorune_short)
      show ?thesis
      proof (cases "is_cont b2")
        case True
        with 4 c1 t u obtain b3 w where v: "v = b3 # w"
          using assms s by (cases v) (auto simp: chartorune_short)
        then show ?thesis using 4 c1 True t u assms s bad four[of b b1 b2 b3 w]
          by (cases "is_cont b3") (auto simp: chartorune_4 chartorune_not_cont bad_rune_def rune_consts not_le split: if_splits)
      next
        case False
        then show ?thesis using 4 c1 t u assms s bad
          by (auto simp: chartorune_not_cont bad_rune_def rune_consts)
      qed
    next
      case False
      then show ?thesis using 4 t assms s bad
        by (auto simp: chartorune_not_cont bad_rune_def rune_consts)
    qed
  qed
qed

text \<open>The bytes that spell a code point are the ones the encoder writes.\<close>

lemma spell_code2:
  assumes "192 \<le> unat b" "unat b < 224" "is_cont b1"
  shows "192 + code2 b b1 div 64 = unat b" "128 + code2 b b1 mod 64 = unat b1"
    "code2 b b1 < 2048"
proof -
  define x y where "x = unat b - 192" and "y = unat b1 - 128"
  have xy: "unat b = 192 + x" "unat b1 = 128 + y" "x < 32" "y < 64"
    using assms by (auto simp: x_def y_def is_cont_def)
  have "code2 b b1 = (6 * 2048 + (x * 64 + y)) mod 2048"
    by (simp add: code2_def xy algebra_simps)
  also have "\<dots> = x * 64 + y" using xy(3,4) by (simp only: mod_mult_self3 mod_less)
  finally have "code2 b b1 = x * 64 + y" .
  then show "192 + code2 b b1 div 64 = unat b" "128 + code2 b b1 mod 64 = unat b1"
    "code2 b b1 < 2048"
    using xy by simp_all
qed

lemma spell_code3:
  assumes "224 \<le> unat b" "unat b < 240" "is_cont b1" "is_cont b2"
  shows "224 + code3 b b1 b2 div 4096 = unat b" "128 + code3 b b1 b2 div 64 mod 64 = unat b1"
    "128 + code3 b b1 b2 mod 64 = unat b2" "code3 b b1 b2 < 65536"
proof -
  define x y z where "x = unat b - 224" and "y = unat b1 - 128" and "z = unat b2 - 128"
  have xy: "unat b = 224 + x" "unat b1 = 128 + y" "unat b2 = 128 + z" "x < 16" "y < 64" "z < 64"
    using assms by (auto simp: x_def y_def z_def is_cont_def)
  have "code3 b b1 b2 = (14 * 65536 + ((x * 64 + y) * 64 + z)) mod 65536"
    by (simp add: code3_def xy algebra_simps)
  also have "\<dots> = (x * 64 + y) * 64 + z" 

  proof (simp only: mod_mult_self3, rule mod_less)
    show "(x * 64 + y) * 64 + z < 65536" using xy(4-6) by simp
  qed
  finally have c: "code3 b b1 b2 = (x * 64 + y) * 64 + z" .
  have "code3 b b1 b2 div 64 = x * 64 + y" using c xy(6) by simp
  moreover have "code3 b b1 b2 div 4096 = x"
    using calculation xy(5) div_mult2_eq[of "code3 b b1 b2" 64 64] by simp
  moreover have "code3 b b1 b2 mod 64 = z"
    using c xy(6) by (simp only: mod_mult_self3 mod_less)
  moreover have "code3 b b1 b2 < 65536" using c xy(4-6) by simp
  ultimately show "224 + code3 b b1 b2 div 4096 = unat b"
    "128 + code3 b b1 b2 div 64 mod 64 = unat b1"
    "128 + code3 b b1 b2 mod 64 = unat b2" "code3 b b1 b2 < 65536"
    using xy by simp_all
qed

lemma spell_code4:
  assumes "240 \<le> unat b" "unat b < 248" "is_cont b1" "is_cont b2" "is_cont b3"
  shows "240 + code4 b b1 b2 b3 div 262144 = unat b"
    "128 + code4 b b1 b2 b3 div 4096 mod 64 = unat b1"
    "128 + code4 b b1 b2 b3 div 64 mod 64 = unat b2"
    "128 + code4 b b1 b2 b3 mod 64 = unat b3"
proof -
  let ?c = "code4 b b1 b2 b3"
  define x y z w where "x = unat b - 240" and "y = unat b1 - 128" and "z = unat b2 - 128"
    and "w = unat b3 - 128"
  have xy: "unat b = 240 + x" "unat b1 = 128 + y" "unat b2 = 128 + z" "unat b3 = 128 + w"
    "x < 8" "y < 64" "z < 64" "w < 64"
    using assms by (auto simp: x_def y_def z_def w_def is_cont_def)
  have "?c = (30 * 2097152 + (((x * 64 + y) * 64 + z) * 64 + w)) mod 2097152"
    by (simp add: code4_def xy algebra_simps)
  also have "\<dots> = ((x * 64 + y) * 64 + z) * 64 + w"


  proof (simp only: mod_mult_self3, rule mod_less)
    show "((x * 64 + y) * 64 + z) * 64 + w < 2097152" using xy(5-8) by simp
  qed
  finally have c: "?c = ((x * 64 + y) * 64 + z) * 64 + w" .
  have d1: "?c div 64 = (x * 64 + y) * 64 + z" using c xy(8) by simp
  have d2: "?c div 4096 = x * 64 + y" using d1 xy(7) div_mult2_eq[of ?c 64 64] by simp
  have d3: "?c div 262144 = x" using d2 xy(6) div_mult2_eq[of ?c 4096 64] by simp
  have m: "?c mod 64 = w" "?c div 64 mod 64 = z" "?c div 4096 mod 64 = y"
    using c d1 d2 xy(6-8) by (simp_all only: mod_mult_self3 mod_less)
  show "240 + ?c div 262144 = unat b" "128 + ?c div 4096 mod 64 = unat b1"
    "128 + ?c div 64 mod 64 = unat b2" "128 + ?c mod 64 = unat b3"
    using d3 m xy by simp_all
qed

lemma decode_canonical:
  assumes "chartorune s = Some (r, n)"
  shows "r = of_nat Runeerror \<and> n = 1 \<or>
    unat r \<le> Runemax \<and> n = length (runetochar r) \<and> n \<le> length s \<and> take n s = runetochar r"
  using assms
proof (cases rule: chartorune_cases)
  case (one b t)
  have "unat b < 4294967296" using unat_byte_bound[of b] by linarith
  from unat_of_nat_rune[OF this] have "unat r = unat b" using one by simp
  moreover have "of_nat (unat b) = b" by simp
  ultimately show ?thesis using one by (simp add: runetochar_1 rune_consts)
next
  case (two b b1 t)
  note sp = spell_code2[OF two(2-4)]
  have "unat r = code2 b b1" using two sp by simp
  then have "runetochar r = [of_nat (unat b), of_nat (unat b1)]"
    using two sp runetochar_2[of r] by (simp del: of_nat_add)
  then show ?thesis using two sp by (simp add: rune_consts)
next
  case (three b b1 b2 t)
  note sp = spell_code3[OF three(2-5)]
  have "unat r = code3 b b1 b2" using three sp by simp
  then have "runetochar r = [of_nat (unat b), of_nat (unat b1), of_nat (unat b2)]"
    using three sp runetochar_3[of r] by (simp del: of_nat_add)
  then show ?thesis using three sp by (simp add: rune_consts)
next
  case (four b b1 b2 b3 t)
  note sp = spell_code4[OF four(2-6)]
  have "unat r = code4 b b1 b2 b3" using four sp by simp
  then have "runetochar r = [of_nat (unat b), of_nat (unat b1), of_nat (unat b2), of_nat (unat b3)]"
    using four sp runetochar_4[of r] by (simp del: of_nat_add)
  then show ?thesis using four sp by (simp add: rune_consts)
qed simp

lemma not_is_cont_0 [simp]: "\<not> is_cont 0"
  by (simp add: is_cont_def)

lemma chartorune_bytes:
  assumes "chartorune s = Some (r, n)"
  shows "1 \<le> n" "n \<le> length s" "n \<le> UTFmax" "0 \<notin> set (tl (take n s))"
  using assms by (cases rule: chartorune_cases; cases s; auto simp: rune_consts)+

lemma chartorune_defined:
  assumes "cstring s"
  shows "chartorune s \<noteq> None"
proof -
  obtain b t where s: "s = b # t" using assms by (cases s) (auto simp: cstring_def)
  show ?thesis
  proof (cases "unat b < 128")
    case True
    then show ?thesis using s by (simp add: chartorune_1)
  next
    case False
    then have b: "128 \<le> unat b" "b \<noteq> 0" by auto
    then obtain b1 t1 where t: "t = b1 # t1"
      using assms s by (cases t) (auto simp: cstring_def)
    show ?thesis
    proof (cases "is_cont b1 \<and> 224 \<le> unat b")
      case c1: True
      then have "b1 \<noteq> 0" by auto
      then obtain b2 t2 where t1: "t1 = b2 # t2"
        using assms s t b by (cases t1) (auto simp: cstring_def)
      show ?thesis
      proof (cases "is_cont b2 \<and> 240 \<le> unat b")
        case c2: True
        then have "b2 \<noteq> 0" by auto
        then obtain b3 t3 where t2: "t2 = b3 # t3"
          using assms s t t1 b \<open>b1 \<noteq> 0\<close> by (cases t2) (auto simp: cstring_def)
        show ?thesis
          using s t t1 t2 c1 c2 by (cases "is_cont b3")
            (auto simp: chartorune_4 chartorune_not_cont bad_rune_def)
      next
        case False
        then show ?thesis using s t t1 c1
          by (cases "is_cont b2") (auto simp: chartorune_3 chartorune_not_cont bad_rune_def)
      qed
    next
      case False
      then show ?thesis using s t b
        by (cases "is_cont b1") (auto simp: chartorune_2 chartorune_not_cont bad_rune_def)
    qed
  qed
qed

lemma chartorune_in_string:
  assumes "0 \<notin> set t" "t \<noteq> []" "chartorune (t @ 0 # u) = Some (r, n)"
  shows "n \<le> length t"
proof (rule ccontr)
  assume "\<not> n \<le> length t"
  then have "length t < n" by simp
  moreover have "n \<le> length (t @ 0 # u)" using chartorune_bytes(2)[OF assms(3)] .
  ultimately have "0 \<in> set (tl (take n (t @ 0 # u)))"
    using assms(2) by (cases t; cases n; auto simp: take_Cons' not_less less_Suc_eq_le)
  then show False using chartorune_bytes(4)[OF assms(3)] by simp
qed

lemma chartorune_append:
  assumes "chartorune s = Some rn"
  shows "chartorune (s @ t) = Some rn"
  using assms
  by (cases "rd s 0"; cases "rd s (Suc 0)"; cases "rd s 2"; cases "rd s 3")
    (simp_all add: chartorune_def Let_def rd_append_Some
      split: if_split_asm del: push_bit_or push_bit_xor)

lemma chartorune_enough:
  assumes "s = b # t" "128 \<le> unat b \<Longrightarrow> 2 \<le> length s" "224 \<le> unat b \<Longrightarrow> 3 \<le> length s"
    "240 \<le> unat b \<Longrightarrow> 4 \<le> length s"
  shows "chartorune s \<noteq> None"
proof -
  have "rd s 0 = Some b" using assms(1) by simp
  moreover have "128 \<le> unat b \<Longrightarrow> rd s (Suc 0) = Some (s ! 1)" "224 \<le> unat b \<Longrightarrow> rd s 2 = Some (s ! 2)"
    "240 \<le> unat b \<Longrightarrow> rd s 3 = Some (s ! 3)"
    using assms(2-4) by (simp_all add: rd_def)
  ultimately show ?thesis
    by (auto simp: chartorune_def Let_def bad_rune_def rune_consts not_less simp del: push_bit_or push_bit_xor)
qed

lemma fullrune_Cons:
  "0 < n \<Longrightarrow> fullrune (b # s) n =
    Some ((unat b < 128 \<or> 2 \<le> n) \<and> (unat b < 224 \<or> 3 \<le> n) \<and> (unat b < 240 \<or> 4 \<le> n))"
  by (auto simp: fullrune_def Let_def rune_consts)

lemma fullrune_decodes:
  assumes "fullrune str n = Some True" "n \<le> int (length str)"
  shows "chartorune (take (nat n) str) \<noteq> None"
proof -
  have n: "0 < n" using assms by (auto simp: fullrune_def split: if_splits)
  then obtain b t where s: "str = b # t" using assms by (cases str) auto
  have "(unat b < 128 \<or> 2 \<le> n) \<and> (unat b < 224 \<or> 3 \<le> n) \<and> (unat b < 240 \<or> 4 \<le> n)"
    using assms(1) fullrune_Cons[OF n, of b t] s by simp
  moreover have "take (nat n) str = b # take (nat n - 1) t" using n s by (cases "nat n") auto
  moreover have "length (take (nat n) str) = nat n" using n assms(2) by simp
  ultimately show ?thesis
    using n by (intro chartorune_enough[of _ b "take (nat n - 1) t"]) linarith+
qed

definition lead_ok :: "byte list \<Rightarrow> bool" where
  "lead_ok bs \<longleftrightarrow> bs \<noteq> [] \<and> length bs \<le> 4 \<and> (unat (hd bs) < 128 \<longleftrightarrow> length bs = 1) \<and>
     (unat (hd bs) < 224 \<longleftrightarrow> length bs \<le> 2) \<and> (unat (hd bs) < 240 \<longleftrightarrow> length bs \<le> 3)"

lemma runetochar_lead: "lead_ok (runetochar r)"
proof -
  have main: "lead_ok (runetochar r)" if r: "unat r \<le> 1114111" for r
  proof -
    consider "unat r \<le> 127" | "127 < unat r" "unat r \<le> 2047" | "2047 < unat r" "unat r \<le> 65535"
      | "65535 < unat r" using r by linarith
    then show ?thesis
    proof cases
      case 1
      then have "unat (ucast r :: byte) = unat r" using unat_of_nat_byte[of "unat r"] by simp
      with 1 show ?thesis by (simp add: runetochar_1 lead_ok_def)
    next
      case 2
      then have "unat r div 64 < 32" by simp
      with 2 show ?thesis by (simp add: runetochar_2 lead_ok_def del: of_nat_add)
    next
      case 3
      then have "unat r div 4096 < 16" by simp
      with 3 show ?thesis by (simp add: runetochar_3 lead_ok_def del: of_nat_add)
    next
      case 4
      then have "unat r div 262144 < 8" using r by simp
      with 4 show ?thesis using r by (simp add: runetochar_4 lead_ok_def del: of_nat_add)
    qed
  qed
  show ?thesis
  proof (cases "unat r \<le> 1114111")
    case True
    then show ?thesis by (rule main)
  next
    case False
    then have "runetochar r = runetochar (of_nat Runeerror)" by (intro runetochar_big) simp
    then show ?thesis using main[of "of_nat Runeerror"] by (simp add: rune_consts)
  qed
qed

lemma fullrune_prefix_core:
  assumes "k \<le> length (runetochar r)"
  shows "fullrune (take k (runetochar r) @ junk) (int k) = Some (k = length (runetochar r))"
proof (cases k)
  case 0
  then show ?thesis using runetochar_lead[of r] by (auto simp: fullrune_def lead_ok_def)
next
  case (Suc j)
  obtain b t where b: "runetochar r = b # t" "unat b < 128 \<longleftrightarrow> length (runetochar r) = 1"
    "unat b < 224 \<longleftrightarrow> length (runetochar r) \<le> 2" "unat b < 240 \<longleftrightarrow> length (runetochar r) \<le> 3"
    "length (runetochar r) \<le> 4"
    using runetochar_lead[of r] by (cases "runetochar r") (auto simp: lead_ok_def)
  have "take k (runetochar r) @ junk = b # (take j t @ junk)" using b(1) Suc by simp
  moreover have "0 < int k" using Suc by simp
  ultimately show ?thesis using b(2-) assms Suc by (simp add: fullrune_Cons) linarith
qed

lemma sint_small: "unat (r::rune) < 2 ^ 31 \<Longrightarrow> sint r = int (unat r)"
proof -
  assume "unat r < 2 ^ 31"
  then have "int (unat r) < int (2 ^ 31)" by (simp only: of_nat_less_iff)
  then have a: "uint r < 2 ^ 31" by simp
  have "sint r = signed_take_bit 31 (uint r)" using sint_uint[of r] by simp
  also have "\<dots> = uint r"
    by (rule signed_take_bit_int_eq_self) (use a in \<open>simp_all add: order_trans[OF _ uint_ge_0]\<close>)
  finally show ?thesis by simp
qed
lemma runelen_cases:
  "length (runetochar r) =
    (if unat r \<le> Rune1 then 1 else if unat r \<le> Rune2 then 2
     else if unat r \<le> Rune3 \<or> unat r > Runemax then 3 else 4)"
  by (simp add: runetochar_def Let_def rune_consts)

lemma runenlen_core:
  assumes "\<forall>r\<in>set rs. unat r < 2 ^ 31"
  shows "runenlen rs (length rs) = Some (\<Sum>r\<leftarrow>rs. length (runetochar r))"
  using assms
proof (induction rs)
  case (Cons r rs)
  have "sint r = int (unat r)" using Cons.prems sint_small by simp
  then show ?case using Cons by (simp add: runelen_cases Let_def del: of_nat_unat) 
qed simp

section \<open>Properties\<close>


text \<open>
  C7: The decoder accepts only canonical encodings: unless it reports \<^verbatim>\<open>Runeerror\<close> with one byte
  consumed, the bytes it consumed are those \<^verbatim>\<open>runetochar\<close> writes for the rune, so overlong forms, stray
  continuation bytes and code points above \<^verbatim>\<open>Runemax\<close> are all refused.
\<close>
theorem utf_canonical:
  assumes "chartorune s = Some (r, n)"
  shows "r = of_nat Runeerror \<and> n = 1 \<or>
    unat r \<le> Runemax \<and> n = length (runetochar r) \<and> n \<le> length s \<and> take n s = runetochar r"
  using assms by (rule decode_canonical)

theorem utf_canonical_witness:
  "chartorune [0xE2, 0x82, 0xAC, 0] = Some (0x20AC, 3) \<and> take 3 [0xE2, 0x82, 0xAC, 0] = runetochar 0x20AC"
proof -
  have "chartorune [0xE2, 0x82, 0xAC, 0] = Some (0x20AC, 3)"
    by (simp add: chartorune_3 is_cont_def code3_def)
  from this utf_canonical[OF this] show ?thesis by simp
qed







text \<open>The hypothesis is needed: the \<^verbatim>\<open>int\<close> loop variable makes a rune at or above \<open>2 ^ 31\<close> negative.\<close>

lemma runenlen_negative: "runenlen [0x80000000] (Suc 0) = Some 1"
  by (simp add: rune_consts)

lemma runelen_negative: "runelen 0x80000000 = 3"
  by (simp add: rune_consts runelen_def runelen_cases)

end
