(* ===== verification/UtfStr.thy ===== *)
theory UtfStr
  imports Utf
begin

text \<open>
  The functions of lib9 that scan and copy UTF-8 strings (src/src/lib9/utf/utflen.c, utfnlen.c,
  utfrune.c, utfrrune.c, utfutf.c, utfecpy.c). A \<^verbatim>\<open>char*\<close> result is the offset from the argument it
  points into; the inner \<open>None\<close> of a result is the null pointer, the outer \<open>None\<close> an access outside
  the object.
\<close>

unbundle bit_operations_syntax

section \<open>String functions of the C library\<close>

fun strchr :: "byte list \<Rightarrow> byte \<Rightarrow> nat option option" where
  "strchr [] c = None"
| "strchr (x # s) c =
     (if x = c then Some (Some 0)
      else if x = 0 then Some None
      else map_option (map_option Suc) (strchr s c))"

fun strrchr :: "byte list \<Rightarrow> byte \<Rightarrow> nat option option" where
  "strrchr [] c = None"
| "strrchr (x # s) c =
     (if x = 0 then Some (if c = 0 then Some 0 else None)
      else map_option
        (\<lambda>r. case r of Some i \<Rightarrow> Some (Suc i) | None \<Rightarrow> if x = c then Some 0 else None)
        (strrchr s c))"

text \<open>\<^verbatim>\<open>strncmp(p, s, n) == 0\<close>, stopping at the first difference or at a common NUL.\<close>

fun strncmp0 :: "byte list \<Rightarrow> byte list \<Rightarrow> nat \<Rightarrow> bool option" where
  "strncmp0 p s 0 = Some True"
| "strncmp0 (x # p) (y # s) (Suc n) =
     (if x \<noteq> y then Some False else if x = 0 then Some True else strncmp0 p s n)"
| "strncmp0 p s (Suc n) = None"

fun strstr :: "byte list \<Rightarrow> byte list \<Rightarrow> nat option option" where
  "strstr [] s2 = None"
| "strstr (x # s1) s2 =
     (case strlen s2 of None \<Rightarrow> None
      | Some n \<Rightarrow> (case strncmp0 (x # s1) s2 n of None \<Rightarrow> None
        | Some True \<Rightarrow> Some (Some 0)
        | Some False \<Rightarrow> if x = 0 then Some None
            else map_option (map_option Suc) (strstr s1 s2)))"

section \<open>Operations\<close>

lemma chartorune_drop_less:
  "chartorune s = Some (r, n) \<Longrightarrow> length s - n < length s"
  using chartorune_bytes(1,2)[of s r n] by linarith

function utflen :: "byte list \<Rightarrow> nat option" where
  "utflen s =
     (case rd s 0 of None \<Rightarrow> None
      | Some b \<Rightarrow>
          (if unat b < Runeself then
             (if b = 0 then Some 0 else map_option Suc (utflen (drop 1 s)))
           else (case chartorune s of None \<Rightarrow> None
             | Some (rune, n) \<Rightarrow> map_option Suc (utflen (drop n s)))))"
  by pat_completeness auto
termination
  by (relation "measure length") (auto simp: chartorune_drop_less rd_Some_iff)

function utfnlen :: "byte list \<Rightarrow> int \<Rightarrow> nat option" where
  "utfnlen s m =
     (if m \<le> 0 then Some 0
      else case rd s 0 of None \<Rightarrow> None
      | Some b \<Rightarrow>
          (if unat b < Runeself then
             (if b = 0 then Some 0 else map_option Suc (utfnlen (drop 1 s) (m - 1)))
           else (case fullrune s m of None \<Rightarrow> None
             | Some False \<Rightarrow> Some 0
             | Some True \<Rightarrow> (case chartorune s of None \<Rightarrow> None
                 | Some (rune, n) \<Rightarrow> map_option Suc (utfnlen (drop n s) (m - int n))))))"
  by pat_completeness auto
termination
  by (relation "measure (length o fst)") (auto simp: chartorune_drop_less rd_Some_iff)

text \<open>The loop of \<^verbatim>\<open>utfrune\<close>; \<open>i\<close> is the offset of \<^verbatim>\<open>s\<close> from the start of the string.\<close>

function utfrune_loop :: "byte list \<Rightarrow> int \<Rightarrow> nat \<Rightarrow> nat option option" where
  "utfrune_loop s c i =
     (case rd s 0 of None \<Rightarrow> None
      | Some c1 \<Rightarrow>
          (if unat c1 < Runeself then
             (if c1 = 0 then Some None
              else if int (unat c1) = c then Some (Some i)
              else utfrune_loop (drop 1 s) c (i + 1))
           else (case chartorune s of None \<Rightarrow> None
             | Some (r, n) \<Rightarrow>
                 if uint r = c then Some (Some i) else utfrune_loop (drop n s) c (i + n))))"
  by pat_completeness auto
termination
  by (relation "measure (length o fst)") (auto simp: chartorune_drop_less rd_Some_iff)

definition utfrune :: "byte list \<Rightarrow> int \<Rightarrow> nat option option" where
  "utfrune s c = (if c < int Runesync then strchr s (of_int c) else utfrune_loop s c 0)"

function utfrrune_loop :: "byte list \<Rightarrow> int \<Rightarrow> nat \<Rightarrow> nat option \<Rightarrow> nat option option" where
  "utfrrune_loop s c i s1 =
     (case rd s 0 of None \<Rightarrow> None
      | Some c1 \<Rightarrow>
          (if unat c1 < Runeself then
             (if c1 = 0 then Some s1
              else utfrrune_loop (drop 1 s) c (i + 1) (if int (unat c1) = c then Some i else s1))
           else (case chartorune s of None \<Rightarrow> None
             | Some (r, n) \<Rightarrow>
                 utfrrune_loop (drop n s) c (i + n) (if uint r = c then Some i else s1))))"
  by pat_completeness auto
termination
  by (relation "measure (length o fst)") (auto simp: chartorune_drop_less rd_Some_iff)

definition utfrrune :: "byte list \<Rightarrow> int \<Rightarrow> nat option option" where
  "utfrrune s c = (if c < int Runesync then strrchr s (of_int c) else utfrrune_loop s c 0 None)"

declare utflen.simps [simp del] utfnlen.simps [simp del] utfrune_loop.simps [simp del]
  utfrrune_loop.simps [simp del]

lemma utfrune_in_object: "utfrune (drop p s) c = Some x \<Longrightarrow> p < length s"
  by (rule ccontr) (auto simp: utfrune_def utfrune_loop.simps[of "[]"] split: if_splits)

text \<open>
  The loop of \<^verbatim>\<open>utfutf\<close>: \<open>p\<close> is the offset into \<^verbatim>\<open>s1\<close>. A pointer past the end of the object is the
  empty list, where every read fails. \<^verbatim>\<open>n1\<close> is at least one, so the offset grows.
\<close>

function utfutf_loop :: "byte list \<Rightarrow> byte list \<Rightarrow> int \<Rightarrow> nat \<Rightarrow> nat \<Rightarrow> nat \<Rightarrow> nat option option" where
  "utfutf_loop s1 s2 f n1 n2 p =
     (if n1 = 0 then None else
      case utfrune (drop p s1) f of None \<Rightarrow> None
      | Some None \<Rightarrow> Some None
      | Some (Some i) \<Rightarrow>
          (case strncmp0 (drop (p + i) s1) s2 n2 of None \<Rightarrow> None
           | Some True \<Rightarrow> Some (Some (p + i))
           | Some False \<Rightarrow> utfutf_loop s1 s2 f n1 n2 (p + i + n1)))"
  by pat_completeness auto
termination
  by (relation "measure (\<lambda>(s1, s2, f, n1, n2, p). length s1 - p)")
    (auto dest!: utfrune_in_object)

declare utfutf_loop.simps [simp del]

definition utfutf :: "byte list \<Rightarrow> byte list \<Rightarrow> nat option option" where
  "utfutf s1 s2 =
     (case chartorune s2 of None \<Rightarrow> None
      | Some (r, n1) \<Rightarrow>
          let f = uint r in
          if f \<le> int Runesync then strstr s1 s2
          else (case strlen s2 of None \<Rightarrow> None
            | Some n2 \<Rightarrow> utfutf_loop s1 s2 f n1 n2 0))"

text \<open>
  \<^verbatim>\<open>memccpy(to, from, '\0', n)\<close>: the destination afterwards and the offset just past the copied NUL,
  \<open>None\<close> when the first \<open>n\<close> bytes held no NUL. The source is read until the NUL or \<open>n\<close> bytes.
\<close>

fun memccpy0 :: "byte list \<Rightarrow> byte list \<Rightarrow> nat \<Rightarrow> (byte list \<times> nat option) option" where
  "memccpy0 to from 0 = Some (to, None)"
| "memccpy0 (x # to) (c # from) (Suc n) =
     (if c = 0 then Some (0 # to, Some 1)
      else map_option (\<lambda>(d, e). (c # d, map_option Suc e)) (memccpy0 to from n))"
| "memccpy0 to from (Suc n) = None"

text \<open>The loop \<^verbatim>\<open>while(end>to && ( *--end&0xC0)==0x80)\<close>; \<^verbatim>\<open>end\<close> as an offset from \<^verbatim>\<open>to\<close>.\<close>

fun utfecpy_back :: "byte list \<Rightarrow> nat \<Rightarrow> nat" where
  "utfecpy_back to 0 = 0"
| "utfecpy_back to (Suc e) =
     (if to ! e AND 0xC0 = 0x80 then utfecpy_back to e else e)"

text \<open>
  \<^verbatim>\<open>utfecpy(to, e, from)\<close> for the buffer \<^verbatim>\<open>to .. e\<close>: the buffer afterwards and the offset returned.
\<close>

definition utfecpy :: "byte list \<Rightarrow> byte list \<Rightarrow> (byte list \<times> nat) option" where
  "utfecpy to from =
     (if length to = 0 then Some (to, 0)
      else (case memccpy0 to from (length to) of None \<Rightarrow> None
        | Some (d, None) \<Rightarrow>
            (let e = utfecpy_back d (length to - 1) in Some (d[e := 0], e))
        | Some (d, Some e) \<Rightarrow> Some (d, e - 1)))"


section \<open>The runes of a string\<close>

text \<open>
  What the scanning functions are about: the runes of a C string in order, each with the offset at
  which it starts.
\<close>

function runes_at :: "nat \<Rightarrow> byte list \<Rightarrow> (nat \<times> rune) list option" where
  "runes_at off s =
     (case chartorune s of None \<Rightarrow> None
      | Some (r, n) \<Rightarrow>
          if r = 0 then Some [] else map_option ((#) (off, r)) (runes_at (off + n) (drop n s)))"
  by pat_completeness auto
termination
  by (relation "measure (length o snd)") (auto simp: chartorune_drop_less)

declare runes_at.simps [simp del]

lemma cstring_chartorune:
  assumes "cstring s" "rd s 0 = Some b" "b \<noteq> 0"
  obtains r n where "chartorune s = Some (r, n)" "r \<noteq> 0" "cstring (drop n s)" "n \<le> length s" "1 \<le> n"
    "128 \<le> unat b \<longrightarrow> (\<forall>x\<in>set (take n s). 128 \<le> unat x) \<and> 127 < unat r"
    "unat b < 128 \<longrightarrow> n = 1 \<and> r = of_nat (unat b)"
proof -
  obtain t u where s: "s = t @ 0 # u" "0 \<notin> set t" using assms(1) by (rule cstring_split)
  have t: "t \<noteq> []" using s assms(2,3) by (auto simp: rd_Some_iff)
  obtain r n where rn: "chartorune s = Some (r, n)" using chartorune_defined[OF assms(1)] by fastforce
  have n: "n \<le> length t" using chartorune_in_string[OF s(2) t] rn s(1) by simp
  have hd: "hd s = b" "s \<noteq> []" using assms(2) by (auto simp: rd_Some_iff hd_conv_nth)
  have 1: "r \<noteq> 0 \<and> (128 \<le> unat b \<longrightarrow> (\<forall>x\<in>set (take n s). 128 \<le> unat x) \<and> 127 < unat r) \<and>
    (unat b < 128 \<longrightarrow> n = 1 \<and> r = of_nat (unat b))"
    using rn
  proof (cases rule: chartorune_cases)
    case bad
    then show ?thesis using hd by (cases s) (auto simp: rune_consts)
  next
    case (one c w)
    moreover have "(of_nat (unat b) :: rune) \<noteq> 0" using assms(3) by (rule byte_rune_neq_0)
    ultimately show ?thesis using hd by auto
  next
    case (two c c1 w)
    then have "unat r = code2 c c1" using spell_code2(3)[OF two(2-4)] by simp
    then show ?thesis using two hd unat_0 by (auto simp: is_cont_def)
  next
    case (three c c1 c2 w)
    then have "unat r = code3 c c1 c2" using spell_code3(4)[OF three(2-5)] by simp
    then show ?thesis using three hd by (auto simp: is_cont_def)
  next
    case (four c c1 c2 c3 w)
    then have u: "unat r = code4 c c1 c2 c3" by simp
    then have "r \<noteq> 0" using four(7) by auto
    then show ?thesis using u four hd by (simp add: is_cont_def)
  qed
  have "cstring (drop n s)" using n s(1) by (auto simp: cstring_def)
  moreover have "n \<le> length s" "1 \<le> n" using chartorune_bytes[OF rn] by auto
  ultimately show thesis using that rn 1 by blast
qed

lemma runes_at_0:
  "rd s 0 = Some 0 \<Longrightarrow> runes_at off s = Some []"
  by (cases s) (auto simp: runes_at.simps[of off "0 # t" for t] chartorune_1)

lemma runes_at_step:
  "chartorune s = Some (r, n) \<Longrightarrow> r \<noteq> 0 \<Longrightarrow>
    runes_at off s = map_option ((#) (off, r)) (runes_at (off + n) (drop n s))"
  by (simp add: runes_at.simps[of off s])

text \<open>Induction over the runes of a C string.\<close>

lemma cstring_induct [consumes 1, case_names nul rune]:
  assumes "cstring s"
    and nul: "\<And>s off. rd s 0 = Some 0 \<Longrightarrow> P s off"
    and rune: "\<And>s off b r n. \<lbrakk>cstring s; rd s 0 = Some b; b \<noteq> 0; chartorune s = Some (r, n); r \<noteq> 0;
        1 \<le> n; n \<le> length s; cstring (drop n s);
        128 \<le> unat b \<longrightarrow> (\<forall>x\<in>set (take n s). 128 \<le> unat x) \<and> 127 < unat r;
        unat b < 128 \<longrightarrow> n = 1 \<and> r = of_nat (unat b); \<And>off. P (drop n s) off\<rbrakk> \<Longrightarrow> P s off"
  shows "P s off"
  using assms(1)
proof (induction s arbitrary: off rule: length_induct)
  case (1 s)
  obtain b where b: "rd s 0 = Some b" using 1(2) by (cases s) (auto simp: cstring_def)
  show ?case
  proof (cases "b = 0")
    case True
    then show ?thesis using nul b by simp
  next
    case False
    obtain r n where rn: "chartorune s = Some (r, n)" "r \<noteq> 0" "cstring (drop n s)" "n \<le> length s"
      "1 \<le> n" "128 \<le> unat b \<longrightarrow> (\<forall>x\<in>set (take n s). 128 \<le> unat x) \<and> 127 < unat r"
      "unat b < 128 \<longrightarrow> n = 1 \<and> r = of_nat (unat b)"
      using cstring_chartorune[OF 1(2) b False] by metis
    have "\<And>off. P (drop n s) off" using 1(1) rn(3,4,5) by auto
    then show ?thesis using rune[OF 1(2) b False rn(1,2,5,4,3,6,7)] by blast
  qed
qed

lemma runes_at_defined: "cstring s \<Longrightarrow> \<exists>l. runes_at off s = Some l"
proof (induction s off rule: cstring_induct)
  case (nul s off)
  then show ?case by (simp add: runes_at_0)
next
  case (rune s off b r n)
  then show ?case by (metis runes_at_step option.simps(9))
qed

lemma utflen_runes: "cstring s \<Longrightarrow> utflen s = map_option length (runes_at off s)"
proof (induction s off rule: cstring_induct)
  case (nul s off)
  then show ?case by (simp add: runes_at_0 utflen.simps[of s] rune_consts)
next
  case (rune s off b r n)
  obtain l where l: "runes_at (off + n) (drop n s) = Some l"
    using runes_at_defined rune(8) by blast
  then show ?case using rune(1-10) rune(11)[of "off + n"]
    by (cases "unat b < 128") (auto simp add: runes_at_step utflen.simps[of s] rune_consts)
qed

lemma utfrune_loop_runes:
  "cstring s \<Longrightarrow> 128 \<le> c \<Longrightarrow> utfrune_loop s c off =
     map_option (\<lambda>l. map_option fst (find (\<lambda>(i, r). uint r = c) l)) (runes_at off s)"
proof (induction s off rule: cstring_induct)
  case (nul s off)
  then show ?case by (simp add: runes_at_0 utfrune_loop.simps[of s] rune_consts)
next
  case (rune s off b r n)
  obtain l where l: "runes_at (off + n) (drop n s) = Some l"
    using runes_at_defined rune(8) by blast
  then show ?case using rune
    by (cases "unat b < 128")
      (auto simp add: runes_at_step utfrune_loop.simps[of s] rune_consts)
qed

lemma strchr_skip:
  assumes "n \<le> length s" "\<forall>x\<in>set (take n s). x \<noteq> c \<and> x \<noteq> 0"
  shows "strchr s c = map_option (map_option ((+) n)) (strchr (drop n s) c)"
  using assms
proof (induction n arbitrary: s)
  case 0
  then show ?case by (cases "strchr s c") (simp_all add: option.map_ident)
next
  case (Suc n)
  then obtain x t where s: "s = x # t" by (cases s) auto
  have "(map_option ((+) n) :: nat option \<Rightarrow> _) = map_option (\<lambda>i. n + i)" by simp
  then show ?case using Suc s by (simp add: option.map_comp o_def)
qed

lemma strrchr_skip:
  assumes "n \<le> length s" "\<forall>x\<in>set (take n s). x \<noteq> c \<and> x \<noteq> 0"
  shows "strrchr s c = map_option (map_option ((+) n)) (strrchr (drop n s) c)"
  using assms
proof (induction n arbitrary: s)
  case 0
  then show ?case by (simp add: option.map_ident)
next
  case (Suc n)
  then obtain x t where s: "s = x # t" by (cases s) auto
  then show ?case using Suc by (cases "strrchr (drop n t) c") (auto split: option.split)
qed

text \<open>A byte below \<^verbatim>\<open>Runesync\<close> is never part of a longer sequence, so scanning bytes finds the rune.\<close>

lemma strchr_runes:
  assumes "cstring s" "1 \<le> uint c" "unat c < 128"
  shows "map_option (map_option ((+) off)) (strchr s c) =
     map_option (\<lambda>l. map_option fst (find (\<lambda>(i, r). uint r = uint c) l)) (runes_at off s)"
  using assms(1)
proof (induction s off rule: cstring_induct)
  case (nul s off)
  have "c \<noteq> 0" using assms(2) by auto
  then show ?case using nul by (cases s) (auto simp: runes_at_0)
next
  case (rune s off b r n)
  obtain l where l: "runes_at (off + n) (drop n s) = Some l"
    using runes_at_defined rune(8) by blast
  note IH = rune(11)[of "off + n"]
  show ?case
  proof (cases "b = c")
    case True
    then have "strchr s c = Some (Some 0)" using rune(2) by (cases s) auto
    then show ?thesis using True rune(4,5,10) assms(3) l by (simp add: runes_at_step)
  next
    case False
    have "\<forall>x\<in>set (take n s). x \<noteq> c \<and> x \<noteq> 0"
      using False rune(2,3,9,10) assms(3) by (cases s; cases "unat b < 128") force+
    then have "strchr s c = map_option (map_option ((+) n)) (strchr (drop n s) c)"
      using strchr_skip rune(7) by blast
    moreover have "uint r \<noteq> uint c"
    proof (cases "unat b < 128")
      case True
      then show ?thesis using rune(10) False by (simp add: word_uint_eq_iff)
    next
      case b: False
      then have "unat r \<noteq> unat c" using rune(9) assms(3) by simp
      then show ?thesis by (metis unat_eq_nat_uint)
    qed
    ultimately show ?thesis using rune(4,5) l IH
      by (auto simp add: runes_at_step option.map_comp o_def add.assoc[symmetric])
  qed
qed

lemma rev_find_Cons: "find P (rev (x # l)) =
    (case find P (rev l) of None \<Rightarrow> if P x then Some x else None | Some y \<Rightarrow> Some y)"
  by (induction l rule: rev_induct) auto

lemma utfrrune_loop_runes:
  "cstring s \<Longrightarrow> 128 \<le> c \<Longrightarrow> utfrrune_loop s c off s1 =
     map_option (\<lambda>l. case find (\<lambda>(i, r). uint r = c) (rev l) of None \<Rightarrow> s1 | Some (i, r) \<Rightarrow> Some i)
       (runes_at off s)"
proof (induction s off arbitrary: s1 rule: cstring_induct)
  case (nul s off)
  then show ?case by (simp add: runes_at_0 utfrrune_loop.simps[of s] rune_consts)
next
  case (rune s off b r n)
  obtain l where l: "runes_at (off + n) (drop n s) = Some l"
    using runes_at_defined rune(8) by blast
  then show ?case using rune
    by (cases "unat b < 128")
      (auto simp add: runes_at_step utfrrune_loop.simps[of s] rune_consts rev_find_Cons
        simp del: rev.simps split: option.split)
qed

lemma strrchr_runes:
  assumes "cstring s" "1 \<le> uint c" "unat c < 128"
  shows "map_option (map_option ((+) off)) (strrchr s c) =
     map_option (\<lambda>l. map_option fst (find (\<lambda>(i, r). uint r = uint c) (rev l))) (runes_at off s)"
  using assms(1)
proof (induction s off rule: cstring_induct)
  case (nul s off)
  have "c \<noteq> 0" using assms(2) by auto
  then show ?case using nul by (cases s) (auto simp: runes_at_0)
next
  case (rune s off b r n)
  obtain l where l: "runes_at (off + n) (drop n s) = Some l"
    using runes_at_defined rune(8) by blast
  note IH = rune(11)[of "off + n"]
  show ?case
  proof (cases "b = c")
    case True
    then have n: "n = 1" "r = of_nat (unat b)" using rune(10) assms(3) by auto
    obtain t where s: "s = b # t" using rune(2) by (cases s) auto
    obtain x where x: "strrchr t c = Some x" using IH l n(1) s by (cases "strrchr t c") auto
    have "strrchr s c = Some (case x of Some i \<Rightarrow> Some (Suc i) | None \<Rightarrow> Some 0)"
      using s rune(3) True x by simp
    then show ?thesis using True n rune(4,5) l IH x s
      by (cases x; cases "find (\<lambda>(i, r). uint r = uint c) (rev l)")
        (auto simp add: runes_at_step rev_find_Cons simp del: rev.simps)
  next
    case False
    have "\<forall>x\<in>set (take n s). x \<noteq> c \<and> x \<noteq> 0"
      using False rune(2,3,9,10) assms(3) by (cases s; cases "unat b < 128") force+
    then have "strrchr s c = map_option (map_option ((+) n)) (strrchr (drop n s) c)"
      using strrchr_skip rune(7) by blast
    moreover have "uint r \<noteq> uint c"
    proof (cases "unat b < 128")
      case True
      then show ?thesis using rune(10) False by (simp add: word_uint_eq_iff)
    next
      case b: False
      then have "unat r \<noteq> unat c" using rune(9) assms(3) by simp
      then show ?thesis by (metis unat_eq_nat_uint)
    qed
    ultimately show ?thesis using rune(4,5) l IH
      by (auto simp add: runes_at_step option.map_comp o_def add.assoc[symmetric] rev_find_Cons
          simp del: rev.simps split: option.split)
  qed
qed

lemma option_map_add_0 [simp]: "map_option (map_option ((+) (0::nat))) x = x"
  by (cases x; cases "the x") (simp_all add: option.map_ident)

text \<open>The bytes of a rune sequence.\<close>

abbreviation utf_bytes :: "rune list \<Rightarrow> byte list" where
  "utf_bytes rs \<equiv> concat (map runetochar rs)"

lemma utfnlen_local:
  "\<exists>k. \<forall>t. utfnlen (a @ t) (int (length a)) = Some k"
proof (induction a rule: length_induct)
  case (1 a)
  show ?case
  proof (cases a)
    case Nil
    then show ?thesis by (simp add: utfnlen.simps)
  next
    case (Cons b a')
    show ?thesis
    proof (cases "unat b < 128")
      case True
      obtain k where "\<forall>t. utfnlen (a' @ t) (int (length a')) = Some k" using 1 Cons by auto
      then have "\<forall>t. utfnlen (a @ t) (int (length a)) = Some (if b = 0 then 0 else Suc k)"
        using True Cons by (simp add: utfnlen.simps[of "b # a' @ t" for t] rune_consts)
      then show ?thesis by blast
    next
      case False
      obtain v where v: "\<And>t. fullrune (a @ t) (int (length a)) = Some v"
        using Cons by (simp add: fullrune_Cons)
      show ?thesis
      proof (cases v)
        case F: False
        then have "\<forall>t. utfnlen (a @ t) (int (length a)) = Some 0"
          using False Cons v by (simp add: utfnlen.simps[of "b # a' @ t" for t] rune_consts)
        then show ?thesis by blast
      next
        case T: True
        then have "chartorune a \<noteq> None"
          using fullrune_decodes[of a "int (length a)"] v[of "[]"] by simp
        then obtain r n where rn: "chartorune a = Some (r, n)" by auto
        then have n: "1 \<le> n" "n \<le> length a" using chartorune_bytes by auto
        then have "length (drop n a) < length a" by simp
        then obtain k where k: "\<forall>t. utfnlen (drop n a @ t) (int (length (drop n a))) = Some k"
          using 1 by blast
        then have "\<forall>t. utfnlen (drop n (a @ t)) (int (length a) - int n) = Some k"
          using n by (simp add: of_nat_diff)
        moreover have "\<And>t. chartorune (a @ t) = Some (r, n)" using rn by (rule chartorune_append)
        moreover have "\<And>t. rd (a @ t) 0 = Some b" using Cons by simp
        ultimately have "\<forall>t. utfnlen (a @ t) (int (length a)) = Some (Suc k)"
          using False Cons T v by (simp add: utfnlen.simps[of "b # a' @ t" for t] rune_consts)
        then show ?thesis by blast
      qed
    qed
  qed
qed

lemma utfnlen_step:
  "chartorune s = Some (r, n) \<Longrightarrow> rd s 0 = Some b \<Longrightarrow> b \<noteq> 0 \<Longrightarrow> 0 < m \<Longrightarrow> fullrune s m = Some True \<Longrightarrow>
    utfnlen s m = map_option Suc (utfnlen (drop n s) (m - int n))"
  by (cases s) (auto simp: utfnlen.simps[of "b # u" for u] chartorune_1 rune_consts)

lemma runetochar_hd_0: "hd (runetochar r) = 0 \<longleftrightarrow> r = 0"
proof
  assume "hd (runetochar r) = 0"
  moreover obtain b t where "runetochar r = b # t" using runetochar_lead[of r] by (cases "runetochar r") (auto simp: lead_ok_def)
  ultimately have "runetochar r = 0 # t" by simp
  then have "chartorune (runetochar r @ []) = Some (0, 1)" by (simp add: chartorune_1)
  then show "r = 0" using decode_encode[of r "[]"] by (auto simp: rune_consts split: if_splits)
next
  assume "r = 0" then show "hd (runetochar r) = 0" by (simp add: runetochar_1)
qed

lemma fullrune_append: "fullrune s n = Some v \<Longrightarrow> fullrune (s @ t) n = Some v"
  by (cases s) (auto simp: fullrune_def split: if_splits)

lemma fullrune_more: "fullrune s n = Some True \<Longrightarrow> n \<le> m \<Longrightarrow> fullrune s m = Some True"
  by (cases s) (auto simp: fullrune_def Let_def split: if_splits)

lemma fullrune_runetochar:
  "int (length (runetochar r)) \<le> m \<Longrightarrow> fullrune (runetochar r @ t) m = Some True"
  using fullrune_prefix_core[of "length (runetochar r)" r t] fullrune_more by fastforce

lemma utfnlen_runes:
  assumes "0 \<notin> set rs" "k < length (runetochar q)"
  shows "utfnlen (utf_bytes rs @ take k (runetochar q) @ t) (int (length (utf_bytes rs) + k)) = Some (length rs)"
  using assms(1)
proof (induction rs)
  case Nil
  have f: "fullrune (take k (runetochar q) @ t) (int k) = Some False"
    using fullrune_prefix_core[of k q t] assms(2) by simp
  show ?case
  proof (cases "k = 0")
    case True
    then show ?thesis by (simp add: utfnlen.simps)
  next
    case False
    then obtain b u where b: "runetochar q = b # u" "take k (runetochar q) = b # take (k - 1) u"
      using runetochar_lead[of q] by (cases "runetochar q"; cases k) (auto simp: lead_ok_def)
    moreover have "128 \<le> unat b" using f False b by (auto simp: fullrune_Cons)
    ultimately show ?thesis using f False by (simp add: utfnlen.simps rune_consts)
  qed
next
  case (Cons r rs)
  let ?rest = "utf_bytes rs @ take k (runetochar q) @ t"
  have c: "chartorune (runetochar r @ ?rest) =
      Some (if unat r \<le> Runemax then r else of_nat Runeerror, length (runetochar r))"
    by (rule decode_encode)
  obtain b u where b: "runetochar r = b # u"
    using runetochar_lead[of r] by (cases "runetochar r") (auto simp: lead_ok_def)
  have "b \<noteq> 0" using Cons.prems runetochar_hd_0[of r] b by auto
  moreover have "fullrune (runetochar r @ ?rest) (int (length (utf_bytes (r # rs)) + k)) = Some True"
    by (rule fullrune_runetochar) simp
  ultimately show ?case using utfnlen_step[OF c, of b "int (length (utf_bytes (r # rs)) + k)"] Cons b
    by simp
qed

lemma cont_mask: "b AND 0xC0 = 0x80 \<longleftrightarrow> is_cont b" for b :: byte
proof -
  have "unat b AND push_bit 6 (mask 2) = push_bit 6 (drop_bit 6 (unat b))"
    by (rule and_push_mask_nat) simp
  then have "unat (b AND 0xC0) = unat b div 64 * 64"
    by (simp add: unsigned_and_eq push_bit_eq_mult mask_eq_exp_minus_1 drop_bit_eq_div)
  moreover have "b AND 0xC0 = 0x80 \<longleftrightarrow> unat (b AND 0xC0) = 128" by (simp add: word_unat_eq_iff)
  ultimately show ?thesis by (simp add: is_cont_def) linarith
qed

lemma chartorune_cont:
  assumes "chartorune s = Some (r, n)" "0 < i" "i < n"
  shows "is_cont (s ! i)"
  using assms(1)
proof (cases rule: chartorune_cases)
  case (two b b1 t)
  then have "i = 1" using assms(2,3) by linarith
  then show ?thesis using two by simp
next
  case (three b b1 b2 t)
  then have "i = 1 \<or> i = 2" using assms(2,3) by linarith
  then show ?thesis using three by auto
next
  case (four b b1 b2 b3 t)
  then have "i = 1 \<or> i = 2 \<or> i = 3" using assms(2,3) by linarith
  then show ?thesis using four by auto
qed (use assms in auto)

lemma runetochar_cont:
  assumes "0 < i" "i < length (runetochar r)"
  shows "is_cont (runetochar r ! i)"
  using chartorune_cont[OF decode_encode[of r "[]"] assms] by simp

text \<open>A byte of the encoding that is no continuation byte starts a rune.\<close>

lemma utf_bytes_start:
  assumes "e < length (utf_bytes rs)" "\<not> is_cont (utf_bytes rs ! e)"
  shows "\<exists>k. e = length (utf_bytes (take k rs))"
  using assms
proof (induction rs arbitrary: e)
  case (Cons r rs)
  show ?case
  proof (cases "e < length (runetochar r)")
    case True
    then have "e = 0" using Cons.prems runetochar_cont[of e r] by (auto simp: nth_append)
    then show ?thesis by (intro exI[of _ 0]) simp
  next
    case False
    then have "e - length (runetochar r) < length (utf_bytes rs)" using Cons.prems(1) by simp
    then obtain k where "e - length (runetochar r) = length (utf_bytes (take k rs))"
      using Cons.IH[of "e - length (runetochar r)"] Cons.prems False by (auto simp: nth_append)
    then show ?thesis using False by (intro exI[of _ "Suc k"]) simp
  qed
qed simp

lemma utfecpy_back_stop:
  "utfecpy_back d n = 0 \<or> utfecpy_back d n < n \<and> \<not> is_cont (d ! utfecpy_back d n)"
  by (induction n) (auto simp: cont_mask)

lemma memccpy0_full:
  "length to \<le> length s \<Longrightarrow> 0 \<notin> set (take (length to) s) \<Longrightarrow>
    memccpy0 to s (length to) = Some (take (length to) s, None)"
proof (induction to arbitrary: s)
  case (Cons x to)
  then show ?case by (cases s) auto
qed simp

lemma memccpy0_fit:
  "0 \<notin> set s \<Longrightarrow> length s < length to \<Longrightarrow>
    memccpy0 to (s @ 0 # t) (length to) = Some (s @ 0 # drop (Suc (length s)) to, Some (Suc (length s)))"
proof (induction s arbitrary: to)
  case Nil
  then show ?case by (cases to) auto
next
  case (Cons c s)
  then show ?case by (cases to) auto
qed

lemma utf_bytes_no_nul: "0 \<notin> set rs \<Longrightarrow> 0 \<notin> set (utf_bytes rs)"
proof (induction rs)
  case (Cons r rs)
  have "0 \<notin> set (runetochar r)"
  proof
    assume "0 \<in> set (runetochar r)"
    then obtain i where i: "i < length (runetochar r)" "runetochar r ! i = 0" by (auto simp: in_set_conv_nth)
    then have "i = 0" using runetochar_cont[of i r] by (cases i) auto
    then have "hd (runetochar r) = 0" using i by (cases "runetochar r") auto
    then show False using runetochar_hd_0[of r] Cons.prems by simp
  qed
  then show ?case using Cons by auto
qed simp

lemma utfecpy_core:
  assumes "to \<noteq> []" "0 \<notin> set rs"
  shows "\<exists>d k. utfecpy to (utf_bytes rs @ 0 # junk) = Some (d, length (utf_bytes (take k rs))) \<and>
     length d = length to \<and> length (utf_bytes (take k rs)) < length to \<and>
     take (length (utf_bytes (take k rs))) d = utf_bytes (take k rs) \<and>
     d ! length (utf_bytes (take k rs)) = 0 \<and>
     (length (utf_bytes rs) < length to \<longrightarrow> take k rs = rs)"
proof (cases "length (utf_bytes rs) < length to")
  case True
  let ?n = "length (utf_bytes rs)"
  have "memccpy0 to (utf_bytes rs @ 0 # junk) (length to) =
      Some (utf_bytes rs @ 0 # drop (Suc ?n) to, Some (Suc ?n))"
    using memccpy0_fit utf_bytes_no_nul assms(2) True by blast
  then show ?thesis using True assms(1)
    by (intro exI[of _ "utf_bytes rs @ 0 # drop (Suc ?n) to"] exI[of _ "length rs"])
      (simp add: utfecpy_def)
next
  case False
  let ?n = "length to"
  define d where "d = take ?n (utf_bytes rs)"
  have t: "take ?n (utf_bytes rs @ 0 # junk) = d" using False by (simp add: d_def)
  have "0 \<notin> set d" using utf_bytes_no_nul[OF assms(2)] unfolding d_def by (meson in_set_takeD)
  then have m: "memccpy0 to (utf_bytes rs @ 0 # junk) ?n = Some (d, None)"
    using memccpy0_full[of to "utf_bytes rs @ 0 # junk"] t False by simp
  define e where "e = utfecpy_back d (?n - 1)"
  have e: "e = 0 \<or> e < ?n - 1 \<and> \<not> is_cont (d ! e)" unfolding e_def by (rule utfecpy_back_stop)
  then have lt: "e < ?n" using assms(1) by (cases to) auto
  have "\<exists>k. e = length (utf_bytes (take k rs))"
  proof (cases "e = 0")
    case True
    then show ?thesis by (intro exI[of _ 0]) simp
  next
    case e0: False
    then show ?thesis using e lt False utf_bytes_start[of e rs] by (simp add: d_def)
  qed
  then obtain k where k: "e = length (utf_bytes (take k rs))" by blast
  have split: "utf_bytes rs = utf_bytes (take k rs) @ utf_bytes (drop k rs)"
    by (metis append_take_drop_id concat_append map_append)
  have "take e d = take e (utf_bytes rs)" using lt by (simp add: d_def min_def)
  also have "\<dots> = utf_bytes (take k rs)"
    by (subst split) (simp add: k)
  finally have "take e d = utf_bytes (take k rs)" .
  then show ?thesis using m assms(1) lt k False
    by (intro exI[of _ "d[e := 0]"] exI[of _ k]) (simp add: utfecpy_def Let_def e_def[symmetric, unfolded One_nat_def], simp add: d_def)
qed

lemma strncmp0_prefix:
  "0 \<notin> set y \<Longrightarrow> cstring p \<Longrightarrow> strncmp0 p (y @ 0 # z) (length y) = Some (take (length y) p = y)"
proof (induction y arbitrary: p)
  case (Cons c y)
  then show ?case by (cases p) (auto simp: cstring_def)
qed simp

lemma strstr_Cons:
  "0 \<notin> set y \<Longrightarrow> cstring (x # s) \<Longrightarrow> strstr (x # s) (y @ 0 # z) =
     (if take (length y) (x # s) = y then Some (Some 0) else if x = 0 then Some None
      else map_option (map_option Suc) (strstr s (y @ 0 # z)))"
  by (simp add: strncmp0_prefix del: strncmp0.simps)

declare strstr.simps [simp del]

lemma strstr_skip:
  assumes "0 \<notin> set y" "cstring s" "n \<le> length s" "0 \<notin> set (take n s)"
    "\<And>i. i < n \<Longrightarrow> take (length y) (drop i s) \<noteq> y"
  shows "strstr s (y @ 0 # z) = map_option (map_option ((+) n)) (strstr (drop n s) (y @ 0 # z))"
  using assms(2-)
proof (induction n arbitrary: s)
  case 0
  then show ?case by (simp add: option.map_ident)
next
  case (Suc n)
  then obtain x t where s: "s = x # t" by (cases s) auto
  have x: "x \<noteq> 0" "take (length y) (x # t) \<noteq> y" using Suc.prems(3) Suc.prems(4)[of 0] s by auto
  have "take (length y) (drop i t) \<noteq> y" if "i < n" for i
    using Suc.prems(4)[of "Suc i"] that s by simp
  then have "strstr t (y @ 0 # z) = map_option (map_option ((+) n)) (strstr (drop n t) (y @ 0 # z))"
    using Suc.IH[of t] Suc.prems s x(1) by (auto simp: cstring_def)
  then show ?case using strstr_Cons[OF assms(1), of x t z] Suc.prems(1) s x
    by (simp add: option.map_comp o_def)
qed

text \<open>
  A search string \<open>y\<close> whose first rune \<open>r1\<close>, of \<open>n1\<close> bytes, is above \<^verbatim>\<open>Runesync\<close> and not \<^verbatim>\<open>Runeerror\<close>.
\<close>

definition needle :: "byte list \<Rightarrow> byte list \<Rightarrow> rune \<Rightarrow> nat \<Rightarrow> bool" where
  "needle y z r1 n1 \<longleftrightarrow> 0 \<notin> set y \<and> chartorune (y @ 0 # z) = Some (r1, n1) \<and>
     128 < unat r1 \<and> unat r1 \<noteq> Runeerror"

lemma needleD:
  assumes "needle y z r1 n1"
  shows "0 \<notin> set y" "chartorune (y @ 0 # z) = Some (r1, n1)" "128 < unat r1"
    "unat r1 \<noteq> Runeerror" "y \<noteq> []"
proof -
  show 1: "0 \<notin> set y" "chartorune (y @ 0 # z) = Some (r1, n1)" "128 < unat r1"
    "unat r1 \<noteq> Runeerror"
    using assms by (simp_all add: needle_def)
  show "y \<noteq> []" using 1(2,3) by (auto simp: chartorune_1)
qed

lemma needle_bytes:
  assumes nd: "needle y z r1 n1"
  shows "1 \<le> n1" "n1 \<le> length y" "take n1 y = runetochar r1" "length (runetochar r1) = n1"
    "unat r1 \<le> Runemax"
proof -
  note dec = needleD(2)[OF nd]
  show n: "n1 \<le> length y" using chartorune_in_string[OF needleD(1,5)[OF nd] dec] .
  have e: "r1 \<noteq> of_nat Runeerror" using needleD(4)[OF nd] by (auto simp: rune_consts)
  show "1 \<le> n1" using chartorune_bytes(1)[OF dec] .
  have "take n1 (y @ 0 # z) = take n1 y" using n by simp
  then show "take n1 y = runetochar r1" "length (runetochar r1) = n1" "unat r1 \<le> Runemax"
    using decode_canonical[OF dec] e by auto
qed

lemma match_decodes:
  assumes "take (length y) s = y" and nd: "needle y z r1 n1"
  shows "chartorune s = Some (r1, n1)"
proof -
  have "take n1 s = runetochar r1" using assms(1) needle_bytes(2,3)[OF nd] by (metis min.absorb1 take_take)
  then have "s = runetochar r1 @ drop n1 s" by (metis append_take_drop_id)
  then show ?thesis using decode_encode[of r1 "drop n1 s"] needle_bytes(4,5)[OF nd] by simp
qed

lemma needle_lead:
  assumes nd: "needle y z r1 n1"
  shows "\<not> is_cont (hd y)"
  using needleD(2)[OF nd]
proof (cases rule: chartorune_cases)
  case bad
  then show ?thesis using needleD(4)[OF nd] by (simp add: rune_consts)
next
  case (one b t)
  then show ?thesis using needleD(3)[OF nd] unat_byte_rune[of b] by simp
next
  case (two b b1 t)
  then have "hd y = b" using needleD(5)[OF nd] by (cases y) auto
  then show ?thesis using two by (simp add: is_cont_def)
next
  case (three b b1 b2 t)
  then have "hd y = b" using needleD(5)[OF nd] by (cases y) auto
  then show ?thesis using three by (simp add: is_cont_def)
next
  case (four b b1 b2 b3 t)
  then have "hd y = b" using needleD(5)[OF nd] by (cases y) auto
  then show ?thesis using four by (simp add: is_cont_def)
qed

lemma no_inner_match:
  assumes "chartorune s = Some (r, n)" "0 < i" "i < n" and nd: "needle y z r1 n1"
  shows "take (length y) (drop i s) \<noteq> y"
proof
  assume m: "take (length y) (drop i s) = y"
  have "i < length s" using assms chartorune_bytes(2)[OF assms(1)] by linarith
  then have "hd (drop i s) = s ! i" by (rule hd_drop_conv_nth)
  moreover have "hd y = hd (drop i s)" using m needleD(5)[OF nd] by (metis hd_take length_greater_0_conv)
  ultimately show False using needle_lead[OF nd] chartorune_cont[OF assms(1-3)] by simp
qed

lemma strstr_step:
  assumes "cstring s" "chartorune s = Some (r, n)" "n \<le> length s" "0 \<notin> set (take n s)"
    "take (length y) s \<noteq> y" and nd: "needle y z r1 n1"
  shows "strstr s (y @ 0 # z) = map_option (map_option ((+) n)) (strstr (drop n s) (y @ 0 # z))"
proof (rule strstr_skip[OF needleD(1)[OF nd] assms(1,3,4)])
  fix i assume "i < n"
  then show "take (length y) (drop i s) \<noteq> y"
    using assms(5) no_inner_match[OF assms(2) _ _ nd] by (cases "i = 0") auto
qed

lemma take_no_nul:
  assumes "cstring s" "chartorune s = Some (r, n)" "rd s 0 = Some b" "b \<noteq> 0"
  shows "0 \<notin> set (take n s)"
proof -
  obtain t u where s: "s = t @ 0 # u" "0 \<notin> set t" using assms(1) by (rule cstring_split)
  have "t \<noteq> []" using s assms(3,4) by (auto simp: rd_Some_iff)
  then have "n \<le> length t" using chartorune_in_string[OF s(2)] assms(2) s(1) by simp
  then show ?thesis using s by (auto dest: in_set_takeD)
qed

text \<open>What \<^verbatim>\<open>utfrune\<close> skips holds no occurrence of the search string, and where it stops the rune is there.\<close>

lemma utfrune_loop_strstr:
  assumes "cstring s" and nd: "needle y z r1 n1"
  shows "(utfrune_loop s (uint r1) off = Some None \<and> strstr s (y @ 0 # z) = Some None) \<or>
    (\<exists>i b. utfrune_loop s (uint r1) off = Some (Some (off + i)) \<and> cstring (drop i s) \<and>
       rd (drop i s) 0 = Some b \<and> b \<noteq> 0 \<and> chartorune (drop i s) = Some (r1, n1) \<and>
       strstr s (y @ 0 # z) = map_option (map_option ((+) i)) (strstr (drop i s) (y @ 0 # z)))"
  using assms(1)
proof (induction s off rule: cstring_induct)
  case (nul s off)
  then obtain t where s: "s = 0 # t" by (cases s) auto
  have "take (length y) (0 # t) \<noteq> y" using needleD(1,5)[OF nd] by (cases y) auto
  then have "strstr s (y @ 0 # z) = Some None"
    using strstr_Cons[OF needleD(1)[OF nd], of 0 t z] s by (simp add: cstring_def)
  moreover have "utfrune_loop s (uint r1) off = Some None"
    using s by (simp add: utfrune_loop.simps rune_consts)
  ultimately show ?case by simp
next
  case (rune s off b r n)
  have u: "uint r = uint r1 \<longleftrightarrow> r = r1" by (simp add: word_uint_eq_iff)
  show ?case
  proof (cases "r = r1")
    case True
    then have "128 \<le> unat b" using rune(10) needleD(3)[OF nd] unat_byte_rune[of b]
      by (cases "unat b < 128") auto
    then have l: "utfrune_loop s (uint r1) off = Some (Some off)"
      using rune(2,4) True by (simp add: utfrune_loop.simps[of s] rune_consts)
    have "n = n1" 
      using decode_canonical[OF rune(4)] True needleD(4)[OF nd] needle_bytes(4)[OF nd] by (auto simp: rune_consts)
    then show ?thesis using l rune(1,2,3,4) True
      by (intro disjI2 exI[of _ 0] exI[of _ b]) (simp add: option.map_ident)
  next
    case False
    have m: "take (length y) s \<noteq> y" using match_decodes[OF _ nd, of s] rune(4) False by auto
    have st: "strstr s (y @ 0 # z) = map_option (map_option ((+) n)) (strstr (drop n s) (y @ 0 # z))"
      using strstr_step[OF rune(1,4,7) take_no_nul[OF rune(1,4,2,3)] m nd] .
    have l: "utfrune_loop s (uint r1) off = utfrune_loop (drop n s) (uint r1) (off + n)"
    proof (cases "unat b < 128")
      case True
      then have "uint b \<noteq> uint r1" using needleD(3)[OF nd] by (metis not_less_iff_gr_or_eq order.strict_trans unat_eq_nat_uint)
      then show ?thesis using rune(2,3,10) True by (simp add: utfrune_loop.simps[of s] rune_consts)
    next
      case False
      then show ?thesis using rune(2,3,4) \<open>r \<noteq> r1\<close> u by (simp add: utfrune_loop.simps[of s] rune_consts)
    qed
    show ?thesis using rune(11)[of "off + n"]
    proof (elim disjE exE conjE)
      assume "utfrune_loop (drop n s) (uint r1) (off + n) = Some None" "strstr (drop n s) (y @ 0 # z) = Some None"
      then show ?thesis using l st by simp
    next
      fix i b'
      assume "utfrune_loop (drop n s) (uint r1) (off + n) = Some (Some (off + n + i))"
        "cstring (drop i (drop n s))" "rd (drop i (drop n s)) 0 = Some b'" "b' \<noteq> 0"
        "chartorune (drop i (drop n s)) = Some (r1, n1)"
        "strstr (drop n s) (y @ 0 # z) = map_option (map_option ((+) i)) (strstr (drop i (drop n s)) (y @ 0 # z))"
      then show ?thesis using l st
        by (intro disjI2 exI[of _ "n + i"] exI[of _ b'])
          (simp add: option.map_comp o_def add.assoc add.commute[of i n])
    qed
  qed
qed

lemma utfutf_loop_strstr:
  assumes nd: "needle y z r1 n1" and "cstring (drop p s1)"
  shows "utfutf_loop s1 (y @ 0 # z) (uint r1) n1 (length y) p =
    map_option (map_option ((+) p)) (strstr (drop p s1) (y @ 0 # z))"
  using assms(2)
proof (induction "length s1 - p" arbitrary: p rule: less_induct)
  case less
  let ?s2 = "y @ 0 # z"
  have n1: "n1 \<noteq> 0" using needle_bytes(1)[OF nd] by simp
  have "int (unat r1) \<ge> 128" using needleD(3)[OF nd] by linarith
  then have u: "utfrune (drop p s1) (uint r1) = utfrune_loop (drop p s1) (uint r1) 0"
    by (simp add: utfrune_def rune_consts)
  from utfrune_loop_strstr[OF less(2) nd, of 0] show ?case
  proof (elim disjE exE conjE)
    assume "utfrune_loop (drop p s1) (uint r1) 0 = Some None" "strstr (drop p s1) ?s2 = Some None"
    then show ?thesis using u n1 by (simp add: utfutf_loop.simps[of s1 ?s2 _ _ _ p])
  next
    fix i b
    assume i: "utfrune_loop (drop p s1) (uint r1) 0 = Some (Some (0 + i))" "cstring (drop i (drop p s1))"
      "rd (drop i (drop p s1)) 0 = Some b" "b \<noteq> 0" "chartorune (drop i (drop p s1)) = Some (r1, n1)"
      "strstr (drop p s1) ?s2 = map_option (map_option ((+) i)) (strstr (drop i (drop p s1)) ?s2)"
    define t where "t = drop (p + i) s1"
    have t: "drop i (drop p s1) = t" by (simp add: t_def add.commute)
    note i = i[unfolded t]
    have cmp: "strncmp0 t ?s2 (length y) = Some (take (length y) t = y)"
      using strncmp0_prefix[OF needleD(1)[OF nd] i(2)] .
    show ?thesis
    proof (cases "take (length y) t = y")
      case True
      obtain x v where "t = x # v" using i(3) by (cases t) auto
      then have "strstr t ?s2 = Some (Some 0)"
        using strstr_Cons[OF needleD(1)[OF nd], of x v z] True i(2) by simp
      then show ?thesis using u n1 i(1,6) cmp True
        by (simp add: utfutf_loop.simps[of s1 ?s2 _ _ _ p] t_def[symmetric])
    next
      case False
      have "n1 \<le> length t" "1 \<le> n1" using chartorune_bytes(1,2)[OF i(5)] by auto
      then have "p + i + n1 \<le> length s1" by (simp add: t_def)
      then have less1: "length s1 - (p + i + n1) < length s1 - p" using \<open>1 \<le> n1\<close> by linarith
      have no0: "0 \<notin> set (take n1 t)" using take_no_nul[OF i(2,5,3,4)] .
      have dr: "drop n1 t = drop (p + i + n1) s1" by (simp add: t_def add.commute)
      have "cstring (drop n1 t)"
        using i(2) no0 by (metis append_take_drop_id cstring_def UnE set_append)
      then have IH: "utfutf_loop s1 ?s2 (uint r1) n1 (length y) (p + i + n1) =
          map_option (map_option ((+) (p + i + n1))) (strstr (drop n1 t) ?s2)"
        using less(1)[OF less1] dr by simp
      have "strstr t ?s2 = map_option (map_option ((+) n1)) (strstr (drop n1 t) ?s2)"
        using strstr_step[OF i(2,5) \<open>n1 \<le> length t\<close> no0 False nd] .
      moreover have "(+) (p + (i + n1)) = (\<lambda>x. p + (i + (n1 + x)))" by (simp add: fun_eq_iff)
      ultimately show ?thesis using u n1 i(1,6) cmp False IH
        by (simp add: utfutf_loop.simps[of s1 ?s2 _ _ _ p] t_def[symmetric] option.map_comp o_def add.assoc)
    qed
  qed
qed

lemma utfutf_strstr:
  assumes "cstring s1" "cstring s2" "chartorune s2 = Some (r1, n1)" "unat r1 \<noteq> Runeerror"
  shows "utfutf s1 s2 = strstr s1 s2"
proof (cases "unat r1 \<le> 128")
  case True
  then have "int (unat r1) \<le> 128" by linarith
  then show ?thesis using assms(3) by (simp add: utfutf_def rune_consts)
next
  case False
  obtain y z where s2: "s2 = y @ 0 # z" "0 \<notin> set y" using assms(2) by (rule cstring_split)
  have nd: "needle y z r1 n1" using s2 assms(3,4) False by (simp add: needle_def)
  have "\<not> int (unat r1) \<le> 128" using False by linarith
  then show ?thesis using assms(1,3) s2 utfutf_loop_strstr[OF nd, of 0 s1]
    by (simp add: utfutf_def rune_consts)
qed

lemma utfutf_overrun: "utfutf [0x80, 0] [0xEF, 0xBF, 0xBD, 0] = None"
proof -
  have d: "chartorune [0xEF, 0xBF, 0xBD, 0] = Some (0xFFFD, 3)"
    by (simp add: chartorune_3 is_cont_def code3_def)
  have b: "chartorune [0x80, 0] = Some (0xFFFD, 1)"
    by (simp add: chartorune_not_cont bad_rune_def rune_consts)
  have u: "utfrune [0x80, 0] 0xFFFD = Some (Some 0)"
    by (simp add: utfrune_def utfrune_loop.simps[of "[0x80, 0]"] b rune_consts)
  have e: "utfrune [] 0xFFFD = None"
    by (simp add: utfrune_def utfrune_loop.simps[of "[]"] rune_consts)
  have "strncmp0 [0x80, 0] [0xEF, 0xBF, 0xBD, 0] 3 = Some False"
    by (simp add: numeral_3_eq_3)
  then have "utfutf_loop [0x80, 0] [0xEF, 0xBF, 0xBD, 0] 0xFFFD 3 3 0 = None"
    by (simp add: utfutf_loop.simps[of _ _ _ _ _ 0] utfutf_loop.simps[of _ _ _ _ _ 3] u e)
  then show ?thesis by (simp add: utfutf_def d rune_consts numeral_3_eq_3)
qed

section \<open>Properties\<close>

text \<open>
  C14: The scanning functions compute what the rune sequence of the string says. For every C string
  the sequence exists, \<^verbatim>\<open>utflen\<close> is its length, and for every non-zero character code \<^verbatim>\<open>utfrune\<close> and
  \<^verbatim>\<open>utfrrune\<close> return the offset of its first and last occurrence, or the null pointer; the byte scan
  (\<^verbatim>\<open>strchr\<close>, \<^verbatim>\<open>strrchr\<close>) used below \<^verbatim>\<open>Runesync\<close> is therefore right too.
\<close>
theorem utf_scan:
  assumes "cstring s" "1 \<le> c"
  shows "\<exists>l. runes_at 0 s = Some l \<and> utflen s = Some (length l) \<and>
    utfrune s c = Some (map_option fst (find (\<lambda>(i, r). uint r = c) l)) \<and>
    utfrrune s c = Some (map_option fst (find (\<lambda>(i, r). uint r = c) (rev l)))"
proof -
  obtain l where l: "runes_at 0 s = Some l" using runes_at_defined assms(1) by blast
  have fst_case: "(case x of None \<Rightarrow> None | Some (i, r) \<Rightarrow> Some i) = map_option fst x"
    for x :: "(nat \<times> rune) option" by (auto split: option.split)
  show ?thesis
  proof (cases "c < 128")
    case True
    then have c: "uint (of_int c :: byte) = c"
      using assms(2) by (simp add: unsigned_of_int take_bit_int_eq_self)
    moreover have "unat (of_int c :: byte) < 128" using True c by (simp add: unat_eq_nat_uint)
    ultimately show ?thesis
      using strchr_runes[OF assms(1), of "of_int c" 0] strrchr_runes[OF assms(1), of "of_int c" 0]
        utflen_runes[OF assms(1), of 0] assms(2) l True
      by (simp add: utfrune_def utfrrune_def rune_consts)
  next
    case False
    then show ?thesis
      using utfrune_loop_runes[OF assms(1), of c 0] utfrrune_loop_runes[OF assms(1), of c 0 None]
        utflen_runes[OF assms(1), of 0] l
      by (simp add: utfrune_def utfrrune_def rune_consts fst_case)
  qed
qed

theorem utf_scan_witness:
  "\<exists>l. runes_at 0 [0x61, 0xC3, 0xA9, 0] = Some l \<and> utflen [0x61, 0xC3, 0xA9, 0] = Some (length l) \<and>
    utfrune [0x61, 0xC3, 0xA9, 0] 0xE9 = Some (map_option fst (find (\<lambda>(i, r). uint r = 0xE9) l)) \<and>
    utfrrune [0x61, 0xC3, 0xA9, 0] 0xE9 = Some (map_option fst (find (\<lambda>(i, r). uint r = 0xE9) (rev l)))"
  by (rule utf_scan) (simp_all add: cstring_def)

text \<open>
  C15: \<^verbatim>\<open>utfnlen(s, m)\<close> looks only at the \<open>m\<close> bytes it is given, whatever they are, and on a rune
  sequence cut anywhere it counts exactly the complete runes.
\<close>
theorem utfnlen_bounded:
  "(\<exists>k. \<forall>t. utfnlen (a @ t) (int (length a)) = Some k) \<and>
   (0 \<notin> set rs \<and> k < length (runetochar q) \<longrightarrow>
      utfnlen (utf_bytes rs @ take k (runetochar q) @ t) (int (length (utf_bytes rs) + k)) =
        Some (length rs))"
  using utfnlen_local utfnlen_runes by blast

theorem utfnlen_bounded_witness:
  "utfnlen (utf_bytes [0x61, 0xE9] @ take 1 (runetochar 0xE9) @ []) (int (length (utf_bytes [0x61, 0xE9]) + 1))
     = Some (length [0x61, 0xE9 :: rune])"
  using utfnlen_bounded[of "[]" "[0x61, 0xE9]" 1 "0xE9" "[]"] by (simp add: runelen_cases rune_consts)

text \<open>
  C16: \<^verbatim>\<open>utfecpy\<close> never cuts a rune: the result fits the buffer, is terminated by a NUL at the returned
  offset and holds the encodings of a prefix of the runes, of all of them when they fit.
\<close>
theorem utfecpy_whole_runes:
  assumes "to \<noteq> []" "0 \<notin> set rs"
  shows "\<exists>d k. utfecpy to (utf_bytes rs @ 0 # junk) = Some (d, length (utf_bytes (take k rs))) \<and>
     length d = length to \<and> length (utf_bytes (take k rs)) < length to \<and>
     take (length (utf_bytes (take k rs))) d = utf_bytes (take k rs) \<and>
     d ! length (utf_bytes (take k rs)) = 0 \<and>
     (length (utf_bytes rs) < length to \<longrightarrow> take k rs = rs)"
  using assms by (rule utfecpy_core)

theorem utfecpy_whole_runes_witness:
  "[7, 7, 7 :: byte] \<noteq> [] \<and> (\<exists>d k. utfecpy [7, 7, 7] (utf_bytes [0x61, 0xE9] @ 0 # []) =
      Some (d, length (utf_bytes (take k [0x61, 0xE9]))) \<and> length d = 3)"
  using utfecpy_whole_runes[of "[7, 7, 7]" "[0x61, 0xE9]" "[]"] by auto




end
