(* ===== verification/RuneStr.thy ===== *)
theory RuneStr
  imports Utf "HOL-Library.List_Lexorder"
begin

text \<open>
  The string functions on arrays of runes (src/src/lib9/utf/runestr*.c). A \<^verbatim>\<open>Rune*\<close> is the list of
  runes from the pointer to the end of its object; a destination is passed with its old contents and
  returned with the new ones. Source and destination are distinct objects, as the functions require.
  The outer \<open>None\<close> of a result is an access outside an object, the inner one the null pointer.
\<close>

section \<open>Operations\<close>

text \<open>\<^verbatim>\<open>runestrchr(s, c)\<close>, first the loop for the terminating zero, then the search loop.\<close>

fun runestr_nul :: "rune list \<Rightarrow> nat option" where
  "runestr_nul [] = None"
| "runestr_nul (x # s) = (if x \<noteq> 0 then map_option Suc (runestr_nul s) else Some 0)"

fun runestr_find :: "rune list \<Rightarrow> rune \<Rightarrow> nat option option" where
  "runestr_find [] c0 = None"
| "runestr_find (c1 # s) c0 =
     (if c1 = 0 then Some None
      else if c1 = c0 then Some (Some 0)
      else map_option (map_option Suc) (runestr_find s c0))"

definition runestrchr :: "rune list \<Rightarrow> rune \<Rightarrow> nat option option" where
  "runestrchr s c = (if c = 0 then map_option Some (runestr_nul s) else runestr_find s c)"

lemma runestrchr_in_object: "runestrchr (drop i s) c = Some x \<Longrightarrow> i < length s"
  by (rule ccontr) (auto simp: runestrchr_def split: if_splits)

definition runestrlen :: "rune list \<Rightarrow> nat option" where
  "runestrlen s = (case runestrchr s 0 of Some (Some n) \<Rightarrow> Some n | _ \<Rightarrow> None)"

fun runestrcpy :: "rune list \<Rightarrow> rune list \<Rightarrow> rune list option" where
  "runestrcpy (x # s1) (c # s2) =
     (if c \<noteq> 0 then map_option ((#) c) (runestrcpy s1 s2) else Some (0 # s1))"
| "runestrcpy _ _ = None"

definition runestrcat :: "rune list \<Rightarrow> rune list \<Rightarrow> rune list option" where
  "runestrcat s1 s2 =
     (case runestrchr s1 0 of
        Some (Some n) \<Rightarrow> map_option (\<lambda>d. take n s1 @ d) (runestrcpy (drop n s1) s2)
      | _ \<Rightarrow> None)"

fun runestrcmp :: "rune list \<Rightarrow> rune list \<Rightarrow> int option" where
  "runestrcmp (c1 # s1) (c2 # s2) =
     (if c1 \<noteq> c2 then (if c1 > c2 then Some 1 else Some (-1))
      else if c1 = 0 then Some 0
      else runestrcmp s1 s2)"
| "runestrcmp _ _ = None"

text \<open>A count \<^verbatim>\<open>long n\<close> is an integer; a loop \<^verbatim>\<open>while(n > 0)\<close> does nothing for a negative one.\<close>

function runestrncmp :: "rune list \<Rightarrow> rune list \<Rightarrow> int \<Rightarrow> int option" where
  "runestrncmp s1 s2 n =
     (if n > 0 then
        (case (s1, s2) of
           (c1 # s1', c2 # s2') \<Rightarrow>
             (if c1 \<noteq> c2 then (if c1 > c2 then Some 1 else Some (-1))
              else if c1 = 0 then Some 0
              else runestrncmp s1' s2' (n - 1))
         | _ \<Rightarrow> None)
      else Some 0)"
  by pat_completeness auto
termination
  by (relation "measure (\<lambda>(s1, s2, n). nat n)") auto

function runestrrchr_loop :: "rune list \<Rightarrow> rune \<Rightarrow> nat \<Rightarrow> nat option \<Rightarrow> nat option option" where
  "runestrrchr_loop s c i r =
     (case runestrchr (drop i s) c of
        None \<Rightarrow> None
      | Some None \<Rightarrow> Some r
      | Some (Some k) \<Rightarrow> runestrrchr_loop s c (i + k + 1) (Some (i + k)))"
  by pat_completeness auto
termination
  by (relation "measure (\<lambda>(s, c, i, r). length s - i)") (auto dest!: runestrchr_in_object)

definition runestrrchr :: "rune list \<Rightarrow> rune \<Rightarrow> nat option option" where
  "runestrrchr s c = (if c = 0 then runestrchr s 0 else runestrrchr_loop s c 0 None)"

text \<open>The inner loop of \<^verbatim>\<open>runestrstr\<close> compares \<^verbatim>\<open>*pb\<close> with \<^verbatim>\<open>*++pa\<close>, from \<^verbatim>\<open>pb = s2 + 1\<close> and \<^verbatim>\<open>pa = p\<close>.\<close>

fun runestrstr_at :: "rune list \<Rightarrow> rune list \<Rightarrow> bool option" where
  "runestrstr_at pa [] = None"
| "runestrstr_at [] (c # pb) = (if c = 0 then Some True else None)"
| "runestrstr_at (a # pa) (c # pb) =
     (if c = 0 then Some True else if c \<noteq> a then Some False else runestrstr_at pa pb)"

function runestrstr_loop :: "rune list \<Rightarrow> rune list \<Rightarrow> rune \<Rightarrow> nat \<Rightarrow> nat option option" where
  "runestrstr_loop s1 s2 c0 i =
     (case runestrchr (drop i s1) c0 of
        None \<Rightarrow> None
      | Some None \<Rightarrow> Some None
      | Some (Some k) \<Rightarrow>
          (case runestrstr_at (drop (i + k + 1) s1) s2 of
             None \<Rightarrow> None
           | Some True \<Rightarrow> Some (Some (i + k))
           | Some False \<Rightarrow> runestrstr_loop s1 s2 c0 (i + k + 1)))"
  by pat_completeness auto
termination
  by (relation "measure (\<lambda>(s1, s2, c0, i). length s1 - i)") (auto dest!: runestrchr_in_object)

definition runestrstr :: "rune list \<Rightarrow> rune list \<Rightarrow> nat option option" where
  "runestrstr s1 s2 =
     (case s2 of [] \<Rightarrow> None
      | c0 # s2' \<Rightarrow> if c0 = 0 then Some (Some 0) else runestrstr_loop s1 s2' c0 0)"

text \<open>\<^verbatim>\<open>runestrncpy\<close>: copying, then padding with zeros to \<open>n\<close> runes.\<close>

fun runestrncpy :: "rune list \<Rightarrow> rune list \<Rightarrow> nat \<Rightarrow> rune list option" where
  "runestrncpy s1 s2 0 = Some s1"
| "runestrncpy (x # s1) (c # s2) (Suc n) =
     (if c = 0 then (if n \<le> length s1 then Some (0 # replicate n 0 @ drop n s1) else None)
      else map_option ((#) c) (runestrncpy s1 s2 n))"
| "runestrncpy _ _ (Suc n) = None"

text \<open>
  \<^verbatim>\<open>runestrncat\<close>: each rune is stored before the count is decremented and tested, and a rune too many is
  overwritten by the terminating zero.
\<close>

fun runestrncat_loop :: "rune list \<Rightarrow> rune list \<Rightarrow> int \<Rightarrow> rune list option" where
  "runestrncat_loop (x # s1) (c # s2) n =
     (if c \<noteq> 0 then
        (if n - 1 < 0 then Some (0 # s1) else map_option ((#) c) (runestrncat_loop s1 s2 (n - 1)))
      else Some (0 # s1))"
| "runestrncat_loop _ _ n = None"

definition runestrncat :: "rune list \<Rightarrow> rune list \<Rightarrow> int \<Rightarrow> rune list option" where
  "runestrncat s1 s2 n =
     (case runestrchr s1 0 of
        Some (Some k) \<Rightarrow> map_option (\<lambda>d. take k s1 @ d) (runestrncat_loop (drop k s1) s2 n)
      | _ \<Rightarrow> None)"

text \<open>\<^verbatim>\<open>runestrecpy(s1, es1, s2)\<close> for the buffer \<^verbatim>\<open>s1 .. es1\<close>: its contents and the offset returned.\<close>

fun runestrecpy_loop :: "rune list \<Rightarrow> rune list \<Rightarrow> (rune list \<times> nat) option" where
  "runestrecpy_loop (x # s1) (c # s2) =
     (if c \<noteq> 0 then
        (if s1 = [] then Some ([0], 0)
         else map_option (\<lambda>(d, i). (c # d, Suc i)) (runestrecpy_loop s1 s2))
      else Some (0 # s1, 1))"
| "runestrecpy_loop _ _ = None"

definition runestrecpy :: "rune list \<Rightarrow> rune list \<Rightarrow> (rune list \<times> nat) option" where
  "runestrecpy s1 s2 = (if length s1 = 0 then Some (s1, 0) else runestrecpy_loop s1 s2)"

text \<open>
  \<^verbatim>\<open>runestrdup(s)\<close>: \<open>fresh\<close> is what \<^verbatim>\<open>malloc\<close> returns for a number of runes, an object of that many
  runes or the null pointer.
\<close>

definition runestrdup :: "(nat \<Rightarrow> rune list option) \<Rightarrow> rune list \<Rightarrow> rune list option option" where
  "runestrdup fresh s =
     (case runestrlen s of None \<Rightarrow> None
      | Some n \<Rightarrow> (case fresh (n + 1) of None \<Rightarrow> Some None
          | Some ns \<Rightarrow> map_option Some (runestrcpy ns s)))"

declare runestrncmp.simps [simp del] runestrrchr_loop.simps [simp del] runestrstr_loop.simps [simp del]

section \<open>Lengths and searches\<close>

text \<open>The string held by an object: the runes before the first zero.\<close>

lemma runestr_nul_string [simp]: "0 \<notin> set xs \<Longrightarrow> runestr_nul (xs @ 0 # t) = Some (length xs)"
  by (induction xs) auto

lemma runestrchr_0 [simp]: "0 \<notin> set xs \<Longrightarrow> runestrchr (xs @ 0 # t) 0 = Some (Some (length xs))"
  by (simp add: runestrchr_def)

text \<open>The index of the first occurrence.\<close>

fun index_of :: "rune \<Rightarrow> rune list \<Rightarrow> nat option" where
  "index_of c [] = None"
| "index_of c (x # xs) = (if x = c then Some 0 else map_option Suc (index_of c xs))"

lemma index_of_Some_iff:
  "index_of c xs = Some i \<longleftrightarrow> i < length xs \<and> xs ! i = c \<and> c \<notin> set (take i xs)"
proof (induction xs arbitrary: i)
  case (Cons x xs)
  then show ?case by (cases i) auto
qed simp

lemma index_of_None_iff: "index_of c xs = None \<longleftrightarrow> c \<notin> set xs"
  by (induction xs) auto

lemma runestrchr_index:
  "0 \<notin> set xs \<Longrightarrow> c \<noteq> 0 \<Longrightarrow> runestrchr (xs @ 0 # t) c = Some (index_of c xs)"
proof -
  assume c: "c \<noteq> 0"
  have "0 \<notin> set xs \<Longrightarrow> runestr_find (xs @ 0 # t) c = Some (index_of c xs)"
    by (induction xs) (auto simp: c)
  then show "0 \<notin> set xs \<Longrightarrow> runestrchr (xs @ 0 # t) c = Some (index_of c xs)"
    by (simp add: runestrchr_def c)
qed

lemma runestrlen_string: "0 \<notin> set xs \<Longrightarrow> runestrlen (xs @ 0 # t) = Some (length xs)"
  by (simp add: runestrlen_def)

text \<open>The last occurrence, as the loop finds it: from a first occurrence on to the next.\<close>

definition last_index :: "rune \<Rightarrow> rune list \<Rightarrow> nat option" where
  "last_index c xs = map_option (\<lambda>i. length xs - Suc i) (index_of c (rev xs))"

lemma index_of_append:
  "index_of c (xs @ ys) = (case index_of c xs of Some i \<Rightarrow> Some i
     | None \<Rightarrow> map_option ((+) (length xs)) (index_of c ys))"
  by (induction xs) (cases "index_of c ys"; auto split: option.split)+

lemma last_index_append:
  "last_index c (xs @ ys) = (case last_index c ys of Some i \<Rightarrow> Some (length xs + i)
     | None \<Rightarrow> last_index c xs)"
proof (cases "index_of c (rev ys)")
  case None
  then have "c \<notin> set ys" by (simp add: index_of_None_iff)
  with None show ?thesis
    by (auto simp: last_index_def index_of_append option.map_comp o_def)
next
  case (Some i)
  then have "i < length ys" by (auto simp: index_of_Some_iff)
  with Some show ?thesis by (auto simp: last_index_def index_of_append)
qed

lemma runestrrchr_loop_last:
  assumes "0 \<notin> set xs" "c \<noteq> 0" "i \<le> length xs"
  shows "runestrrchr_loop (xs @ 0 # t) c i r =
    Some (case last_index c (drop i xs) of Some k \<Rightarrow> Some (i + k) | None \<Rightarrow> r)"
  using assms(3)
proof (induction "length xs - i" arbitrary: i r rule: less_induct)
  case less
  have d: "drop i (xs @ 0 # t) = drop i xs @ 0 # t" using less(2) by simp
  have no: "0 \<notin> set (drop i xs)" using assms(1) by (meson in_set_dropD)
  have f: "runestrchr (drop i (xs @ 0 # t)) c = Some (index_of c (drop i xs))"
    unfolding d using runestrchr_index[OF no assms(2)] .
  show ?case
  proof (cases "index_of c (drop i xs)")
    case None
    then have "c \<notin> set (drop i xs)" by (simp add: index_of_None_iff)
    then have "last_index c (drop i xs) = None"
      by (simp add: last_index_def index_of_None_iff)
    then show ?thesis using None f by (simp add: runestrrchr_loop.simps[of "xs @ 0 # t" c i])
  next
    case (Some k)
    then have k: "k < length xs - i" "drop i xs ! k = c" by (auto simp: index_of_Some_iff)
    then have split: "drop i xs = take (Suc k) (drop i xs) @ drop (i + k + 1) xs"
      by (metis add.commute add_Suc_right append_take_drop_id drop_drop Suc_eq_plus1)
    have "take (Suc k) (drop i xs) = take k (drop i xs) @ [c]"
      using k by (simp add: take_Suc_conv_app_nth)
    then have "last_index c (take (Suc k) (drop i xs)) = Some k"
      using k by (simp add: last_index_def)
    then have l: "last_index c (drop i xs) =
        (case last_index c (drop (i + k + 1) xs) of Some j \<Rightarrow> Some (Suc k + j) | None \<Rightarrow> Some k)"
      using k by (subst split) (simp add: last_index_append split: option.split)
    have "runestrrchr_loop (xs @ 0 # t) c (i + k + 1) (Some (i + k)) =
        Some (case last_index c (drop (i + k + 1) xs) of Some j \<Rightarrow> Some (i + k + 1 + j) | None \<Rightarrow> Some (i + k))"
      using less(1)[of "i + k + 1"] k by simp
    then show ?thesis using Some f l
      by (simp add: runestrrchr_loop.simps[of "xs @ 0 # t" c i] split: option.split)
  qed
qed

lemma runestrrchr_last:
  "0 \<notin> set xs \<Longrightarrow> c \<noteq> 0 \<Longrightarrow> runestrrchr (xs @ 0 # t) c = Some (last_index c xs)"
  using runestrrchr_loop_last[of xs c 0 t None]
  by (simp add: runestrrchr_def split: option.split)

section \<open>Comparison\<close>

definition cmp_int :: "'a::linorder \<Rightarrow> 'a \<Rightarrow> int" where
  "cmp_int a b = (if a < b then -1 else if a = b then 0 else 1)"

lemma word_pos_iff: "(0 :: rune) < c \<longleftrightarrow> c \<noteq> 0"
  by (simp add: word_gt_0)

lemma runestrcmp_lex:
  "0 \<notin> set xs \<Longrightarrow> 0 \<notin> set ys \<Longrightarrow> runestrcmp (xs @ 0 # t) (ys @ 0 # u) = Some (cmp_int xs ys)"
proof (induction xs arbitrary: ys)
  case Nil
  then show ?case by (cases ys) (auto simp: cmp_int_def word_pos_iff)
next
  case (Cons x xs)
  then show ?case
    by (cases ys) (auto simp: cmp_int_def word_pos_iff not_less_iff_gr_or_eq)
qed

lemma runestrncmp_lex:
  "0 \<notin> set xs \<Longrightarrow> 0 \<notin> set ys \<Longrightarrow>
    runestrncmp (xs @ 0 # t) (ys @ 0 # u) (int n) = Some (cmp_int (take n xs) (take n ys))"
proof (induction n arbitrary: xs ys)
  case 0
  then show ?case by (simp add: runestrncmp.simps cmp_int_def)
next
  case (Suc n)
  then show ?case
    by (cases xs; cases ys)
      (auto simp: runestrncmp.simps[of _ _ "1 + int n"] cmp_int_def word_pos_iff not_less_iff_gr_or_eq)
qed

section \<open>Copies\<close>

lemma runestrcpy_string:
  "0 \<notin> set xs \<Longrightarrow> runestrcpy d (xs @ 0 # t) =
    (if length xs < length d then Some (xs @ 0 # drop (Suc (length xs)) d) else None)"
proof (induction xs arbitrary: d)
  case Nil
  then show ?case by (cases d) auto
next
  case (Cons x xs)
  then show ?case by (cases d) auto
qed

lemma runestrcat_string:
  "0 \<notin> set xs \<Longrightarrow> 0 \<notin> set ys \<Longrightarrow> runestrcat (ys @ 0 # d) (xs @ 0 # t) =
    (if length xs \<le> length d then Some (ys @ xs @ 0 # drop (length xs) d) else None)"
  by (simp add: runestrcat_def runestrcpy_string)

lemma runestrncpy_string:
  "0 \<notin> set xs \<Longrightarrow> n \<le> length d \<Longrightarrow>
    runestrncpy d (xs @ 0 # t) n = Some (take n xs @ replicate (n - length xs) 0 @ drop n d)"
proof (induction n arbitrary: xs d)
  case (Suc n)
  then show ?case by (cases d; cases xs) auto
qed simp

lemma runestrncat_loop_string:
  "0 \<notin> set xs \<Longrightarrow> min n (length xs) < length d \<Longrightarrow> runestrncat_loop d (xs @ 0 # t) (int n) =
    Some (take n xs @ 0 # drop (Suc (min n (length xs))) d)"
proof (induction n arbitrary: xs d)
  case 0
  then show ?case by (cases d; cases xs) auto
next
  case (Suc n)
  then show ?case by (cases d; cases xs) auto
qed

lemma runestrncat_string:
  assumes "0 \<notin> set xs" "0 \<notin> set ys" "min n (length xs) \<le> length d"
  shows "runestrncat (ys @ 0 # d) (xs @ 0 # t) (int n) =
    Some (ys @ take n xs @ 0 # drop (min n (length xs)) d)"
  using runestrncat_loop_string[OF assms(1), of n "0 # d" t] assms(2,3)
  by (simp add: runestrncat_def)

lemma runestrecpy_loop_string:
  "0 \<notin> set xs \<Longrightarrow> d \<noteq> [] \<Longrightarrow> runestrecpy_loop d (xs @ 0 # t) =
    (if length xs < length d then Some (xs @ 0 # drop (Suc (length xs)) d, Suc (length xs))
     else Some (take (length d - 1) xs @ [0], length d - 1))"
proof (induction xs arbitrary: d)
  case Nil
  then show ?case by (cases d) auto
next
  case (Cons x xs)
  then show ?case by (cases d; cases "tl d") auto
qed

lemma runestrdup_string:
  "0 \<notin> set xs \<Longrightarrow> fresh (length xs + 1) = Some ns \<Longrightarrow> length ns = length xs + 1 \<Longrightarrow>
    runestrdup fresh (xs @ 0 # t) = Some (Some (xs @ [0]))"
  by (simp add: runestrdup_def runestrlen_string runestrcpy_string)

section \<open>Substrings\<close>

definition sub_at :: "rune list \<Rightarrow> rune list \<Rightarrow> nat \<Rightarrow> bool" where
  "sub_at xs ys i \<longleftrightarrow> take (length ys) (drop i xs) = ys"

lemma sub_at_Cons:
  "sub_at xs (c # ys) i \<longleftrightarrow> i < length xs \<and> xs ! i = c \<and> sub_at xs ys (Suc i)"
  by (cases "i < length xs") (auto simp: sub_at_def Cons_nth_drop_Suc[symmetric])

lemma runestrstr_at_string:
  "0 \<notin> set xs \<Longrightarrow> 0 \<notin> set ys \<Longrightarrow>
    runestrstr_at (xs @ 0 # t) (ys @ 0 # u) = Some (take (length ys) xs = ys)"
proof (induction ys arbitrary: xs)
  case Nil
  then show ?case by (cases xs) auto
next
  case (Cons y ys)
  then show ?case by (cases xs) auto
qed

lemma runestrstr_loop_first:
  assumes "0 \<notin> set xs" "0 \<notin> set ys" "c \<noteq> 0" "i \<le> length xs"
  shows "\<exists>r. runestrstr_loop (xs @ 0 # t) (ys @ 0 # u) c i = Some r \<and>
    (case r of None \<Rightarrow> \<forall>j\<ge>i. \<not> sub_at xs (c # ys) j
     | Some p \<Rightarrow> i \<le> p \<and> sub_at xs (c # ys) p \<and> (\<forall>j. i \<le> j \<and> j < p \<longrightarrow> \<not> sub_at xs (c # ys) j))"
  using assms(4)
proof (induction "length xs - i" arbitrary: i rule: less_induct)
  case less
  have d: "drop i (xs @ 0 # t) = drop i xs @ 0 # t" using less(2) by simp
  have no: "0 \<notin> set (drop i xs)" using assms(1) by (meson in_set_dropD)
  have f: "runestrchr (drop i (xs @ 0 # t)) c = Some (index_of c (drop i xs))"
    unfolding d using runestrchr_index[OF no assms(3)] .
  show ?case
  proof (cases "index_of c (drop i xs)")
    case None
    then have n: "c \<notin> set (drop i xs)" by (simp add: index_of_None_iff)
    have "\<not> sub_at xs (c # ys) j" if "i \<le> j" for j
    proof
      assume "sub_at xs (c # ys) j"
      then have "j < length xs" "xs ! j = c" by (auto simp: sub_at_Cons)
      then have "drop i xs ! (j - i) = c" "j - i < length (drop i xs)" using that by auto
      then show False using n nth_mem by metis
    qed
    then show ?thesis using None f
      by (intro exI[of _ None]) (simp add: runestrstr_loop.simps[of "xs @ 0 # t" _ c i])
  next
    case (Some k)
    then have k: "k < length xs - i" "xs ! (i + k) = c" "c \<notin> set (take k (drop i xs))"
      by (auto simp: index_of_Some_iff)
    have no2: "0 \<notin> set (drop (i + k + 1) xs)" using assms(1) by (meson in_set_dropD)
    have "drop (i + k + 1) (xs @ 0 # t) = drop (i + k + 1) xs @ 0 # t" using k(1) by simp
    then have a: "runestrstr_at (drop (i + k + 1) (xs @ 0 # t)) (ys @ 0 # u) =
        Some (take (length ys) (drop (i + k + 1) xs) = ys)"
      using runestrstr_at_string[OF no2 assms(2)] by metis
    have eq: "sub_at xs (c # ys) (i + k) \<longleftrightarrow> take (length ys) (drop (i + k + 1) xs) = ys"
      using k by (auto simp: sub_at_Cons) (auto simp: sub_at_def)
    have before: "\<not> sub_at xs (c # ys) j" if "i \<le> j" "j < i + k" for j
    proof
      assume "sub_at xs (c # ys) j"
      then have "xs ! j = c" by (simp add: sub_at_Cons)
      moreover have "xs ! j = take k (drop i xs) ! (j - i)" "j - i < length (take k (drop i xs))"
        using that k(1) by auto
      ultimately show False using k(3) nth_mem by metis
    qed
    show ?thesis
    proof (cases "sub_at xs (c # ys) (i + k)")
      case True
      then show ?thesis using Some f a eq before
        by (intro exI[of _ "Some (i + k)"]) (simp add: runestrstr_loop.simps[of "xs @ 0 # t" _ c i])
    next
      case False
      have dec: "length xs - (i + k + 1) < length xs - i" "i + k + 1 \<le> length xs"
        using k(1) by linarith+
      obtain r where r: "runestrstr_loop (xs @ 0 # t) (ys @ 0 # u) c (i + k + 1) = Some r"
        "case r of None \<Rightarrow> \<forall>j\<ge>i + k + 1. \<not> sub_at xs (c # ys) j
         | Some p \<Rightarrow> i + k + 1 \<le> p \<and> sub_at xs (c # ys) p \<and>
             (\<forall>j. i + k + 1 \<le> j \<and> j < p \<longrightarrow> \<not> sub_at xs (c # ys) j)"
        using less(1)[OF dec] by blast
      have all: "\<not> sub_at xs (c # ys) j" if "i \<le> j" "j < i + k + 1" for j
        using before False that by (cases "j = i + k") auto
      have "runestrstr_loop (xs @ 0 # t) (ys @ 0 # u) c i = Some r"
        using Some f a eq False r(1) by (simp add: runestrstr_loop.simps[of "xs @ 0 # t" _ c i])
      then show ?thesis using r(2) all
        by (intro exI[of _ r]) (force split: option.splits simp: not_le[symmetric] simp del: not_le)
    qed
  qed
qed

lemma runestrstr_first:
  assumes "0 \<notin> set xs" "0 \<notin> set ys"
  shows "\<exists>r. runestrstr (xs @ 0 # t) (ys @ 0 # u) = Some r \<and>
    (case r of None \<Rightarrow> \<forall>j. \<not> sub_at xs ys j
     | Some p \<Rightarrow> sub_at xs ys p \<and> (\<forall>j<p. \<not> sub_at xs ys j))"
proof (cases ys)
  case Nil
  then show ?thesis by (intro exI[of _ "Some 0"]) (simp add: runestrstr_def sub_at_def)
next
  case (Cons c ys')
  then show ?thesis using runestrstr_loop_first[of xs ys' c 0 t u] assms
    by (auto simp: runestrstr_def split: option.splits)
qed

section \<open>Properties\<close>

text \<open>
  C19: Length and searches. On an object holding the string \<open>xs\<close>, \<^verbatim>\<open>runestrlen\<close> is its length,
  \<^verbatim>\<open>runestrchr\<close> and \<^verbatim>\<open>runestrrchr\<close> give the index of the first and last occurrence of a non-zero rune,
  \<^verbatim>\<open>runestrstr\<close> the first position where the other string occurs, and all answer the null pointer
  exactly when there is none.
\<close>
theorem runestr_search:
  assumes "0 \<notin> set xs" "0 \<notin> set ys" "c \<noteq> 0"
  shows "runestrlen (xs @ 0 # t) = Some (length xs) \<and>
    runestrchr (xs @ 0 # t) c = Some (index_of c xs) \<and>
    runestrrchr (xs @ 0 # t) c = Some (last_index c xs) \<and>
    (\<exists>r. runestrstr (xs @ 0 # t) (ys @ 0 # u) = Some r \<and>
       (case r of None \<Rightarrow> \<forall>j. \<not> sub_at xs ys j
        | Some p \<Rightarrow> sub_at xs ys p \<and> (\<forall>j<p. \<not> sub_at xs ys j)))"
  using assms runestrlen_string runestrchr_index runestrrchr_last runestrstr_first by blast

theorem runestr_search_witness:
  "runestrrchr ([7, 8, 7] @ 0 # []) 7 = Some (last_index 7 [7, 8, 7]) \<and>
   (\<exists>r. runestrstr ([7, 8, 7] @ 0 # []) ([8, 7] @ 0 # []) = Some r)"
  using runestr_search[of "[7, 8, 7]" "[8, 7]" 7 "[]" "[]"] by auto

text \<open>
  C20: \<^verbatim>\<open>runestrcmp\<close> orders strings lexicographically by unsigned rune value, a proper prefix first, and
  \<^verbatim>\<open>runestrncmp\<close> does the same for the first \<open>n\<close> runes.
\<close>
theorem runestr_order:
  assumes "0 \<notin> set xs" "0 \<notin> set ys"
  shows "runestrcmp (xs @ 0 # t) (ys @ 0 # u) = Some (cmp_int xs ys) \<and>
    runestrncmp (xs @ 0 # t) (ys @ 0 # u) (int n) = Some (cmp_int (take n xs) (take n ys))"
  using assms runestrcmp_lex runestrncmp_lex by blast

theorem runestr_order_witness:
  "runestrcmp ([1, 2] @ 0 # []) ([1, 2, 3] @ 0 # []) = Some (cmp_int [1, 2 :: rune] [1, 2, 3])"
  using runestr_order[of "[1, 2]" "[1, 2, 3]" "[]" "[]" 0] by simp



text \<open>
  C22: \<^verbatim>\<open>runestrecpy\<close> stays inside the buffer and always terminates the string, truncating it when it
  does not fit. The pointer returned is at the terminating zero when the string was truncated, but one
  past it when the string fitted, unlike \<^verbatim>\<open>strecpy\<close>, whose analogue it is documented to be.
\<close>
theorem runestrecpy_result:
  assumes "0 \<notin> set xs" "d \<noteq> []"
  shows "runestrecpy d (xs @ 0 # t) =
    (if length xs < length d then Some (xs @ 0 # drop (Suc (length xs)) d, Suc (length xs))
     else Some (take (length d - 1) xs @ [0], length d - 1))"
  using runestrecpy_loop_string[OF assms] assms(2) by (simp add: runestrecpy_def)

theorem runestrecpy_result_witness:
  "runestrecpy [9, 9, 9] ([1] @ 0 # []) = Some ([1, 0, 9], 2) \<and>
   runestrecpy [9] ([1] @ 0 # []) = Some ([0], 0)"
  using runestrecpy_result[of "[1]" "[9, 9, 9]" "[]"] runestrecpy_result[of "[1]" "[9]" "[]"] by simp

end
