(* ===== verification/RuneType.thy ===== *)
theory RuneType
  imports RuneTables
begin

text \<open>
  The classification and case mapping of runes, src/lib9/utf/runetype.c: the binary search over the
  tables of \<open>RuneTables\<close> and the functions on top of it. The contract of a table, ascending keys and
  disjoint ranges, is a locale, interpreted on each of the eight tables.
\<close>

section \<open>Binary search\<close>

text \<open>
  The loop moves the pointer \<^verbatim>\<open>t\<close>; here \<open>q\<close> is its offset in the table. The result is the offset of
  the row found, \<open>None\<close> for the null pointer.
\<close>

function bsearch_loop :: "rune \<Rightarrow> rune list \<Rightarrow> nat \<Rightarrow> nat \<Rightarrow> nat \<Rightarrow> (nat \<times> nat) option" where
  "bsearch_loop c t q n ne =
    (if n > 1
     then do {
       let m = n div 2;
       let p = q + m * ne;
       x \<leftarrow> rd t p;
       if c \<ge> x then bsearch_loop c t p (n - m) ne
       else bsearch_loop c t q m ne }
     else Some (q, n))"
  by pat_completeness auto
termination
  by (relation "measure (\<lambda>(c, t, q, n, ne). n)") auto

declare bsearch_loop.simps [simp del]

definition bsearch :: "rune \<Rightarrow> rune list \<Rightarrow> nat \<Rightarrow> nat \<Rightarrow> nat option option" where
  "bsearch c t n ne = do {
     (q, n) \<leftarrow> bsearch_loop c t 0 n ne;
     if n = 0 then Some None
     else do {
       x \<leftarrow> rd t q;
       Some (if c \<ge> x then Some q else None) } }"

section \<open>Case mapping and classification\<close>

text \<open>The two kinds of search: a row with \<^verbatim>\<open>p && c >= p[0] && c <= p[1]\<close>, a row with \<^verbatim>\<open>p && c == p[0]\<close>.\<close>

definition range_hit :: "rune \<Rightarrow> rune list \<Rightarrow> nat \<Rightarrow> nat \<Rightarrow> nat option option" where
  "range_hit c t n ne = do {
     r \<leftarrow> bsearch c t n ne;
     case r of None \<Rightarrow> Some None
     | Some p \<Rightarrow> do {
         a \<leftarrow> rd t p;
         b \<leftarrow> rd t (p + 1);
         Some (if c \<ge> a \<and> c \<le> b then Some p else None) } }"

definition key_hit :: "rune \<Rightarrow> rune list \<Rightarrow> nat \<Rightarrow> nat \<Rightarrow> nat option option" where
  "key_hit c t n ne = do {
     r \<leftarrow> bsearch c t n ne;
     case r of None \<Rightarrow> Some None
     | Some p \<Rightarrow> do {
         a \<leftarrow> rd t p;
         Some (if c = a then Some p else None) } }"

definition tolowerrune :: "rune \<Rightarrow> rune option" where
  "tolowerrune c = do {
     r \<leftarrow> range_hit c tolower2 (length tolower2 div 3) 3;
     case r of
       Some p \<Rightarrow> do { d \<leftarrow> rd tolower2 (p + 2); Some (c + d - 500) }
     | None \<Rightarrow> do {
         r \<leftarrow> key_hit c tolower1 (length tolower1 div 2) 2;
         case r of
           Some p \<Rightarrow> do { d \<leftarrow> rd tolower1 (p + 1); Some (c + d - 500) }
         | None \<Rightarrow> Some c } }"

definition toupperrune :: "rune \<Rightarrow> rune option" where
  "toupperrune c = do {
     r \<leftarrow> range_hit c toupper2 (length toupper2 div 3) 3;
     case r of
       Some p \<Rightarrow> do { d \<leftarrow> rd toupper2 (p + 2); Some (c + d - 500) }
     | None \<Rightarrow> do {
         r \<leftarrow> key_hit c toupper1 (length toupper1 div 2) 2;
         case r of
           Some p \<Rightarrow> do { d \<leftarrow> rd toupper1 (p + 1); Some (c + d - 500) }
         | None \<Rightarrow> Some c } }"

definition totitlerune :: "rune \<Rightarrow> rune option" where
  "totitlerune c = do {
     r \<leftarrow> key_hit c totitle1 (length totitle1 div 2) 2;
     case r of
       Some p \<Rightarrow> do { d \<leftarrow> rd totitle1 (p + 1); Some (c + d - 500) }
     | None \<Rightarrow> Some c }"

definition islowerrune :: "rune \<Rightarrow> bool option" where
  "islowerrune c = do {
     r \<leftarrow> range_hit c toupper2 (length toupper2 div 3) 3;
     if r \<noteq> None then Some True
     else do {
       r \<leftarrow> key_hit c toupper1 (length toupper1 div 2) 2;
       Some (r \<noteq> None) } }"

definition isupperrune :: "rune \<Rightarrow> bool option" where
  "isupperrune c = do {
     r \<leftarrow> range_hit c tolower2 (length tolower2 div 3) 3;
     if r \<noteq> None then Some True
     else do {
       r \<leftarrow> key_hit c tolower1 (length tolower1 div 2) 2;
       Some (r \<noteq> None) } }"

definition isalpharune :: "rune \<Rightarrow> bool option" where
  "isalpharune c = do {
     u \<leftarrow> isupperrune c;
     l \<leftarrow> (if u then Some True else islowerrune c);
     if l then Some True
     else do {
       r \<leftarrow> range_hit c alpha2 (length alpha2 div 2) 2;
       if r \<noteq> None then Some True
       else do {
         r \<leftarrow> key_hit c alpha1 (length alpha1) 1;
         Some (r \<noteq> None) } } }"

definition istitlerune :: "rune \<Rightarrow> bool option" where
  "istitlerune c = do {
     u \<leftarrow> isupperrune c;
     if u then islowerrune c else Some False }"

definition isspacerune :: "rune \<Rightarrow> bool option" where
  "isspacerune c = do {
     r \<leftarrow> range_hit c space2 (length space2 div 2) 2;
     Some (r \<noteq> None) }"

section \<open>The contract of a table\<close>

locale rune_table =
  fixes t :: "rune list" and n ne :: nat
  assumes ne_pos: "0 < ne"
    and len: "length t = n * ne"
    and asc: "i < j \<Longrightarrow> j < n \<Longrightarrow> t ! (i * ne) < t ! (j * ne)"
begin

lemma cell: "i < n \<Longrightarrow> k < ne \<Longrightarrow> rd t (i * ne + k) = Some (t ! (i * ne + k))"
proof -
  assume "i < n" "k < ne"
  moreover from this have "(i + 1) * ne \<le> n * ne" by (intro mult_le_mono1) simp
  ultimately show ?thesis by (simp add: rd_def len)
qed

lemma asc_le: "i \<le> j \<Longrightarrow> j < n \<Longrightarrow> t ! (i * ne) \<le> t ! (j * ne)"
  using asc[of i j] by (cases "i = j") (simp_all add: less_imp_le)

lemma loop_row:
  "0 < k \<Longrightarrow> q + k \<le> n \<Longrightarrow> (q = 0 \<or> t ! (q * ne) \<le> c) \<Longrightarrow> (q + k < n \<Longrightarrow> c < t ! ((q + k) * ne)) \<Longrightarrow>
   \<exists>r < n. bsearch_loop c t (q * ne) k ne = Some (r * ne, 1) \<and> (r = 0 \<or> t ! (r * ne) \<le> c) \<and>
     (Suc r < n \<longrightarrow> c < t ! (Suc r * ne))"
proof (induction k arbitrary: q rule: less_induct)
  case (less k)
  show ?case
  proof (cases "k > 1")
    case False
    then have k: "k = 1" using less.prems(1) by simp
    show ?thesis using less.prems by (intro exI[of _ q]) (simp add: k bsearch_loop.simps)
  next
    case True
    let ?m = "k div 2"
    have m: "0 < ?m" "?m < k" "q + ?m < n" using True less.prems(2) by auto
    have rd: "rd t (q * ne + ?m * ne) = Some (t ! ((q + ?m) * ne))"
      using cell[OF m(3) ne_pos] by (simp add: distrib_right)
    show ?thesis
    proof (cases "t ! ((q + ?m) * ne) \<le> c")
      case hi: True
      have "bsearch_loop c t (q * ne) k ne = bsearch_loop c t ((q + ?m) * ne) (k - ?m) ne"
        using True rd hi by (subst bsearch_loop.simps) (simp add: Let_def distrib_right)
      then show ?thesis using less.IH[of "k - ?m" "q + ?m"] m less.prems hi by simp
    next
      case lo: False
      have "bsearch_loop c t (q * ne) k ne = bsearch_loop c t (q * ne) ?m ne"
        using True rd lo by (subst bsearch_loop.simps) (simp add: Let_def)
      then show ?thesis using less.IH[of ?m q] m less.prems lo by simp
    qed
  qed
qed

text \<open>The search finds the last row whose key is at most \<open>c\<close>.\<close>

lemma bsearch_last:
  assumes "j < n" "t ! (j * ne) \<le> c" "Suc j < n \<Longrightarrow> c < t ! (Suc j * ne)"
  shows "bsearch c t n ne = Some (Some (j * ne))"
proof -
  obtain r where r: "r < n" "bsearch_loop c t (0 * ne) n ne = Some (r * ne, 1)" "r = 0 \<or> t ! (r * ne) \<le> c"
    "Suc r < n \<longrightarrow> c < t ! (Suc r * ne)"
    using loop_row[of n 0 c] assms(1) by auto
  have "r = j"
  proof (rule linorder_cases[of r j])
    assume "r < j"
    then show ?thesis using r(4) assms(1,2) asc_le[of "Suc r" j] by fastforce
  next
    assume "j < r"
    then show ?thesis using r(1,3) assms(3) asc_le[of "Suc j" r] by fastforce
  qed
  then show ?thesis using r assms cell[OF assms(1) ne_pos] by (simp add: bsearch_def)
qed

lemma bsearch_none:
  assumes "n = 0 \<or> c < t ! 0"
  shows "bsearch c t n ne = Some None"
proof (cases "n = 0")
  case True
  then show ?thesis by (simp add: bsearch_def bsearch_loop.simps)
next
  case False
  then obtain r where r: "r < n" "bsearch_loop c t (0 * ne) n ne = Some (r * ne, 1)" "r = 0 \<or> t ! (r * ne) \<le> c"
    using loop_row[of n 0 c] by auto
  have "r = 0" using r(1,3) asc_le[of 0 r] assms False by fastforce
  then show ?thesis using r cell[OF r(1) ne_pos] assms False by (simp add: bsearch_def)
qed

lemma bsearch_cases:
  obtains (none) "bsearch c t n ne = Some None" "\<And>j. j < n \<Longrightarrow> c < t ! (j * ne)"
  | (row) j where "j < n" "t ! (j * ne) \<le> c" "\<And>i. i < n \<Longrightarrow> t ! (i * ne) \<le> c \<Longrightarrow> i \<le> j"
      "bsearch c t n ne = Some (Some (j * ne))"
proof (cases "\<exists>j < n. t ! (j * ne) \<le> c")
  case False
  then have "c < t ! (j * ne)" if "j < n" for j using that by (simp add: not_le)
  moreover from this have "n = 0 \<or> c < t ! 0" by fastforce
  ultimately show ?thesis using none bsearch_none by blast
next
  case True
  define j where "j = Max {j. j < n \<and> t ! (j * ne) \<le> c}"
  have fin: "finite {j. j < n \<and> t ! (j * ne) \<le> c}" by simp
  have j: "j < n" "t ! (j * ne) \<le> c" using Max_in[OF fin] True unfolding j_def by auto
  have mx: "i \<le> j" if "i < n" "t ! (i * ne) \<le> c" for i using Max_ge[OF fin, of i] that by (simp add: j_def)
  have "bsearch c t n ne = Some (Some (j * ne))"
    using j mx[of "Suc j"] by (intro bsearch_last) (auto simp: not_le[symmetric])
  then show ?thesis using row j mx by blast
qed

lemma key_hit_row:
  assumes "j < n"
  shows "key_hit (t ! (j * ne)) t n ne = Some (Some (j * ne))"
  using bsearch_last[OF assms, of "t ! (j * ne)"] asc[of j "Suc j"] cell[OF assms ne_pos]
  by (simp add: key_hit_def)

lemma key_hit_none:
  assumes "\<And>j. j < n \<Longrightarrow> t ! (j * ne) \<noteq> c"
  shows "key_hit c t n ne = Some None"
  by (cases rule: bsearch_cases[of c]) (use assms cell[OF _ ne_pos] in \<open>auto simp: key_hit_def\<close>)

end

text \<open>Rows that begin with the first and the last rune of a range; the ranges do not meet.\<close>

locale range_table = rune_table +
  assumes two: "1 < ne"
    and gap: "Suc i < n \<Longrightarrow> t ! (i * ne + 1) < t ! (Suc i * ne)"
begin

lemma range_hit_row:
  assumes "j < n" "t ! (j * ne) \<le> c" "c \<le> t ! (j * ne + 1)"
  shows "range_hit c t n ne = Some (Some (j * ne))"
proof -
  have "bsearch c t n ne = Some (Some (j * ne))"
    using assms gap[of j] by (intro bsearch_last) (auto intro: le_less_trans)
  then show ?thesis using assms cell[OF assms(1) ne_pos] cell[OF assms(1) two] by (simp add: range_hit_def)
qed

lemma range_hit_none:
  assumes "\<And>j. j < n \<Longrightarrow> \<not> (t ! (j * ne) \<le> c \<and> c \<le> t ! (j * ne + 1))"
  shows "range_hit c t n ne = Some None"
  by (cases rule: bsearch_cases[of c]) (use assms cell[OF _ ne_pos] cell[OF _ two] in \<open>auto simp: range_hit_def\<close>)

end

section \<open>The tables meet the contract\<close>

fun rows2 :: "'a list \<Rightarrow> ('a \<times> 'a) list" where
  "rows2 (a # b # t) = (a, b) # rows2 t"
| "rows2 t = []"

fun rows3 :: "'a list \<Rightarrow> ('a \<times> 'a \<times> 'a) list" where
  "rows3 (a # b # d # t) = (a, b, d) # rows3 t"
| "rows3 t = []"

text \<open>The cells make up whole rows.\<close>

fun whole2 :: "'a list \<Rightarrow> bool" where
  "whole2 (a # b # t) = whole2 t"
| "whole2 t = (t = [])"

fun whole3 :: "'a list \<Rightarrow> bool" where
  "whole3 (a # b # d # t) = whole3 t"
| "whole3 t = (t = [])"

lemma whole2_dvd: "whole2 t \<Longrightarrow> 2 dvd length t"
  by (induction t rule: whole2.induct) auto

lemma whole3_dvd: "whole3 t \<Longrightarrow> 3 dvd length t"
proof (induction t rule: whole3.induct)
  case (1 a b d t)
  then have "3 dvd length t" by simp
  then show ?case by simp presburger
qed auto

lemma length_rows2 [simp]: "length (rows2 t) = length t div 2"
  by (induction t rule: rows2.induct) simp_all

lemma length_rows3 [simp]: "length (rows3 t) = length t div 3"
  by (induction t rule: rows3.induct) simp_all

lemma rows2_nth: "i < length t div 2 \<Longrightarrow> rows2 t ! i = (t ! (i * 2), t ! (i * 2 + 1))"
  by (induction t arbitrary: i rule: rows2.induct) (auto simp: nth_Cons' less_Suc_eq_0_disj)

lemma rows3_nth: "i < length t div 3 \<Longrightarrow> rows3 t ! i = (t ! (i * 3), t ! (i * 3 + 1), t ! (i * 3 + 2))"
proof (induction t arbitrary: i rule: rows3.induct)
  case (1 a b d t)
  have "Suc k * 3 = Suc (Suc (Suc (k * 3)))" for k by simp
  moreover have "(a # b # d # t) ! 1 = b" "(a # b # d # t) ! 2 = d" by simp_all
  ultimately show ?case using 1 by (cases i) (simp_all del: mult_Suc)
qed simp_all

fun before :: "rune \<times> rune \<Rightarrow> rune \<times> rune \<Rightarrow> bool" where
  "before (a, b) (a', b') \<longleftrightarrow> a < a'"

fun apart :: "rune \<times> rune \<Rightarrow> rune \<times> rune \<Rightarrow> bool" where
  "apart (a, b) (a', b') \<longleftrightarrow> a \<le> b \<and> b < a' \<and> a' \<le> b'"

definition ranges :: "(rune \<times> rune \<times> rune) list \<Rightarrow> (rune \<times> rune) list" where
  "ranges = map (\<lambda>(a, b, d). (a, b))"

lemma transp_before: "transp before"
  by (auto intro!: transpI)

lemma transp_apart: "transp apart"
  by (auto intro!: transpI)

lemma sorted_nth: "transp R \<Longrightarrow> successively R xs \<Longrightarrow> i < j \<Longrightarrow> j < length xs \<Longrightarrow> R (xs ! i) (xs ! j)"
  by (auto simp: successively_conv_sorted_wrt transp_on_subset[of UNIV] sorted_wrt_nth_less)

lemma key_table2:
  assumes "whole2 t" "successively before (rows2 t)"
  shows "rune_table t (length t div 2) 2"
proof unfold_locales
  show "t ! (i * 2) < t ! (j * 2)" if "i < j" "j < length t div 2" for i j
    using sorted_nth[OF transp_before assms(2) that(1)] that by (auto simp: rows2_nth)
qed (simp_all add: whole2_dvd[OF assms(1)])

lemma range_table2:
  assumes "whole2 t" "successively apart (rows2 t)"
  shows "range_table t (length t div 2) 2"
proof unfold_locales
  show "t ! (i * 2) < t ! (j * 2)" if "i < j" "j < length t div 2" for i j
    using sorted_nth[OF transp_apart assms(2) that(1)] that by (auto simp: rows2_nth)
  show "t ! (i * 2 + 1) < t ! (Suc i * 2)" if "Suc i < length t div 2" for i
    using sorted_nth[OF transp_apart assms(2), of i "Suc i"] that by (auto simp: rows2_nth)
qed (simp_all add: whole2_dvd[OF assms(1)])

lemma length_ranges [simp]: "length (ranges r) = length r"
  by (simp add: ranges_def)

lemma ranges_nth: "i < length t div 3 \<Longrightarrow> ranges (rows3 t) ! i = (t ! (i * 3), t ! (i * 3 + 1))"
  by (simp add: ranges_def rows3_nth)

lemma range_table3:
  assumes "whole3 t" "successively apart (ranges (rows3 t))"
  shows "range_table t (length t div 3) 3"
proof unfold_locales
  note st = sorted_nth[OF transp_apart assms(2), unfolded length_ranges length_rows3]
  show "t ! (i * 3) < t ! (j * 3)" if "i < j" "j < length t div 3" for i j
    using st[OF that] ranges_nth[of i t] ranges_nth[OF that(2)] that by auto
  show "t ! (i * 3 + 1) < t ! (Suc i * 3)" if "Suc i < length t div 3" for i
    using st[OF _ that, of i] ranges_nth[of i t] ranges_nth[OF that] that by auto
qed (simp_all add: whole3_dvd[OF assms(1)])

interpretation up2: range_table toupper2 "length toupper2 div 3" 3
  by (intro range_table3) code_simp+

interpretation up1: rune_table toupper1 "length toupper1 div 2" 2
  by (intro key_table2) code_simp+

interpretation lo2: range_table tolower2 "length tolower2 div 3" 3
  by (intro range_table3) code_simp+

interpretation lo1: rune_table tolower1 "length tolower1 div 2" 2
  by (intro key_table2) code_simp+

interpretation ti1: rune_table totitle1 "length totitle1 div 2" 2
  by (intro key_table2) code_simp+

interpretation sp2: range_table space2 "length space2 div 2" 2
  by (intro range_table2) code_simp+

interpretation al2: range_table alpha2 "length alpha2 div 2" 2
  by (intro range_table2) code_simp+

interpretation al1: rune_table alpha1 "length alpha1" 1
proof unfold_locales
  have "successively (<) alpha1" by code_simp
  then show "alpha1 ! (i * 1) < alpha1 ! (j * 1)" if "i < j" "j < length alpha1" for i j
    using sorted_nth[of "(<)" alpha1 i j] that by simp
qed simp_all

end
