(* ===== verification/RuneCase.thy ===== *)
theory RuneCase
  imports RuneType "HOL-Library.Tree"
begin

text \<open>
  The case mapping of src/lib9/utf/runetype.c as a finite map: \<^verbatim>\<open>tolowerrune\<close> and \<^verbatim>\<open>toupperrune\<close> look up
  the pairs their tables stand for, are inverse to each other up to a list of exceptions, and overlap in
  four title-case letters only.
\<close>

section \<open>Checks over the whole tables\<close>

text \<open>
  A search tree for the single runes of a table and a scan for runes common to two tables of ranges.
  Of the first only its soundness is used, of the second that it finds every common rune.
\<close>

fun build :: "nat \<Rightarrow> 'a list \<Rightarrow> 'a tree \<times> 'a list" where
  "build 0 xs = (Leaf, xs)"
| "build (Suc d) xs = (case build d xs of (l, ys) \<Rightarrow> (case ys of [] \<Rightarrow> (l, [])
    | y # ys \<Rightarrow> (case build d ys of (r, zs) \<Rightarrow> (Node l y r, zs))))"

function has :: "('a::linorder \<times> 'b) tree \<Rightarrow> 'a \<times> 'b \<Rightarrow> bool" where
  "has Leaf p = False"
| "has (Node l q r) p = (p = q \<or> has (if fst p < fst q then l else r) p)"
  by pat_completeness auto
termination
  by (relation "measure (size \<circ> fst)") auto

lemma build_sound: "build d xs = (t, ys) \<Longrightarrow> set_tree t \<union> set ys \<subseteq> set xs"
proof (induction d arbitrary: xs t ys)
  case (Suc d)
  obtain l zs where l: "build d xs = (l, zs)" by fastforce
  show ?case
  proof (cases zs)
    case Nil
    then show ?thesis using Suc.IH[OF l] Suc.prems l by auto
  next
    case (Cons z zs')
    obtain r ws where r: "build d zs' = (r, ws)" by fastforce
    have "t = Node l z r" "ys = ws" using Suc.prems l r Cons by auto
    then show ?thesis using Suc.IH[OF l] Suc.IH[OF r] Cons by (simp add: subset_iff)
  qed
qed simp

lemma has_sound: "has t p \<Longrightarrow> p \<in> set_tree t"
  by (induction t p rule: has.induct) (auto split: if_splits)

lemma has_build: "has (fst (build d xs)) p \<Longrightarrow> p \<in> set xs"
  using has_sound[of "fst (build d xs)" p] build_sound[of d xs] by (cases "build d xs") auto

function overlap :: "(rune \<times> rune) list \<Rightarrow> (rune \<times> rune) list \<Rightarrow> (rune \<times> rune) list" where
  "overlap ((a, b) # xs) ((c, d) # ys) =
    (if b < c \<or> d < a then [] else [(max a c, min b d)]) @
    overlap (if b < d then xs else (a, b) # xs) (if b < d then (c, d) # ys else ys)"
| "overlap [] ys = []"
| "overlap (x # xs) [] = []"
  by pat_completeness auto
termination
  by (relation "measure (\<lambda>(xs, ys). length xs + length ys)") auto

definition inr :: "rune \<Rightarrow> rune \<times> rune \<Rightarrow> bool" where
  "inr z = (\<lambda>(a, b). a \<le> z \<and> z \<le> b)"

lemma apart_tail:
  assumes "sorted_wrt apart ((c, d) # ys)" "y \<in> set ys" "inr z y"
  shows "c \<le> d \<and> d < z"
proof -
  obtain a b where y: "y = (a, b)" by fastforce
  have "apart (c, d) (a, b)" using assms(1,2) by (simp add: y del: apart.simps)
  then show ?thesis using assms(3) using less_le_trans[of d a z] by (simp add: inr_def y)
qed

lemma overlap_complete:
  "sorted_wrt apart xs \<Longrightarrow> sorted_wrt apart ys \<Longrightarrow> x \<in> set xs \<Longrightarrow> inr z x \<Longrightarrow> y \<in> set ys \<Longrightarrow> inr z y \<Longrightarrow>
   \<exists>p \<in> set (overlap xs ys). inr z p"
proof (induction xs ys rule: overlap.induct)
  case (1 a b xs c d ys)
  have t: "x \<noteq> (a, b) \<Longrightarrow> a \<le> b \<and> b < z" "y \<noteq> (c, d) \<Longrightarrow> c \<le> d \<and> d < z"
    using apart_tail[OF 1(2) _ 1(5)] apart_tail[OF 1(3) _ 1(7)] 1(4,6) by auto
  have h: "x = (a, b) \<Longrightarrow> a \<le> z \<and> z \<le> b" "y = (c, d) \<Longrightarrow> c \<le> z \<and> z \<le> d"
    using 1(5,7) by (auto simp: inr_def)
  have ab: "a \<le> z" using t(1) h(1) order_trans[of a b z] by (cases "x = (a, b)") auto
  have cd: "c \<le> z" using t(2) h(2) order_trans[of c d z] by (cases "y = (c, d)") auto
  consider (found) "x = (a, b)" "y = (c, d)" | (fst) "x \<in> set xs" "b < d" | (snd) "y \<in> set ys" "\<not> b < d"
    using 1(4,6) t h less_le_trans[of d z b] less_le_trans[of b z d] by (cases "b < d"; cases "x = (a, b)") (auto dest: less_trans)
  then show ?case
  proof cases
    case found
    then have "\<not> b < c" "\<not> d < a" using h le_less_trans by fastforce+
    then show ?thesis using h found by (auto simp: inr_def)
  next
    case fst
    then show ?thesis using 1 by auto
  next
    case snd
    then show ?thesis using 1 by auto
  qed
qed auto

section \<open>Case mapping as a finite map\<close>

text \<open>The pairs a table of ranges and a table of single runes stand for.\<close>

definition expand :: "rune \<times> rune \<times> rune \<Rightarrow> (rune \<times> rune) list" where
  "expand = (\<lambda>(a, b, d). map (\<lambda>k. let c = a + of_nat k in (c, c + d - 500)) [0..<Suc (unat (b - a))])"

definition pairs :: "rune list \<Rightarrow> rune list \<Rightarrow> (rune \<times> rune) list" where
  "pairs t2 t1 = concat (map expand (rows3 t2)) @ map (\<lambda>(k, d). (k, k + d - 500)) (rows2 t1)"

lemma mem_expand:
  "a \<le> b \<Longrightarrow> (c, r) \<in> set (expand (a, b, d)) \<longleftrightarrow> a \<le> c \<and> c \<le> b \<and> r = c + d - 500"
proof -
  assume ab: "a \<le> b"
  have "(\<exists>k < Suc (unat (b - a)). c = a + of_nat k) \<longleftrightarrow> a \<le> c \<and> c \<le> b" (is "?l \<longleftrightarrow> ?r")
  proof
    assume ?l
    then obtain k where k: "k \<le> unat (b - a)" "c = a + of_nat k" by (auto simp: less_Suc_eq_le)
    have u: "unat (b - a) = unat b - unat a" using ab by (simp add: unat_sub)
    have "unat a + k \<le> unat b" using k(1) u ab by (simp add: word_le_nat_alt)
    then have "unat a + k < 2 ^ 32" using unsigned_less[of b] by (simp add: le_less_trans)
    then have "unat c = unat a + k" by (simp add: k(2) unat_word_ariths unat_of_nat take_bit_eq_mod mod_simps)
    then show ?r using \<open>unat a + k \<le> unat b\<close> by (simp add: word_le_nat_alt)
  next
    assume ?r
    then have "c = a + of_nat (unat (c - a))" "unat (c - a) \<le> unat (b - a)"
      using ab by (simp_all add: unat_sub word_le_nat_alt diff_le_mono)
    then show ?l by (auto simp: less_Suc_eq_le)
  qed
  moreover have "(c, r) \<in> set (expand (a, b, d)) \<longleftrightarrow>
      (\<exists>k < Suc (unat (b - a)). c = a + of_nat k) \<and> r = c + d - 500"
    unfolding expand_def Let_def prod.case set_map image_iff set_upt by (simp only: prod.inject Bex_def atLeastLessThan_iff) blast
  ultimately show ?thesis by simp
qed

text \<open>The shape \<^verbatim>\<open>tolowerrune\<close> and \<^verbatim>\<open>toupperrune\<close> share, and that of \<^verbatim>\<open>isupperrune\<close> and \<^verbatim>\<open>islowerrune\<close>.\<close>

definition casemap :: "rune \<Rightarrow> rune list \<Rightarrow> rune list \<Rightarrow> rune option" where
  "casemap c t2 t1 = do {
     r \<leftarrow> range_hit c t2 (length t2 div 3) 3;
     case r of
       Some p \<Rightarrow> do { d \<leftarrow> rd t2 (p + 2); Some (c + d - 500) }
     | None \<Rightarrow> do {
         r \<leftarrow> key_hit c t1 (length t1 div 2) 2;
         case r of
           Some p \<Rightarrow> do { d \<leftarrow> rd t1 (p + 1); Some (c + d - 500) }
         | None \<Rightarrow> Some c } }"

definition hascase :: "rune \<Rightarrow> rune list \<Rightarrow> rune list \<Rightarrow> bool option" where
  "hascase c t2 t1 = do {
     r \<leftarrow> range_hit c t2 (length t2 div 3) 3;
     if r \<noteq> None then Some True
     else do {
       r \<leftarrow> key_hit c t1 (length t1 div 2) 2;
       Some (r \<noteq> None) } }"

lemmas case_defs = tolowerrune_def[folded casemap_def] toupperrune_def[folded casemap_def]
  islowerrune_def[folded hascase_def] isupperrune_def[folded hascase_def]

definition keys :: "rune list \<Rightarrow> (rune \<times> rune) list" where
  "keys t = map (\<lambda>(k, d). (k, k)) (rows2 t)"

lemma bex_nth: "(\<exists>x \<in> set xs. P x) \<longleftrightarrow> (\<exists>i < length xs. P (xs ! i))"
  by (metis in_set_conv_nth)

locale case_table = rg: range_table t2 "length t2 div 3" 3 + ky: rune_table t1 "length t1 div 2" 2
  for t2 t1 :: "rune list" +
  assumes ord: "\<forall>(a, b, d) \<in> set (rows3 t2). a \<le> b"
    and disj: "x \<in> set (ranges (rows3 t2)) \<Longrightarrow> y \<in> set (keys t1) \<Longrightarrow> inr c x \<Longrightarrow> \<not> inr c y"
begin

lemma mem_ranges:
  "(c, r) \<in> set (concat (map expand (rows3 t2))) \<longleftrightarrow>
    (\<exists>i < length t2 div 3. t2 ! (i * 3) \<le> c \<and> c \<le> t2 ! (i * 3 + 1) \<and> r = c + t2 ! (i * 3 + 2) - 500)"
proof -
  have "t2 ! (i * 3) \<le> t2 ! (i * 3 + 1)" if "i < length t2 div 3" for i
    using ord nth_mem[of i "rows3 t2"] that by (auto simp: rows3_nth)
  then show ?thesis by (simp add: bex_nth[of "rows3 t2"] rows3_nth mem_expand cong: conj_cong)
qed

lemma mem_keys:
  "(c, r) \<in> set (map (\<lambda>(k, d). (k, k + d - 500)) (rows2 t1)) \<longleftrightarrow>
    (\<exists>j < length t1 div 2. c = t1 ! (j * 2) \<and> r = c + t1 ! (j * 2 + 1) - 500)"
  by (auto simp: image_iff bex_nth[of "rows2 t1"] rows2_nth)

lemma casemap_range:
  assumes "i < length t2 div 3" "t2 ! (i * 3) \<le> c" "c \<le> t2 ! (i * 3 + 1)"
  shows "map_of (concat (map expand (rows3 t2))) c = Some (c + t2 ! (i * 3 + 2) - 500)"
proof -
  let ?A = "concat (map expand (rows3 t2))"
  have "(c, c + t2 ! (i * 3 + 2) - 500) \<in> set ?A" using assms mem_ranges by blast
  then obtain r where r: "map_of ?A c = Some r" by (metis weak_map_of_SomeI)
  obtain k where k: "k < length t2 div 3" "t2 ! (k * 3) \<le> c" "c \<le> t2 ! (k * 3 + 1)" "r = c + t2 ! (k * 3 + 2) - 500"
    using map_of_SomeD[OF r] unfolding mem_ranges by blast
  have "k = i" using rg.range_hit_row[OF k(1-3)] rg.range_hit_row[OF assms] by simp
  then show ?thesis using r k(4) by simp
qed

lemma casemap_key:
  assumes "j < length t1 div 2"
  shows "map_of (map (\<lambda>(k, d). (k, k + d - 500)) (rows2 t1)) (t1 ! (j * 2)) = Some (t1 ! (j * 2) + t1 ! (j * 2 + 1) - 500)"
proof -
  let ?B = "map (\<lambda>(k, d). (k, k + d - 500)) (rows2 t1)" and ?c = "t1 ! (j * 2)"
  have "(?c, ?c + t1 ! (j * 2 + 1) - 500) \<in> set ?B"
    unfolding mem_keys using assms by (intro exI[of _ j]) simp
  then obtain r where r: "map_of ?B ?c = Some r" using weak_map_of_SomeI by fast
  obtain k where k: "k < length t1 div 2" "?c = t1 ! (k * 2)" "r = ?c + t1 ! (k * 2 + 1) - 500"
    using map_of_SomeD[OF r] unfolding mem_keys by blast
  have "k = j" using ky.key_hit_row[OF k(1), folded k(2)] ky.key_hit_row[OF assms] by simp
  then show ?thesis using r k(3) by simp
qed

lemma casemap_map:
  "casemap c t2 t1 = Some (case map_of (pairs t2 t1) c of None \<Rightarrow> c | Some r \<Rightarrow> r) \<and>
   hascase c t2 t1 = Some (map_of (pairs t2 t1) c \<noteq> None)"
proof (cases "\<exists>i < length t2 div 3. t2 ! (i * 3) \<le> c \<and> c \<le> t2 ! (i * 3 + 1)")
  case True
  then obtain i where i: "i < length t2 div 3" "t2 ! (i * 3) \<le> c" "c \<le> t2 ! (i * 3 + 1)" by blast
  show ?thesis using rg.range_hit_row[OF i] rg.cell[OF i(1), of 2] casemap_range[OF i]
    by (simp add: casemap_def hascase_def pairs_def map_add_Some_iff)
next
  case False
  then have nr: "range_hit c t2 (length t2 div 3) 3 = Some None" by (intro rg.range_hit_none) blast
  have "map_of (concat (map expand (rows3 t2))) c = None"
    using False mem_ranges by (force simp: map_of_eq_None_iff simp del: set_concat)
  then have p: "map_of (pairs t2 t1) c = map_of (map (\<lambda>(k, d). (k, k + d - 500)) (rows2 t1)) c"
    unfolding pairs_def map_of_append by (simp only: map_add_def option.case)
  show ?thesis
  proof (cases "\<exists>j < length t1 div 2. c = t1 ! (j * 2)")
    case True
    then obtain j where j: "j < length t1 div 2" "c = t1 ! (j * 2)" by blast
    show ?thesis unfolding p using nr ky.key_hit_row[OF j(1)] ky.cell[OF j(1), of 1] casemap_key[OF j(1)] j(2)
      by (simp add: casemap_def hascase_def)
  next
    case False
    then have "key_hit c t1 (length t1 div 2) 2 = Some None" by (intro ky.key_hit_none) blast
    moreover have "map_of (map (\<lambda>(k, d). (k, k + d - 500)) (rows2 t1)) c = None"
      using False mem_keys by (force simp: map_of_eq_None_iff simp del: set_map)
    ultimately show ?thesis unfolding p using nr by (simp add: casemap_def hascase_def)
  qed
qed

lemma in_ranges: "(\<exists>x \<in> set (ranges (rows3 t2)). inr c x) \<longleftrightarrow> c \<in> fst ` set (concat (map expand (rows3 t2)))"
proof -
  have "(\<exists>x \<in> set (ranges (rows3 t2)). inr c x) \<longleftrightarrow> (\<exists>i < length t2 div 3. t2 ! (i * 3) \<le> c \<and> c \<le> t2 ! (i * 3 + 1))"
    by (simp add: bex_nth[of "ranges (rows3 t2)"] ranges_nth inr_def cong: conj_cong)
  also have "\<dots> \<longleftrightarrow> (\<exists>r. (c, r) \<in> set (concat (map expand (rows3 t2))))" unfolding mem_ranges by blast
  finally show ?thesis by (force simp del: set_concat)
qed

lemma in_keys: "(\<exists>x \<in> set (keys t1). inr c x) \<longleftrightarrow> c \<in> fst ` set (map (\<lambda>(k, d). (k, k + d - 500)) (rows2 t1))"
  by (force simp: keys_def inr_def)

lemma dom_pairs: "c \<in> fst ` set (pairs t2 t1) \<longleftrightarrow> (\<exists>x \<in> set (ranges (rows3 t2)) \<union> set (keys t1). inr c x)"
  unfolding bex_Un in_ranges in_keys pairs_def by (simp only: set_append image_Un Un_iff)

lemma pairs_fun:
  assumes "(c, r) \<in> set (pairs t2 t1)"
  shows "map_of (pairs t2 t1) c = Some r"
proof -
  let ?A = "concat (map expand (rows3 t2))" and ?B = "map (\<lambda>(k, d). (k, k + d - 500)) (rows2 t1)"
  consider "(c, r) \<in> set ?A" | "(c, r) \<in> set ?B" using assms by (simp only: pairs_def set_append Un_iff) blast
  then show ?thesis
  proof cases
    case 1
    then obtain i where "i < length t2 div 3" "t2 ! (i * 3) \<le> c" "c \<le> t2 ! (i * 3 + 1)" "r = c + t2 ! (i * 3 + 2) - 500"
      unfolding mem_ranges by blast
    then have "map_of ?A c = Some r" using casemap_range by simp
    then show ?thesis unfolding pairs_def map_of_append by (simp only: map_add_def option.case) 
  next
    case 2
    then have "c \<in> fst ` set ?B" by force
    then obtain y where "y \<in> set (keys t1)" "inr c y" unfolding in_keys[symmetric] by blast
    then have "c \<notin> fst ` set ?A" unfolding in_ranges[symmetric] using disj by blast
    then have "map_of ?A c = None" by (rule map_of_eq_None_iff[THEN iffD2])
    moreover obtain j where "j < length t1 div 2" "c = t1 ! (j * 2)" "r = c + t1 ! (j * 2 + 1) - 500"
      using 2 unfolding mem_keys by blast
    then have "map_of ?B c = Some r" using casemap_key by simp
    ultimately show ?thesis unfolding pairs_def map_of_append by (simp only: map_add_def option.case)
  qed
qed

end

text \<open>A check that two tables have no rune in common.\<close>

lemma overlap_sorted:
  assumes "successively apart xs" "successively apart ys" "x \<in> set xs" "y \<in> set ys" "inr c x" "inr c y"
  shows "\<exists>p \<in> set (overlap xs ys). inr c p"
  using assms overlap_complete[of xs ys x c y] transp_apart
  by (simp add: successively_conv_sorted_wrt transp_on_subset[of UNIV])

lemma apart_up2: "successively apart (ranges (rows3 toupper2))"
  by code_simp

lemma apart_lo2: "successively apart (ranges (rows3 tolower2))"
  by code_simp

lemma apart_up1: "successively apart (keys toupper1)"
  by code_simp

lemma apart_lo1: "successively apart (keys tolower1)"
  by code_simp

lemma overlap_up: "overlap (ranges (rows3 toupper2)) (keys toupper1) = []"
  by code_simp

lemma overlap_lo: "overlap (ranges (rows3 tolower2)) (keys tolower1) = []"
  by code_simp

lemma overlap22: "overlap (ranges (rows3 toupper2)) (ranges (rows3 tolower2)) = []"
  by code_simp

lemma overlap21: "overlap (ranges (rows3 toupper2)) (keys tolower1) = []"
  by code_simp

lemma overlap12: "overlap (keys toupper1) (ranges (rows3 tolower2)) = []"
  by code_simp

lemma overlap11: "overlap (keys toupper1) (keys tolower1) =
    [(0x01c5, 0x01c5), (0x01c8, 0x01c8), (0x01cb, 0x01cb), (0x01f2, 0x01f2)]"
  by code_simp

interpretation upper: case_table toupper2 toupper1
proof unfold_locales
  show "\<forall>(a, b, d) \<in> set (rows3 toupper2). a \<le> b" by code_simp
qed (use overlap_sorted[OF apart_up2 apart_up1, unfolded overlap_up] in auto)

interpretation lower: case_table tolower2 tolower1
proof unfold_locales
  show "\<forall>(a, b, d) \<in> set (rows3 tolower2). a \<le> b" by code_simp
qed (use overlap_sorted[OF apart_lo2 apart_lo1, unfolded overlap_lo] in auto)

section \<open>The two mappings mirror each other\<close>

definition mirror3 :: "rune \<times> rune \<times> rune \<Rightarrow> rune \<times> rune \<times> rune" where
  "mirror3 = (\<lambda>(a, b, d). (a + d - 500, b + d - 500, 1000 - d))"

definition mirror2 :: "rune \<times> rune \<Rightarrow> rune \<times> rune" where
  "mirror2 = (\<lambda>(k, d). (k + d - 500, 1000 - d))"

definition titles :: "rune list" where
  "titles = [0x01c5, 0x01c8, 0x01cb, 0x01f2]"

text \<open>Upper-case letters whose lower case has another upper case or none, and the converse.\<close>

definition lo_only :: "rune list" where
  "lo_only = 0x0130 # titles"

definition lo_range :: "rune \<times> rune \<times> rune" where
  "lo_range = (0x10a0, 0x10c5, 548)"

definition up_only :: "rune list" where
  "up_only = titles @ [0x0131, 0x017f, 0x03d0, 0x03d1, 0x03d5, 0x03d6, 0x03f0, 0x03f1]"

lemma mirror_lo2: "list_all (\<lambda>r. r = lo_range \<or> mirror3 r \<in> set (rows3 toupper2)) (rows3 tolower2)"
  by code_simp

lemma mirror_up2: "list_all (\<lambda>r. mirror3 r \<in> set (rows3 tolower2)) (rows3 toupper2)"
  by code_simp

text \<open>The single runes, compared as integers.\<close>

definition introws :: "rune list \<Rightarrow> (int \<times> int) list" where
  "introws t = map (\<lambda>(k, d). (uint k, uint d)) (rows2 t)"

fun all_mirror :: "(int \<times> int) tree \<Rightarrow> int list \<Rightarrow> (int \<times> int) list \<Rightarrow> bool" where
  "all_mirror t e [] = True"
| "all_mirror t e ((k, d) # rs) = ((k \<in> set e \<or> has t (k + d - 500, 1000 - d)) \<and> all_mirror t e rs)"

lemma all_mirror_sound:
  assumes "all_mirror (fst (build n (introws u))) (map uint e) (introws t)" "r \<in> set (rows2 t)" "fst r \<notin> set e"
  shows "mirror2 r \<in> set (rows2 u)"
proof -
  have "(k + d - 500, 1000 - d) \<in> set (introws u)"
    if "all_mirror (fst (build n (introws u))) (map uint e) rs" "(k, d) \<in> set rs" "k \<notin> uint ` set e" for k d rs
    using that by (induction rs) (auto dest: has_build)
  note step = this
  have "(uint (fst r) + uint (snd r) - 500, 1000 - uint (snd r)) \<in> set (introws u)"
  proof (rule step[OF assms(1)])
    show "(uint (fst r), uint (snd r)) \<in> set (introws t)" unfolding introws_def set_map by (rule rev_image_eqI[OF assms(2)]) (simp add: case_prod_beta)
    show "uint (fst r) \<notin> uint ` set e" using assms(3) by (metis imageE word_uint_eq_iff)
  qed
  then obtain k d where kd: "(k, d) \<in> set (rows2 u)" "uint k = uint (fst r) + uint (snd r) - 500" "uint d = 1000 - uint (snd r)"
    by (auto simp: introws_def)
  have "k = fst r + snd r - 500" "d = 1000 - snd r"
    using arg_cong[OF kd(2), of "word_of_int :: int \<Rightarrow> rune"] arg_cong[OF kd(3), of "word_of_int :: int \<Rightarrow> rune"] by simp_all
  then show ?thesis using kd(1) by (simp add: mirror2_def case_prod_beta)
qed

lemma mirror_lo1: "all_mirror (fst (build 9 (introws toupper1))) (map uint lo_only) (introws tolower1)"
  by code_simp

lemma mirror_up1: "all_mirror (fst (build 9 (introws tolower1))) (map uint up_only) (introws toupper1)"
  by code_simp

lemma expandI: "k < Suc (unat (b - a)) \<Longrightarrow> c = a + of_nat k \<Longrightarrow> (c, c + d - 500) \<in> set (expand (a, b, d))"
  by (auto simp: expand_def Let_def simp del: upt_Suc)

lemma mirror_in_range:
  assumes "(a, b, d) \<in> set (rows3 t)" "mirror3 (a, b, d) \<in> set (rows3 u)" "a \<le> b" "a + d - 500 \<le> b + d - 500"
    "(c, l) \<in> set (expand (a, b, d))"
  shows "(l, c) \<in> set (concat (map expand (rows3 u)))"
proof -
  have "a \<le> c" "c \<le> b" and l: "l = c + d - 500" using assms(5) by (simp_all add: mem_expand assms(3))
  moreover have "b + d - 500 - (a + d - 500) = b - a" by simp
  ultimately have "\<exists>k < Suc (unat (b + d - 500 - (a + d - 500))). l = a + d - 500 + of_nat k"
    by (intro exI[of _ "unat (c - a)"]) (simp add: less_Suc_eq_le word_le_nat_alt unat_sub diff_le_mono)
  then have "(l, l + (1000 - d) - 500) \<in> set (expand (mirror3 (a, b, d)))"
    unfolding mirror3_def prod.case using expandI by blast
  moreover have "l + (1000 - d) - 500 = c" unfolding l by simp
  ultimately show ?thesis using assms(2) by auto
qed

lemma mirror_pairs:
  assumes "case_table t2 t1" "case_table u2 u1"
    and r: "\<forall>r \<in> set (rows3 t2). r \<in> R \<or> mirror3 r \<in> set (rows3 u2)"
    and k: "\<And>r. r \<in> set (rows2 t1) \<Longrightarrow> fst r \<notin> E \<Longrightarrow> mirror2 r \<in> set (rows2 u1)"
    and c: "(c, l) \<in> set (pairs t2 t1)" "c \<notin> E" "\<And>a b d. (a, b, d) \<in> R \<Longrightarrow> \<not> (a \<le> c \<and> c \<le> b)"
  shows "(l, c) \<in> set (pairs u2 u1)"
proof -
  consider a b d where "(a, b, d) \<in> set (rows3 t2)" "(c, l) \<in> set (expand (a, b, d))"
    | d where "(c, d) \<in> set (rows2 t1)" "l = c + d - 500"
    using c(1) by (auto simp: pairs_def)
  then show ?thesis
  proof cases
    case 1
    have ab: "a \<le> b" using case_table.ord[OF assms(1)] 1(1) by blast
    then have "(a, b, d) \<notin> R" using 1(2) c(3) by (auto simp: mem_expand)
    then have m: "mirror3 (a, b, d) \<in> set (rows3 u2)" using r 1(1) by blast
    then have "a + d - 500 \<le> b + d - 500" using case_table.ord[OF assms(2)] by (auto simp: mirror3_def)
    then show ?thesis using mirror_in_range[OF 1(1) m ab _ 1(2)] by (simp add: pairs_def)
  next
    case 2
    then have "(l, 1000 - d) \<in> set (rows2 u1)" using k[OF 2(1)] c(2) by (simp add: mirror2_def)
    moreover have "l + (1000 - d) - 500 = c" using 2(2) by simp
    ultimately show ?thesis by (force simp: pairs_def)
  qed
qed

section \<open>Properties\<close>

definition up_pairs :: "(rune \<times> rune) list" where "up_pairs = pairs toupper2 toupper1"

definition lo_pairs :: "(rune \<times> rune) list" where "lo_pairs = pairs tolower2 tolower1"

lemmas upper_lookup = upper.casemap_map[folded case_defs up_pairs_def]
lemmas lower_lookup = lower.casemap_map[folded case_defs lo_pairs_def]

lemma lo_up:
  assumes "(c, l) \<in> set lo_pairs" "c \<notin> set lo_only" "\<not> (0x10a0 \<le> c \<and> c \<le> 0x10c5)"
  shows "(l, c) \<in> set up_pairs"
  using mirror_pairs[OF lower.case_table_axioms upper.case_table_axioms, of "{lo_range}" "set lo_only" c l]
    mirror_lo2 all_mirror_sound[OF mirror_lo1] assms
  by (auto simp: list_all_iff lo_range_def up_pairs_def lo_pairs_def)

lemma up_lo:
  assumes "(c, u) \<in> set up_pairs" "c \<notin> set up_only"
  shows "(u, c) \<in> set lo_pairs"
  using mirror_pairs[OF upper.case_table_axioms lower.case_table_axioms, of "{}" "set up_only" c u]
    mirror_up2 all_mirror_sound[OF mirror_up1] assms
  by (auto simp: list_all_iff up_pairs_def lo_pairs_def)

lemma titles_up: "list_all (\<lambda>k. List.member (map fst (rows2 toupper1)) k) titles"
  by code_simp

lemma titles_lo: "list_all (\<lambda>k. List.member (map fst (rows2 tolower1)) k) titles"
  by code_simp

lemma pairs_keys: "List.member (map fst (rows2 t1)) k \<Longrightarrow> k \<in> fst ` set (pairs t2 t1)"
  by (force simp: pairs_def)

lemma titles_both: "k \<in> set titles \<Longrightarrow> k \<in> fst ` set up_pairs \<and> k \<in> fst ` set lo_pairs"
  using titles_up titles_lo unfolding up_pairs_def lo_pairs_def
  by (intro conjI pairs_keys) (simp_all only: list_all_iff)

lemma range_class:
  assumes "range_table t (length t div 2) 2"
  shows "range_hit c t (length t div 2) 2 = Some None \<and> (\<forall>r \<in> set (rows2 t). \<not> inr c r) \<or>
    (\<exists>p. range_hit c t (length t div 2) 2 = Some (Some p)) \<and> (\<exists>r \<in> set (rows2 t). inr c r)"
proof (cases "\<exists>j < length t div 2. t ! (j * 2) \<le> c \<and> c \<le> t ! (j * 2 + 1)")
  case True
  then show ?thesis using range_table.range_hit_row[OF assms]
    by (auto simp: bex_nth[of "rows2 t"] rows2_nth inr_def)
next
  case False
  then show ?thesis using range_table.range_hit_none[OF assms, of c]
    by (auto simp: in_set_conv_nth rows2_nth inr_def)
qed

text \<open>
  C27: every search stays inside its table; \<^verbatim>\<open>toupperrune\<close> and \<^verbatim>\<open>tolowerrune\<close> are the finite maps their two
  tables list and leave every other rune alone; \<^verbatim>\<open>islowerrune\<close> and \<^verbatim>\<open>isupperrune\<close> are the domains of these
  maps; \<^verbatim>\<open>isspacerune\<close> and \<^verbatim>\<open>isalpharune\<close> answer membership in the listed ranges.
\<close>

theorem rune_classes:
  "toupperrune c = Some (case map_of up_pairs c of None \<Rightarrow> c | Some u \<Rightarrow> u) \<and>
   tolowerrune c = Some (case map_of lo_pairs c of None \<Rightarrow> c | Some l \<Rightarrow> l) \<and>
   islowerrune c = Some (c \<in> fst ` set up_pairs) \<and>
   isupperrune c = Some (c \<in> fst ` set lo_pairs) \<and>
   isspacerune c = Some (\<exists>r \<in> set (rows2 space2). inr c r) \<and>
   isalpharune c = Some (c \<in> fst ` set lo_pairs \<or> c \<in> fst ` set up_pairs \<or>
     (\<exists>r \<in> set (rows2 alpha2). inr c r) \<or> c \<in> set alpha1)"
proof -
  have ul: "islowerrune c = Some (c \<in> fst ` set up_pairs)" "isupperrune c = Some (c \<in> fst ` set lo_pairs)"
    using upper_lookup[of c] lower_lookup[of c] by (simp_all add: map_of_eq_None_iff)
  have sp: "isspacerune c = Some (\<exists>r \<in> set (rows2 space2). inr c r)"
    using range_class[OF sp2.range_table_axioms, of c] by (auto simp: isspacerune_def)
  have "key_hit c alpha1 (length alpha1) 1 = Some None \<and> c \<notin> set alpha1 \<or>
      (\<exists>p. key_hit c alpha1 (length alpha1) 1 = Some (Some p)) \<and> c \<in> set alpha1"
    using al1.key_hit_row al1.key_hit_none[of c] by (cases "c \<in> set alpha1") (fastforce simp: in_set_conv_nth)+
  then have "isalpharune c = Some (c \<in> fst ` set lo_pairs \<or> c \<in> fst ` set up_pairs \<or>
     (\<exists>r \<in> set (rows2 alpha2). inr c r) \<or> c \<in> set alpha1)"
    using range_class[OF al2.range_table_axioms, of c] ul by (auto simp: isalpharune_def)
  then show ?thesis using ul sp upper_lookup[of c] lower_lookup[of c] by simp
qed

text \<open>
  C28: the mappings are inverse to each other: an upper-case letter other than dotted capital I, the
  title-case letters and the Georgian capitals is the upper case of its lower case, and a lower-case letter
  outside twelve listed variants is the lower case of its upper case.
\<close>

theorem case_inverse:
  "(isupperrune c = Some True \<and> c \<notin> set lo_only \<and> \<not> (0x10a0 \<le> c \<and> c \<le> 0x10c5) \<longrightarrow>
     (\<exists>l. tolowerrune c = Some l \<and> islowerrune l = Some True \<and> toupperrune l = Some c)) \<and>
   (islowerrune c = Some True \<and> c \<notin> set up_only \<longrightarrow>
     (\<exists>u. toupperrune c = Some u \<and> isupperrune u = Some True \<and> tolowerrune u = Some c))"
proof (intro conjI impI; elim conjE)
  assume c: "isupperrune c = Some True" "c \<notin> set lo_only" "\<not> (0x10a0 \<le> c \<and> c \<le> 0x10c5)"
  then obtain l where l: "map_of lo_pairs c = Some l" using lower_lookup[of c] by auto
  then have "map_of up_pairs l = Some c"
    using lo_up[OF map_of_SomeD c(2,3)] upper.pairs_fun[folded up_pairs_def] by blast
  then show "\<exists>l. tolowerrune c = Some l \<and> islowerrune l = Some True \<and> toupperrune l = Some c"
    using l lower_lookup[of c] upper_lookup[of l] by simp
next
  assume c: "islowerrune c = Some True" "c \<notin> set up_only"
  then obtain u where u: "map_of up_pairs c = Some u" using upper_lookup[of c] by auto
  then have "map_of lo_pairs u = Some c"
    using up_lo[OF map_of_SomeD c(2)] lower.pairs_fun[folded lo_pairs_def] by blast
  then show "\<exists>u. toupperrune c = Some u \<and> isupperrune u = Some True \<and> tolowerrune u = Some c"
    using u upper_lookup[of c] lower_lookup[of u] by simp
qed

theorem case_inverse_witness:
  "(\<exists>l. tolowerrune 0x41 = Some l \<and> islowerrune l = Some True \<and> toupperrune l = Some 0x41) \<and>
   (\<exists>u. toupperrune 0x61 = Some u \<and> isupperrune u = Some True \<and> tolowerrune u = Some 0x61)"
proof -
  have "isupperrune 0x41 = Some True" "islowerrune 0x61 = Some True" by code_simp+
  then show ?thesis using case_inverse[of "0x41"] case_inverse[of "0x61"]
    by (simp add: lo_only_def up_only_def titles_def)
qed

text \<open>C29: \<^verbatim>\<open>istitlerune\<close> holds of exactly four runes, the digraphs with a capital first letter.\<close>

theorem title_runes: "istitlerune c = Some (c \<in> {0x01c5, 0x01c8, 0x01cb, 0x01f2})"
proof -
  have d: "islowerrune c = Some (c \<in> fst ` set up_pairs)" "isupperrune c = Some (c \<in> fst ` set lo_pairs)"
    using upper_lookup[of c] lower_lookup[of c] by (simp_all add: map_of_eq_None_iff)
  note ov = overlap_sorted[OF apart_up2 apart_lo2, unfolded overlap22]
    overlap_sorted[OF apart_up2 apart_lo1, unfolded overlap21]
    overlap_sorted[OF apart_up1 apart_lo2, unfolded overlap12]
    overlap_sorted[OF apart_up1 apart_lo1, unfolded overlap11]
  have "c \<in> {0x01c5, 0x01c8, 0x01cb, 0x01f2}" if u: "c \<in> fst ` set up_pairs" and l: "c \<in> fst ` set lo_pairs"
  proof -
    obtain x where x: "x \<in> set (ranges (rows3 toupper2)) \<union> set (keys toupper1)" "inr c x"
      using u unfolding up_pairs_def upper.dom_pairs by (rule bexE)
    obtain y where y: "y \<in> set (ranges (rows3 tolower2)) \<union> set (keys tolower1)" "inr c y"
      using l unfolding lo_pairs_def lower.dom_pairs by (rule bexE)
    show ?thesis using x y ov[of x y c] by (auto simp: inr_def)
  qed
  moreover have "c \<in> fst ` set up_pairs" "c \<in> fst ` set lo_pairs" if "c \<in> {0x01c5, 0x01c8, 0x01cb, 0x01f2}"
    using that titles_both by (auto simp: titles_def)
  ultimately show ?thesis by (auto simp: istitlerune_def d)
qed

end
