(* ===== verification/CBuf.thy ===== *)
theory CBuf
  imports P9Prelude
begin

text \<open>
  Byte buffers that code writes through a moving pointer: \<open>wr b p xs\<close> stores the bytes \<open>xs\<close> at offset
  \<open>p\<close> and is \<open>None\<close> when that leaves the object, \<open>has_at b p xs\<close> says that they are there. The
  locale \<open>codec\<close> is the contract of a fixed-size encoding that the wire formats rely on.
\<close>

section \<open>Storing into a buffer\<close>

definition upd :: "'a list \<Rightarrow> nat \<Rightarrow> 'a list \<Rightarrow> 'a list" where
  "upd b p xs = take p b @ xs @ drop (p + length xs) b"

definition wr :: "'a list \<Rightarrow> nat \<Rightarrow> 'a list \<Rightarrow> 'a list option" where
  "wr b p xs = (if p + length xs \<le> length b then Some (upd b p xs) else None)"

text \<open>\<open>rdn b p n\<close>: the \<open>n\<close> bytes a \<^verbatim>\<open>memmove\<close> reads at offset \<open>p\<close>.\<close>

definition rdn :: "'a list \<Rightarrow> nat \<Rightarrow> nat \<Rightarrow> 'a list option" where
  "rdn b p n = (if p + n \<le> length b then Some (take n (drop p b)) else None)"

definition has_at :: "'a list \<Rightarrow> nat \<Rightarrow> 'a list \<Rightarrow> bool" where
  "has_at b p xs \<longleftrightarrow> p + length xs \<le> length b \<and> take (length xs) (drop p b) = xs"

lemma length_upd [simp]: "p + length xs \<le> length b \<Longrightarrow> length (upd b p xs) = length b"
  by (simp add: upd_def)

lemma upd_Nil [simp]: "upd b p [] = b"
  by (simp add: upd_def)

lemma upd_upd:
  assumes "p + length xs \<le> length b"
  shows "upd (upd b p xs) (p + length xs) ys = upd b p (xs @ ys)"
  using assms by (cases xs) (auto simp: upd_def min_def ac_simps)

lemma wr_wr:
  "Option.bind (wr b p xs) (\<lambda>b. wr b (p + length xs) ys) = wr b p (xs @ ys)"
  by (auto simp: wr_def upd_upd)

lemma wr_Some: "p + length xs \<le> length b \<Longrightarrow> wr b p xs = Some (upd b p xs)"
  by (simp add: wr_def)

lemma rd_upd_out:
  assumes "p + length xs \<le> length b" "i < p \<or> p + length xs \<le> i"
  shows "rd (upd b p xs) i = rd b i"
  using assms by (auto simp: rd_def upd_def nth_append min_def)

lemma take_upd [simp]: "p \<le> length b \<Longrightarrow> n \<le> p \<Longrightarrow> take n (upd b p xs) = take n b"
  by (simp add: upd_def min_def)

lemma drop_upd [simp]:
  assumes "p + length xs \<le> n" "p + length xs \<le> length b"
  shows "drop n (upd b p xs) = drop n b"
proof -
  have "drop n (upd b p xs) = drop (n - (p + length xs)) (drop (p + length xs) b)"
    using assms by (simp add: upd_def drop_append[symmetric] min_def)
  then show ?thesis using assms by simp
qed

text \<open>Consecutive stores merge into one.\<close>

lemma wr_bind: "Option.bind (wr b p xs) (\<lambda>b. Option.bind (wr b (p + length xs) ys) f) =
    Option.bind (wr b p (xs @ ys)) f"
  by (auto simp: wr_def upd_upd)

lemma wr_seq:
  "q = p + length xs \<Longrightarrow>
   Option.bind (wr b p xs) (\<lambda>b. Option.bind (wr b q ys) f) = Option.bind (wr b p (xs @ ys)) f"
  by (simp add: wr_bind)

lemma wr_then:
  assumes "\<And>b. p + length xs \<le> length b \<Longrightarrow> k b = Option.bind (wr b (p + length xs) ys) h"
  shows "Option.bind (wr b p xs) k = Option.bind (wr b p (xs @ ys)) h"
  using assms[of "upd b p xs"] by (auto simp: wr_def upd_upd)

lemma wr_Nil: "p \<le> length b \<Longrightarrow> wr b p [] = Some b"
  by (simp add: wr_def)

lemma wr_length: "wr b p xs = Some b' \<Longrightarrow> length b' = length b \<and> p + length xs \<le> length b"
  by (auto simp: wr_def split: if_splits)

lemma bind_NoneI: "(\<And>y. x = Some y \<Longrightarrow> f y = None) \<Longrightarrow> Option.bind x f = None"
  by (cases x) auto

lemma map_option_bind: "map_option f x = Option.bind x (\<lambda>y. Some (f y))"
  by (cases x) auto

lemma take_drop_Suc: "i < length xs \<Longrightarrow> take (Suc k) (drop i xs) = xs ! i # take k (drop (Suc i) xs)"
  by (simp add: Cons_nth_drop_Suc[symmetric])

lemma bind_Some_cont: "Option.bind x f = Some y \<Longrightarrow> Option.bind x (\<lambda>b. Option.bind (f b) k) = k y"
  by (cases x) auto

section \<open>Contents of a buffer\<close>

lemma has_at_Nil [simp]: "has_at b p [] \<longleftrightarrow> p \<le> length b"
  by (simp add: has_at_def)

lemma has_at_le: "has_at b p xs \<Longrightarrow> p + length xs \<le> length b"
  by (simp add: has_at_def)

lemma has_at_append [simp]:
  "has_at b p (xs @ ys) \<longleftrightarrow> has_at b p xs \<and> has_at b (p + length xs) ys"
proof -
  have "take (length xs + length ys) (drop p b) = take (length xs) (drop p b) @ take (length ys) (drop (p + length xs) b)"
    by (metis add.commute drop_drop take_add)
  moreover have "length (take (length xs) (drop p b)) = length xs" if "p + length xs + length ys \<le> length b"
    using that by simp
  ultimately show ?thesis by (auto simp: has_at_def add.assoc)
qed

lemma has_at_Cons [simp]: "has_at b p (x # xs) \<longleftrightarrow> rd b p = Some x \<and> has_at b (Suc p) xs"
  using has_at_append[of b p "[x]" xs]
  by (auto simp: has_at_def rd_def take_Suc hd_drop_conv_nth Suc_le_eq)

lemma has_at_upd [simp]: "p + length xs \<le> length b \<Longrightarrow> has_at (upd b p xs) p xs"
  by (simp add: has_at_def upd_def)

lemma has_at_upd_out:
  assumes "p + length xs \<le> length b" "q + length ys \<le> p \<or> p + length xs \<le> q"
  shows "has_at (upd b p xs) q ys \<longleftrightarrow> has_at b q ys"
  using assms
proof (induction ys arbitrary: q)
  case (Cons y ys)
  then have "rd (upd b p xs) q = rd b q" by (intro rd_upd_out) auto
  moreover have "has_at (upd b p xs) (Suc q) ys \<longleftrightarrow> has_at b (Suc q) ys"
    using Cons.prems by (intro Cons.IH) auto
  ultimately show ?case by simp
qed simp

lemma has_at_take: "p + n \<le> length b \<Longrightarrow> has_at b p (take n (drop p b))"
  by (simp add: has_at_def)

lemma has_at_0: "has_at b 0 xs \<longleftrightarrow> take (length xs) b = xs"
  by (auto simp: has_at_def) (metis length_take min.absorb_iff1 min.commute)

lemma has_at_eq: "has_at b p xs \<Longrightarrow> length xs = n \<Longrightarrow> take n (drop p b) = xs"
  by (simp add: has_at_def)

lemma has_at_rdn: "has_at b p xs \<Longrightarrow> rdn b p (length xs) = Some xs"
  by (simp add: has_at_def rdn_def)

lemma rdn_Some: "p + n \<le> length b \<Longrightarrow> rdn b p n = Some (take n (drop p b))"
  by (simp add: rdn_def)

lemma has_at_prefix:
  assumes "take q b' = take q b" "p + length xs \<le> q" "length b' = length b"
  shows "has_at b' p xs \<longleftrightarrow> has_at b p xs"
proof -
  have "take (length xs) (drop p b'') = take (length xs) (drop p (take q b''))" for b'' :: "'a list"
    using assms(2) by (simp add: drop_take min_def)
  then have "take (length xs) (drop p b') = take (length xs) (drop p b)"
    using assms(1) by metis
  then show ?thesis using assms by (simp add: has_at_def)
qed

section \<open>Fixed-size encodings\<close>

text \<open>
  \<open>enc x\<close> are the bytes stored for \<open>x\<close> and \<open>get b p\<close> is the value read at offset \<open>p\<close>. Reading gives
  back what was stored, every sequence of \<open>sz\<close> bytes is the encoding of some value, and a read is out
  of bounds exactly when fewer than \<open>sz\<close> bytes are left.
\<close>

locale codec =
  fixes enc :: "'a \<Rightarrow> byte list"
    and get :: "byte list \<Rightarrow> nat \<Rightarrow> 'a option"
    and sz :: nat
  assumes length_enc: "length (enc x) = sz"
    and get_enc: "has_at b p (enc x) \<Longrightarrow> get b p = Some x"
    and get_dec: "p + sz \<le> length b \<Longrightarrow> \<exists>x. get b p = Some x \<and> has_at b p (enc x)"
    and get_out: "length b < p + sz \<Longrightarrow> get b p = None"
begin

lemma get_iff: "get b p = Some x \<longleftrightarrow> has_at b p (enc x)"
  by (metis get_dec get_enc get_out linorder_not_less option.distinct(1) option.inject)

lemma enc_inject: "enc x = enc y \<longleftrightarrow> x = y"
  by (metis get_enc has_at_def append_Nil drop0 length_append list.size(3) option.inject order_refl take_all_iff)

lemma get_put: "p + sz \<le> length b \<Longrightarrow> get (upd b p (enc x)) p = Some x"
  by (simp add: get_enc length_enc)

lemma get_put_out:
  assumes "q + length xs \<le> length b" "p + sz \<le> q \<or> q + length xs \<le> p"
  shows "get (upd b q xs) p = get b p"
proof (rule option.expand)
  have "get (upd b q xs) p = Some x \<longleftrightarrow> get b p = Some x" for x
    using assms by (simp add: get_iff has_at_upd_out length_enc)
  then show "(get (upd b q xs) p = None) = (get b p = None)"
    "the (get (upd b q xs) p) = the (get b p)"
    by (metis not_None_eq)+
qed

end

end
