(* ===== verification/NinePWire.thy ===== *)
theory NinePWire
  imports CBuf
begin

text \<open>
  The machine-independent integers, strings and qids of 9P messages: the \<^verbatim>\<open>GBIT\<close> and \<^verbatim>\<open>PBIT\<close> macros of
  include/fcall.h, \<^verbatim>\<open>gstring\<close> and \<^verbatim>\<open>gqid\<close> of src/lib9/convM2S.c, and \<^verbatim>\<open>pstring\<close>, \<^verbatim>\<open>pqid\<close> and
  \<^verbatim>\<open>stringsz\<close> of src/lib9/convS2M.c.
\<close>

section \<open>Integers\<close>

definition BIT8SZ :: nat where "BIT8SZ = 1"
definition BIT16SZ :: nat where "BIT16SZ = 2"
definition BIT32SZ :: nat where "BIT32SZ = 4"
definition BIT64SZ :: nat where "BIT64SZ = 8"
definition QIDSZ :: nat where "QIDSZ = BIT8SZ + BIT32SZ + BIT64SZ"

text \<open>
  The \<^verbatim>\<open>PBIT\<close> macros store the low bytes of a value of any integer type. Their bytes do not depend on
  whether \<^verbatim>\<open>>>\<close> is arithmetic or logical.
\<close>

definition PBIT8 :: "'a::len word \<Rightarrow> byte list" where
  "PBIT8 v = [ucast v]"

definition PBIT16 :: "'a::len word \<Rightarrow> byte list" where
  "PBIT16 v = [ucast v, ucast (drop_bit 8 v)]"

definition PBIT32 :: "'a::len word \<Rightarrow> byte list" where
  "PBIT32 v = [ucast v, ucast (drop_bit 8 v), ucast (drop_bit 16 v), ucast (drop_bit 24 v)]"

definition PBIT64 :: "'a::len word \<Rightarrow> byte list" where
  "PBIT64 v = [ucast v, ucast (drop_bit 8 v), ucast (drop_bit 16 v), ucast (drop_bit 24 v),
    ucast (drop_bit 32 v), ucast (drop_bit 40 v), ucast (drop_bit 48 v), ucast (drop_bit 56 v)]"

definition GBIT8 :: "byte list \<Rightarrow> nat \<Rightarrow> byte option" where
  "GBIT8 b p = rd b p"

definition GBIT16 :: "byte list \<Rightarrow> nat \<Rightarrow> u16 option" where
  "GBIT16 b p = do {
     b0 \<leftarrow> rd b p;
     b1 \<leftarrow> rd b (p + 1);
     Some (ucast b0 OR push_bit 8 (ucast b1)) }"

definition GBIT32 :: "byte list \<Rightarrow> nat \<Rightarrow> u32 option" where
  "GBIT32 b p = do {
     b0 \<leftarrow> rd b p;
     b1 \<leftarrow> rd b (p + 1);
     b2 \<leftarrow> rd b (p + 2);
     b3 \<leftarrow> rd b (p + 3);
     Some (ucast b0 OR push_bit 8 (ucast b1) OR push_bit 16 (ucast b2) OR push_bit 24 (ucast b3)) }"

text \<open>The high half is an \<^verbatim>\<open>int\<close> that the cast to \<^verbatim>\<open>vlong\<close> sign-extends before it is shifted.\<close>

definition GBIT64 :: "byte list \<Rightarrow> nat \<Rightarrow> u64 option" where
  "GBIT64 b p = do {
     lo \<leftarrow> GBIT32 b p;
     hi \<leftarrow> GBIT32 b (p + 4);
     Some (ucast lo OR push_bit 32 (scast hi)) }"

section \<open>Strings and qids\<close>

text \<open>
  A \<^verbatim>\<open>char*\<close> field of a message is nil, points into the message buffer, or to a string elsewhere.
\<close>

datatype cptr = Nil | Buf nat | Str "byte list"

definition deref :: "byte list \<Rightarrow> cptr \<Rightarrow> byte list option" where
  "deref b s = (case s of Nil \<Rightarrow> None | Buf k \<Rightarrow> Some (drop k b) | Str t \<Rightarrow> Some t)"

record Qid =
  path :: u64
  vers :: u64
  qtype :: byte

text \<open>
  \<^verbatim>\<open>gstring\<close> moves the string down over the high byte of its count to make room for the terminator. The
  result is the changed buffer and nil, or the pointer stored through \<^verbatim>\<open>s\<close> and the one returned.
\<close>

definition gstring :: "byte list \<Rightarrow> nat \<Rightarrow> nat \<Rightarrow> (byte list \<times> (cptr \<times> nat) option) option" where
  "gstring b p ep =
    (if p + BIT16SZ > ep then Some (b, None)
     else do {
       n' \<leftarrow> GBIT16 b p;
       let n = unat n';
       let p = p + (BIT16SZ - 1);
       if p + n + 1 > ep then Some (b, None)
       else do {
         t \<leftarrow> rdn b (p + 1) n;
         b \<leftarrow> wr b p t;
         b \<leftarrow> wr b (p + n) [0];
         Some (b, Some (Buf p, p + n + 1)) } })"

definition gqid :: "byte list \<Rightarrow> nat \<Rightarrow> nat \<Rightarrow> (Qid \<times> nat) option option" where
  "gqid b p ep =
    (if p + QIDSZ > ep then Some None
     else do {
       t \<leftarrow> GBIT8 b p;
       v \<leftarrow> GBIT32 b (p + BIT8SZ);
       a \<leftarrow> GBIT64 b (p + BIT8SZ + BIT32SZ);
       Some (Some (\<lparr>path = a, vers = ucast v, qtype = t\<rparr>, p + BIT8SZ + BIT32SZ + BIT64SZ)) })"

text \<open>The writers: \<open>m\<close> is the buffer that \<^const>\<open>Buf\<close> pointers refer to, \<open>b\<close> the one written at \<open>p\<close>.\<close>

definition pstring :: "byte list \<Rightarrow> byte list \<Rightarrow> nat \<Rightarrow> cptr \<Rightarrow> (byte list \<times> nat) option" where
  "pstring m b p s = (case deref m s of
     None \<Rightarrow> do {
       b \<leftarrow> wr b p (PBIT16 (0::32 word));
       Some (b, p + BIT16SZ) }
   | Some t \<Rightarrow> do {
       k \<leftarrow> strlen t;
       let n = (of_nat k :: 32 word);
       b \<leftarrow> wr b p (PBIT16 n);
       let p = p + BIT16SZ;
       src \<leftarrow> rdn t 0 (unat n);
       b \<leftarrow> wr b p src;
       Some (b, p + unat n) })"

definition pqid :: "byte list \<Rightarrow> nat \<Rightarrow> Qid \<Rightarrow> (byte list \<times> nat) option" where
  "pqid b p q = do {
     b \<leftarrow> wr b p (PBIT8 (qtype q));
     let p = p + BIT8SZ;
     b \<leftarrow> wr b p (PBIT32 (vers q));
     let p = p + BIT32SZ;
     b \<leftarrow> wr b p (PBIT64 (path q));
     Some (b, p + BIT64SZ) }"

definition stringsz :: "byte list \<Rightarrow> cptr \<Rightarrow> u32 option" where
  "stringsz m s = (case deref m s of
     None \<Rightarrow> Some (of_nat BIT16SZ)
   | Some t \<Rightarrow> map_option (\<lambda>n. of_nat BIT16SZ + of_nat n) (strlen t))"

lemmas bitsz = BIT8SZ_def BIT16SZ_def BIT32SZ_def BIT64SZ_def QIDSZ_def

section \<open>The integer encodings\<close>

lemma rd_has_at: "rd b p = Some x \<longleftrightarrow> has_at b p [x]"
  by (auto simp: rd_def)

lemma rd_ex: "p < length b \<Longrightarrow> \<exists>x. rd b p = Some x"
  by (simp add: rd_def)

lemma rd_None: "rd b p = None \<longleftrightarrow> length b \<le> p"
  by (auto simp: rd_def)

lemma bytes16: "ucast (ucast v :: byte) OR push_bit 8 (ucast (ucast (drop_bit 8 v) :: byte)) = (v::u16)"
  by (rule bit_word_eqI) (auto simp: bit_simps)

lemma bytes32: "ucast (ucast v :: byte) OR push_bit 8 (ucast (ucast (drop_bit 8 v) :: byte)) OR
    push_bit 16 (ucast (ucast (drop_bit 16 v) :: byte)) OR push_bit 24 (ucast (ucast (drop_bit 24 v) :: byte)) = (v::u32)"
  apply (rule bit_word_eqI)
  subgoal for n by (cases "n < 16"; cases "n < 24") (auto simp: bit_simps)
  done

lemma halves64: "ucast (ucast v :: u32) OR push_bit 32 (scast (ucast (drop_bit 32 v) :: u32)) = (v::u64)"
  by (rule bit_word_eqI) (auto simp: bit_simps)


lemma unbytes16:
  fixes b0 b1 :: byte
  defines "v \<equiv> (ucast b0 OR push_bit 8 (ucast b1) :: u16)"
  shows "ucast v = b0" "ucast (drop_bit 8 v) = b1"
  by (rule bit_word_eqI; auto simp: v_def bit_simps dest: bit_imp_le_length)+

lemma unbytes32:
  fixes b0 b1 b2 b3 :: byte
  defines "v \<equiv> (ucast b0 OR push_bit 8 (ucast b1) OR push_bit 16 (ucast b2) OR push_bit 24 (ucast b3) :: u32)"
  shows "ucast v = b0" "ucast (drop_bit 8 v) = b1" "ucast (drop_bit 16 v) = b2" "ucast (drop_bit 24 v) = b3"
  by (rule bit_word_eqI; auto simp: v_def bit_simps dest: bit_imp_le_length)+

lemma unhalves64:
  fixes lo hi :: u32
  defines "v \<equiv> (ucast lo OR push_bit 32 (scast hi) :: u64)"
  shows "ucast v = lo" "ucast (drop_bit 32 v) = hi"
  by (rule bit_word_eqI; auto simp: v_def bit_simps dest: bit_imp_le_length)+

lemma PBIT_unbytes:
  "PBIT16 (ucast b0 OR push_bit 8 (ucast b1) :: u16) = [b0, b1]"
  "PBIT32 (ucast b0 OR push_bit 8 (ucast b1) OR push_bit 16 (ucast b2) OR push_bit 24 (ucast b3) :: u32)
    = [b0, b1, b2, b3]"
  by (simp_all only: PBIT16_def PBIT32_def unbytes16 unbytes32)

lemma has_at_4:
  "has_at b p [w, x, y, z] \<longleftrightarrow> rd b p = Some w \<and> rd b (p + 1) = Some x \<and> rd b (p + 2) = Some y \<and>
    rd b (p + 3) = Some z \<and> p + 4 \<le> length b"
  by (simp add: eval_nat_numeral)

lemma PBIT64_halves:
  "PBIT64 (v::u64) = PBIT32 (ucast v :: u32) @ PBIT32 (ucast (drop_bit 32 v) :: u32)"
  by (simp add: PBIT64_def PBIT32_def) (intro conjI bit_word_eqI; auto simp: bit_simps)

lemma PBIT64_join: "PBIT64 (ucast lo OR push_bit 32 (scast hi) :: u64) = PBIT32 (lo :: u32) @ PBIT32 (hi :: u32)"
  by (simp only: PBIT64_halves unhalves64)

lemma PBIT_narrow:
  "PBIT32 (v::u64) = PBIT32 (ucast v :: u32)" "PBIT16 (w::u32) = PBIT16 (ucast w :: u16)"
  by (simp add: PBIT32_def PBIT16_def; intro conjI bit_word_eqI; auto simp: bit_simps)+

interpretation bit8: codec PBIT8 GBIT8 BIT8SZ
proof
  fix b :: "byte list" and p and x :: byte
  show "length (PBIT8 x) = BIT8SZ" by (simp add: PBIT8_def bitsz)
  show "has_at b p (PBIT8 x) \<Longrightarrow> GBIT8 b p = Some x" by (simp add: PBIT8_def GBIT8_def)
  show "p + BIT8SZ \<le> length b \<Longrightarrow> \<exists>x. GBIT8 b p = Some x \<and> has_at b p (PBIT8 x)"
    by (simp add: PBIT8_def GBIT8_def rd_def bitsz)
  show "length b < p + BIT8SZ \<Longrightarrow> GBIT8 b p = None" by (simp add: GBIT8_def rd_def bitsz)
qed

interpretation bit16: codec PBIT16 GBIT16 BIT16SZ
proof
  fix b :: "byte list" and p and x :: u16
  show "length (PBIT16 x) = BIT16SZ" by (simp add: PBIT16_def bitsz)
  show "has_at b p (PBIT16 x) \<Longrightarrow> GBIT16 b p = Some x"
    by (simp add: PBIT16_def GBIT16_def bytes16)
  show "length b < p + BIT16SZ \<Longrightarrow> GBIT16 b p = None"
    by (auto simp: GBIT16_def rd_def bitsz split: bind_splits)
  assume "p + BIT16SZ \<le> length b"
  then obtain b0 b1 where "rd b p = Some b0" "rd b (p + 1) = Some b1"
    by (auto simp: bitsz rd_def)
  then show "\<exists>x. GBIT16 b p = Some x \<and> has_at b p (PBIT16 x)"
    using \<open>p + BIT16SZ \<le> length b\<close> by (simp add: GBIT16_def PBIT_unbytes bitsz)
qed

interpretation bit32: codec PBIT32 GBIT32 BIT32SZ
proof
  fix b :: "byte list" and p and x :: u32
  show "length (PBIT32 x) = BIT32SZ" by (simp add: PBIT32_def bitsz)
  show "has_at b p (PBIT32 x) \<Longrightarrow> GBIT32 b p = Some x"
    unfolding PBIT32_def has_at_4 by (simp add: GBIT32_def bytes32)
  show "length b < p + BIT32SZ \<Longrightarrow> GBIT32 b p = None"
    by (auto simp: GBIT32_def rd_def bitsz split: bind_splits)
  assume "p + BIT32SZ \<le> length b"
  then obtain b0 b1 b2 b3 where "rd b p = Some b0" "rd b (p + 1) = Some b1"
    "rd b (p + 2) = Some b2" "rd b (p + 3) = Some b3"
    by (auto simp: bitsz rd_def)
  then show "\<exists>x. GBIT32 b p = Some x \<and> has_at b p (PBIT32 x)"
    using \<open>p + BIT32SZ \<le> length b\<close>
    by (simp add: GBIT32_def PBIT_unbytes bitsz has_at_4 del: has_at_Cons)
qed

interpretation bit64: codec PBIT64 GBIT64 BIT64SZ
proof
  fix b :: "byte list" and p and x :: u64
  have two: "BIT64SZ = BIT32SZ + BIT32SZ" "BIT32SZ = 4" by (simp_all add: bitsz)
  show "length (PBIT64 x) = BIT64SZ" by (simp add: PBIT64_def bitsz)
  show "has_at b p (PBIT64 x) \<Longrightarrow> GBIT64 b p = Some x"
    by (simp add: PBIT64_halves GBIT64_def bit32.get_iff bit32.length_enc two halves64
      flip: bit32.get_iff)
  show "length b < p + BIT64SZ \<Longrightarrow> GBIT64 b p = None"
    using bit32.get_out[of b "p + 4"] by (simp add: GBIT64_def two)
  assume "p + BIT64SZ \<le> length b"
  then obtain lo hi where "GBIT32 b p = Some lo" "GBIT32 b (p + 4) = Some hi"
    using bit32.get_dec[of p b] bit32.get_dec[of "p + 4" b] by (auto simp: two)
  then show "\<exists>x. GBIT64 b p = Some x \<and> has_at b p (PBIT64 x)"
    by (simp add: GBIT64_def PBIT64_join bit32.length_enc two flip: bit32.get_iff)
qed

lemmas gbits = bit8.get_iff[symmetric] bit16.get_iff[symmetric] bit32.get_iff[symmetric] bit64.get_iff[symmetric]

section \<open>The string and qid encodings\<close>

text \<open>
  The abstract view: the bytes of the string a \<^verbatim>\<open>char*\<close> field stands for (nil is the empty string) and
  the three numbers of a qid as they are transmitted.
\<close>

type_synonym qid9 = "byte \<times> u32 \<times> u64"

definition str_of :: "byte list \<Rightarrow> cptr \<Rightarrow> byte list option" where
  "str_of m s = (case deref m s of None \<Rightarrow> Some []
    | Some t \<Rightarrow> map_option (\<lambda>n. take n t) (strlen t))"

definition qid_of :: "Qid \<Rightarrow> qid9" where
  "qid_of q = (qtype q, ucast (vers q), path q)"

definition enc_str :: "byte list \<Rightarrow> byte list" where
  "enc_str t = PBIT16 (of_nat (length t) :: u16) @ t"

fun enc_qid :: "qid9 \<Rightarrow> byte list" where
  "enc_qid (t, v, a) = PBIT8 t @ PBIT32 v @ PBIT64 a"

lemma length_PBIT [simp]:
  "length (PBIT8 v) = BIT8SZ" "length (PBIT16 v) = BIT16SZ"
  "length (PBIT32 v) = BIT32SZ" "length (PBIT64 v) = BIT64SZ"
  by (simp_all add: PBIT8_def PBIT16_def PBIT32_def PBIT64_def bitsz)

lemma length_enc_str [simp]: "length (enc_str t) = BIT16SZ + length t"
  by (simp add: enc_str_def)

lemma length_enc_qid [simp]: "length (enc_qid q) = QIDSZ"
  by (cases q) (simp add: QIDSZ_def)

lemma unat_of_nat_16: "n < 65536 \<Longrightarrow> unat (of_nat n :: u16) = n"
  by (simp add: unat_of_nat take_bit_nat_eq_self)

lemma unat_of_nat_32: "n < 2 ^ 32 \<Longrightarrow> unat (of_nat n :: u32) = n"
  by (simp add: unat_of_nat take_bit_nat_eq_self)

lemma ucast_of_nat_16: "ucast (of_nat k :: u32) = (of_nat k :: u16)"
  by (rule bit_word_eqI) (auto simp: bit_simps)

lemma pstring_str:
  assumes "str_of m s = Some t" "length t < 2 ^ 32"
  shows "pstring m b p s = Option.bind (wr b p (enc_str t)) (\<lambda>b. Some (b, p + length (enc_str t)))"
proof (cases "deref m s")
  case None
  then show ?thesis using assms
    by (auto simp: pstring_def str_of_def enc_str_def PBIT_narrow)
next
  case (Some u)
  then obtain k where k: "strlen u = Some k" "t = take k u" "k < length u"
    using assms by (auto simp: str_of_def strlen_Some_iff)
  have u: "unat (of_nat k :: u32) = k" using k assms by (intro unat_of_nat_32) simp
  have e: "PBIT16 (of_nat k :: u32) = PBIT16 (of_nat k :: u16)"
    by (simp add: PBIT_narrow ucast_of_nat_16 del: unsigned_of_nat)
  show ?thesis
    using Some k wr_bind[of b p "PBIT16 (of_nat k :: u16)" "take k u"]
    by (simp add: pstring_def rdn_def u e enc_str_def Let_def add.assoc)
qed

lemma stringsz_str:
  "str_of m s = Some t \<Longrightarrow> stringsz m s = Some (of_nat (length (enc_str t)))"
  by (auto simp: str_of_def stringsz_def strlen_Some_iff split: option.splits)

lemma pqid_qid: "pqid b p q = Option.bind (wr b p (enc_qid (qid_of q))) (\<lambda>b. Some (b, p + QIDSZ))"
proof -
  have "PBIT32 (vers q) = PBIT32 (ucast (vers q) :: u32)" by (simp add: PBIT_narrow)
  then show ?thesis
    by (auto simp: pqid_def qid_of_def wr_def upd_upd[symmetric] bitsz split: if_splits)
qed

lemma gstring_str:
  assumes "has_at b p (enc_str t)" "length t < 65536" "ep \<le> length b"
  shows "gstring b p ep = Some (if p + length (enc_str t) \<le> ep
    then (upd b (p + 1) (t @ [0]), Some (Buf (p + 1), p + length (enc_str t))) else (b, None))"
proof -
  have g: "GBIT16 b p = Some (of_nat (length t))" and h: "has_at b (p + 2) t"
    using assms(1) by (simp_all add: enc_str_def bit16.get_enc BIT16SZ_def)
  have "p + 2 + length t \<le> length b" using has_at_le[OF h] .
  then show ?thesis
    using g has_at_rdn[OF h] unat_of_nat_16[OF assms(2)]
    by (auto simp: gstring_def BIT16SZ_def wr_def upd_upd[of "Suc p" t, simplified] Let_def)
qed

lemma gstring_cases:
  assumes "ep \<le> length b"
  obtains (nil) "gstring b p ep = Some (b, None)"
  | (str) t where "length t < 65536" "has_at b p (enc_str t)" "p + length (enc_str t) \<le> ep"
      "gstring b p ep = Some (upd b (p + 1) (t @ [0]), Some (Buf (p + 1), p + length (enc_str t)))"
proof (cases "p + BIT16SZ \<le> ep")
  case False
  then show ?thesis using nil by (simp add: gstring_def)
next
  case True
  then obtain n where n: "GBIT16 b p = Some n" "has_at b p (PBIT16 n)"
    using bit16.get_dec[of p b] assms by auto
  show ?thesis
  proof (cases "p + BIT16SZ + unat n \<le> ep")
    case False
    then show ?thesis using nil n True by (simp add: gstring_def BIT16SZ_def Let_def)
  next
    case le: True
    define t where "t = take (unat n) (drop (p + BIT16SZ) b)"
    have l: "length t = unat n" using le assms by (simp add: t_def)
    have t: "length t < 65536" using unsigned_less[of n] by (simp add: l)
    have h: "has_at b p (enc_str t)"
      using n(2) has_at_take[of "p + BIT16SZ" "unat n" b] le assms
      by (simp add: enc_str_def l) (simp add: t_def)
    show ?thesis using str[OF t h] gstring_str[OF h t assms] le by (simp add: l)
  qed
qed

lemma gqid_qid:
  assumes "has_at b p (enc_qid (t, v, a))"
  shows "gqid b p ep = Some (if p + QIDSZ \<le> ep
    then Some (\<lparr>path = a, vers = ucast v, qtype = t\<rparr>, p + QIDSZ) else None)"
  using assms
  by (simp add: gqid_def QIDSZ_def add.assoc flip: bit8.get_iff bit32.get_iff bit64.get_iff)

lemma gqid_cases:
  assumes "ep \<le> length b"
  obtains (nil) "gqid b p ep = Some None"
  | (qid) t v a where "has_at b p (enc_qid (t, v, a))" "p + QIDSZ \<le> ep"
      "gqid b p ep = Some (Some (\<lparr>path = a, vers = ucast v, qtype = t\<rparr>, p + QIDSZ))"
proof (cases "p + QIDSZ \<le> ep")
  case False
  then show ?thesis using nil by (simp add: gqid_def)
next
  case True
  then obtain t v a where "has_at b p (PBIT8 (t::byte))" "has_at b (p + BIT8SZ) (PBIT32 (v::u32))"
    "has_at b (p + BIT8SZ + BIT32SZ) (PBIT64 (a::u64))"
    using assms bit8.get_dec[of p b] bit32.get_dec[of "p + BIT8SZ" b] bit64.get_dec[of "p + BIT8SZ + BIT32SZ" b]
    by (auto simp: QIDSZ_def)
  then have h: "has_at b p (enc_qid (t, v, a))" by simp
  show ?thesis using qid[OF h] gqid_qid[OF h, of ep] True by simp
qed

lemma qid_of_read [simp]: "qid_of \<lparr>path = a, vers = ucast v, qtype = t\<rparr> = (t, v, a)"
  by (simp add: qid_of_def) (rule bit_word_eqI, auto simp: bit_simps)

lemma str_of_Buf:
  assumes "has_at b p (t @ [0])" "0 \<notin> set t"
  shows "str_of b (Buf p) = Some t"
proof -
  have "drop p b = take (length t + 1) (drop p b) @ drop (length t + 1) (drop p b)"
    by (simp only: append_take_drop_id)
  also have "take (length t + 1) (drop p b) = t @ [0]" using assms(1) by (simp only: has_at_def length_append) simp
  finally show ?thesis using assms(2) by (simp add: str_of_def deref_def)
qed

end
