(* ===== verification/Fcall9P.thy ===== *)
theory Fcall9P
  imports NinePWire
begin

text \<open>
  9P messages: the \<^verbatim>\<open>Fcall\<close> structure of include/fcall.h, \<^verbatim>\<open>convM2S\<close> (src/lib9/convM2S.c), and \<^verbatim>\<open>sizeS2M\<close>
  and \<^verbatim>\<open>convS2M\<close> (src/lib9/convS2M.c), with one definition per group of \<^verbatim>\<open>case\<close> labels.
\<close>

section \<open>The message structure\<close>

definition MAXWELEM :: nat where "MAXWELEM = 16"

definition Tversion :: byte where "Tversion = 100"
definition Rversion :: byte where "Rversion = 101"
definition Tauth :: byte where "Tauth = 102"
definition Rauth :: byte where "Rauth = 103"
definition Tattach :: byte where "Tattach = 104"
definition Rattach :: byte where "Rattach = 105"
definition Terror :: byte where "Terror = 106"
definition Rerror :: byte where "Rerror = 107"
definition Tflush :: byte where "Tflush = 108"
definition Rflush :: byte where "Rflush = 109"
definition Twalk :: byte where "Twalk = 110"
definition Rwalk :: byte where "Rwalk = 111"
definition Topen :: byte where "Topen = 112"
definition Ropen :: byte where "Ropen = 113"
definition Tcreate :: byte where "Tcreate = 114"
definition Rcreate :: byte where "Rcreate = 115"
definition Tread :: byte where "Tread = 116"
definition Rread :: byte where "Rread = 117"
definition Twrite :: byte where "Twrite = 118"
definition Rwrite :: byte where "Rwrite = 119"
definition Tclunk :: byte where "Tclunk = 120"
definition Rclunk :: byte where "Rclunk = 121"
definition Tremove :: byte where "Tremove = 122"
definition Rremove :: byte where "Rremove = 123"
definition Tstat :: byte where "Tstat = 124"
definition Rstat :: byte where "Rstat = 125"
definition Twstat :: byte where "Twstat = 126"
definition Rwstat :: byte where "Rwstat = 127"
definition Topenfd :: byte where "Topenfd = 98"
definition Ropenfd :: byte where "Ropenfd = 99"

lemmas mtypes = Tversion_def Rversion_def Tauth_def Rauth_def Tattach_def Rattach_def Terror_def
  Rerror_def Tflush_def Rflush_def Twalk_def Rwalk_def Topen_def Ropen_def Tcreate_def Rcreate_def
  Tread_def Rread_def Twrite_def Rwrite_def Tclunk_def Rclunk_def Tremove_def Rremove_def
  Tstat_def Rstat_def Twstat_def Rwstat_def Topenfd_def Ropenfd_def

definition NOUID :: u32 where "NOUID = - 1"

text \<open>\<^verbatim>\<open>int\<close> and \<^verbatim>\<open>vlong\<close> members are kept as the words of their bits.\<close>

record Fcall =
  type :: byte
  fid :: u32
  tag :: u16
  msize :: u32
  version :: cptr
  oldtag :: u16
  ename :: cptr
  qid :: Qid
  iounit :: u32
  aqid :: Qid
  afid :: u32
  uname :: cptr
  aname :: cptr
  perm :: u32
  name :: cptr
  mode :: byte
  newfid :: u32
  nwname :: u16
  wname :: "cptr list"
  nwqid :: u16
  wqid :: "Qid list"
  offset :: u64
  count :: u32
  data :: cptr
  nstat :: u16
  stat :: cptr
  unixfd :: u32
  errornum :: u32
  uidnum :: u32
  extension :: cptr

section \<open>Parsing: the cases of convM2S\<close>

text \<open>
  A case takes the buffer, the pointer \<^verbatim>\<open>p\<close>, the limit \<^verbatim>\<open>ep\<close> and the structure, and ends with the changed
  buffer and structure and either the new \<^verbatim>\<open>p\<close>, or \<open>None\<close> for \<^verbatim>\<open>return 0\<close> and for \<^verbatim>\<open>p == nil\<close>, which the
  end of the function turns into a return of 0 as well.
\<close>

type_synonym m2s = "(byte list \<times> Fcall \<times> nat option) option"

abbreviation ret0 :: "byte list \<Rightarrow> Fcall \<Rightarrow> m2s" where
  "ret0 b f \<equiv> Some (b, f, None)"

abbreviation brk :: "byte list \<Rightarrow> Fcall \<Rightarrow> nat \<Rightarrow> m2s" where
  "brk b f p \<equiv> Some (b, f, Some p)"

definition m2s_version :: "byte list \<Rightarrow> nat \<Rightarrow> nat \<Rightarrow> Fcall \<Rightarrow> m2s" where
  "m2s_version b p ep f =
    (if p + BIT32SZ > ep then ret0 b f
     else do {
       v \<leftarrow> GBIT32 b p;
       let f = f\<lparr>msize := v\<rparr>;
       (b, r) \<leftarrow> gstring b (p + BIT32SZ) ep;
       case r of None \<Rightarrow> ret0 b f
       | Some (s, p) \<Rightarrow> brk b (f\<lparr>version := s\<rparr>) p })"

definition m2s_flush :: "byte list \<Rightarrow> nat \<Rightarrow> nat \<Rightarrow> Fcall \<Rightarrow> m2s" where
  "m2s_flush b p ep f =
    (if p + BIT16SZ > ep then ret0 b f
     else do {
       v \<leftarrow> GBIT16 b p;
       brk b (f\<lparr>oldtag := v\<rparr>) (p + BIT16SZ) })"

definition m2s_names :: "byte list \<Rightarrow> nat \<Rightarrow> nat \<Rightarrow> Fcall \<Rightarrow> m2s" where
  "m2s_names b p ep f = do {
     (b, r) \<leftarrow> gstring b p ep;
     case r of None \<Rightarrow> ret0 b f
     | Some (s, p) \<Rightarrow> do {
         let f = f\<lparr>uname := s\<rparr>;
         (b, r) \<leftarrow> gstring b p ep;
         case r of None \<Rightarrow> ret0 b f
         | Some (s, p) \<Rightarrow> brk b (f\<lparr>aname := s, uidnum := NOUID\<rparr>) p } }"

definition m2s_auth :: "byte list \<Rightarrow> nat \<Rightarrow> nat \<Rightarrow> Fcall \<Rightarrow> m2s" where
  "m2s_auth b p ep f =
    (if p + BIT32SZ > ep then ret0 b f
     else do {
       v \<leftarrow> GBIT32 b p;
       m2s_names b (p + BIT32SZ) ep (f\<lparr>afid := v\<rparr>) })"

definition m2s_attach :: "byte list \<Rightarrow> nat \<Rightarrow> nat \<Rightarrow> Fcall \<Rightarrow> m2s" where
  "m2s_attach b p ep f =
    (if p + BIT32SZ > ep then ret0 b f
     else do {
       v \<leftarrow> GBIT32 b p;
       let f = f\<lparr>fid := v\<rparr>;
       let p = p + BIT32SZ;
       if p + BIT32SZ > ep then ret0 b f
       else do {
         v \<leftarrow> GBIT32 b p;
         m2s_names b (p + BIT32SZ) ep (f\<lparr>afid := v\<rparr>) } })"

primrec m2s_wname :: "nat \<Rightarrow> nat \<Rightarrow> byte list \<Rightarrow> nat \<Rightarrow> nat \<Rightarrow> Fcall \<Rightarrow> m2s" where
  "m2s_wname 0 i b p ep f = brk b f p"
| "m2s_wname (Suc n) i b p ep f = do {
     (b, r) \<leftarrow> gstring b p ep;
     case r of None \<Rightarrow> ret0 b f
     | Some (s, p) \<Rightarrow> do {
         w \<leftarrow> wr (wname f) i [s];
         m2s_wname n (i + 1) b p ep (f\<lparr>wname := w\<rparr>) } }"

definition m2s_Twalk :: "byte list \<Rightarrow> nat \<Rightarrow> nat \<Rightarrow> Fcall \<Rightarrow> m2s" where
  "m2s_Twalk b p ep f =
    (if p + BIT32SZ + BIT32SZ + BIT16SZ > ep then ret0 b f
     else do {
       v \<leftarrow> GBIT32 b p;
       w \<leftarrow> GBIT32 b (p + BIT32SZ);
       n \<leftarrow> GBIT16 b (p + BIT32SZ + BIT32SZ);
       let f = f\<lparr>fid := v, newfid := w, nwname := n\<rparr>;
       let p = p + BIT32SZ + BIT32SZ + BIT16SZ;
       if unat n > MAXWELEM then ret0 b f
       else m2s_wname (unat n) 0 b p ep f })"

definition m2s_open :: "byte list \<Rightarrow> nat \<Rightarrow> nat \<Rightarrow> Fcall \<Rightarrow> m2s" where
  "m2s_open b p ep f =
    (if p + BIT32SZ + BIT8SZ > ep then ret0 b f
     else do {
       v \<leftarrow> GBIT32 b p;
       w \<leftarrow> GBIT8 b (p + BIT32SZ);
       brk b (f\<lparr>fid := v, mode := w\<rparr>) (p + BIT32SZ + BIT8SZ) })"

definition m2s_create :: "byte list \<Rightarrow> nat \<Rightarrow> nat \<Rightarrow> Fcall \<Rightarrow> m2s" where
  "m2s_create b p ep f =
    (if p + BIT32SZ > ep then ret0 b f
     else do {
       v \<leftarrow> GBIT32 b p;
       let f = f\<lparr>fid := v\<rparr>;
       (b, r) \<leftarrow> gstring b (p + BIT32SZ) ep;
       case r of None \<Rightarrow> ret0 b f
       | Some (s, p) \<Rightarrow>
           let f = f\<lparr>name := s\<rparr> in
           if p + BIT32SZ + BIT8SZ > ep then ret0 b f
           else do {
             v \<leftarrow> GBIT32 b p;
             w \<leftarrow> GBIT8 b (p + BIT32SZ);
             brk b (f\<lparr>perm := v, mode := w\<rparr>) (p + BIT32SZ + BIT8SZ) } })"

definition m2s_Tread :: "byte list \<Rightarrow> nat \<Rightarrow> nat \<Rightarrow> Fcall \<Rightarrow> m2s" where
  "m2s_Tread b p ep f =
    (if p + BIT32SZ + BIT64SZ + BIT32SZ > ep then ret0 b f
     else do {
       v \<leftarrow> GBIT32 b p;
       w \<leftarrow> GBIT64 b (p + BIT32SZ);
       n \<leftarrow> GBIT32 b (p + BIT32SZ + BIT64SZ);
       brk b (f\<lparr>fid := v, offset := w, count := n\<rparr>) (p + BIT32SZ + BIT64SZ + BIT32SZ) })"

definition m2s_Twrite :: "byte list \<Rightarrow> nat \<Rightarrow> nat \<Rightarrow> Fcall \<Rightarrow> m2s" where
  "m2s_Twrite b p ep f =
    (if p + BIT32SZ + BIT64SZ + BIT32SZ > ep then ret0 b f
     else do {
       v \<leftarrow> GBIT32 b p;
       w \<leftarrow> GBIT64 b (p + BIT32SZ);
       n \<leftarrow> GBIT32 b (p + BIT32SZ + BIT64SZ);
       let f = f\<lparr>fid := v, offset := w, count := n\<rparr>;
       let p = p + BIT32SZ + BIT64SZ + BIT32SZ;
       if p + unat n > ep then ret0 b f
       else brk b (f\<lparr>data := Buf p\<rparr>) (p + unat n) })"

definition m2s_fid :: "byte list \<Rightarrow> nat \<Rightarrow> nat \<Rightarrow> Fcall \<Rightarrow> m2s" where
  "m2s_fid b p ep f =
    (if p + BIT32SZ > ep then ret0 b f
     else do {
       v \<leftarrow> GBIT32 b p;
       brk b (f\<lparr>fid := v\<rparr>) (p + BIT32SZ) })"

definition m2s_Rstat :: "byte list \<Rightarrow> nat \<Rightarrow> nat \<Rightarrow> Fcall \<Rightarrow> m2s" where
  "m2s_Rstat b p ep f =
    (if p + BIT16SZ > ep then ret0 b f
     else do {
       n \<leftarrow> GBIT16 b p;
       let f = f\<lparr>nstat := n\<rparr>;
       let p = p + BIT16SZ;
       if p + unat n > ep then ret0 b f
       else brk b (f\<lparr>stat := Buf p\<rparr>) (p + unat n) })"

definition m2s_Twstat :: "byte list \<Rightarrow> nat \<Rightarrow> nat \<Rightarrow> Fcall \<Rightarrow> m2s" where
  "m2s_Twstat b p ep f =
    (if p + BIT32SZ + BIT16SZ > ep then ret0 b f
     else do {
       v \<leftarrow> GBIT32 b p;
       n \<leftarrow> GBIT16 b (p + BIT32SZ);
       let f = f\<lparr>fid := v, nstat := n\<rparr>;
       let p = p + BIT32SZ + BIT16SZ;
       if p + unat n > ep then ret0 b f
       else brk b (f\<lparr>stat := Buf p\<rparr>) (p + unat n) })"

definition m2s_Rerror :: "byte list \<Rightarrow> nat \<Rightarrow> nat \<Rightarrow> Fcall \<Rightarrow> m2s" where
  "m2s_Rerror b p ep f = do {
     (b, r) \<leftarrow> gstring b p ep;
     case r of None \<Rightarrow> ret0 b (f\<lparr>errornum := 0\<rparr>)
     | Some (s, p) \<Rightarrow> brk b (f\<lparr>ename := s, errornum := 0\<rparr>) p }"

definition m2s_Rauth :: "byte list \<Rightarrow> nat \<Rightarrow> nat \<Rightarrow> Fcall \<Rightarrow> m2s" where
  "m2s_Rauth b p ep f = do {
     r \<leftarrow> gqid b p ep;
     case r of None \<Rightarrow> ret0 b f
     | Some (q, p) \<Rightarrow> brk b (f\<lparr>aqid := q\<rparr>) p }"

definition m2s_Rattach :: "byte list \<Rightarrow> nat \<Rightarrow> nat \<Rightarrow> Fcall \<Rightarrow> m2s" where
  "m2s_Rattach b p ep f = do {
     r \<leftarrow> gqid b p ep;
     case r of None \<Rightarrow> ret0 b f
     | Some (q, p) \<Rightarrow> brk b (f\<lparr>qid := q\<rparr>) p }"

primrec m2s_wqid :: "nat \<Rightarrow> nat \<Rightarrow> byte list \<Rightarrow> nat \<Rightarrow> nat \<Rightarrow> Fcall \<Rightarrow> m2s" where
  "m2s_wqid 0 i b p ep f = brk b f p"
| "m2s_wqid (Suc n) i b p ep f = do {
     r \<leftarrow> gqid b p ep;
     case r of None \<Rightarrow> ret0 b f
     | Some (q, p) \<Rightarrow> do {
         w \<leftarrow> wr (wqid f) i [q];
         m2s_wqid n (i + 1) b p ep (f\<lparr>wqid := w\<rparr>) } }"

definition m2s_Rwalk :: "byte list \<Rightarrow> nat \<Rightarrow> nat \<Rightarrow> Fcall \<Rightarrow> m2s" where
  "m2s_Rwalk b p ep f =
    (if p + BIT16SZ > ep then ret0 b f
     else do {
       n \<leftarrow> GBIT16 b p;
       let f = f\<lparr>nwqid := n\<rparr>;
       if unat n > MAXWELEM then ret0 b f
       else m2s_wqid (unat n) 0 b (p + BIT16SZ) ep f })"

definition m2s_Ropen :: "byte list \<Rightarrow> nat \<Rightarrow> nat \<Rightarrow> Fcall \<Rightarrow> m2s" where
  "m2s_Ropen b p ep f = do {
     r \<leftarrow> gqid b p ep;
     case r of None \<Rightarrow> ret0 b f
     | Some (q, p) \<Rightarrow>
         let f = f\<lparr>qid := q\<rparr> in
         if p + BIT32SZ > ep then ret0 b f
         else do {
           v \<leftarrow> GBIT32 b p;
           let f = f\<lparr>iounit := v\<rparr>;
           let p = p + BIT32SZ;
           if type f = Ropenfd
           then (if p + BIT32SZ > ep then ret0 b f
             else do {
               v \<leftarrow> GBIT32 b p;
               brk b (f\<lparr>unixfd := v\<rparr>) (p + BIT32SZ) })
           else brk b f p } }"

definition m2s_Rread :: "byte list \<Rightarrow> nat \<Rightarrow> nat \<Rightarrow> Fcall \<Rightarrow> m2s" where
  "m2s_Rread b p ep f =
    (if p + BIT32SZ > ep then ret0 b f
     else do {
       n \<leftarrow> GBIT32 b p;
       let f = f\<lparr>count := n\<rparr>;
       let p = p + BIT32SZ;
       if p + unat n > ep then ret0 b f
       else brk b (f\<lparr>data := Buf p\<rparr>) (p + unat n) })"

definition m2s_Rwrite :: "byte list \<Rightarrow> nat \<Rightarrow> nat \<Rightarrow> Fcall \<Rightarrow> m2s" where
  "m2s_Rwrite b p ep f =
    (if p + BIT32SZ > ep then ret0 b f
     else do {
       n \<leftarrow> GBIT32 b p;
       brk b (f\<lparr>count := n\<rparr>) (p + BIT32SZ) })"

section \<open>Parsing: convM2S\<close>

definition m2s_R :: "byte list \<Rightarrow> nat \<Rightarrow> nat \<Rightarrow> Fcall \<Rightarrow> m2s" where
  "m2s_R b p ep f =
    (if type f = Rversion then m2s_version b p ep f
     else if type f = Rerror then m2s_Rerror b p ep f
     else if type f = Rflush then brk b f p
     else if type f = Rauth then m2s_Rauth b p ep f
     else if type f = Rattach then m2s_Rattach b p ep f
     else if type f = Rwalk then m2s_Rwalk b p ep f
     else if type f = Ropen \<or> type f = Ropenfd \<or> type f = Rcreate then m2s_Ropen b p ep f
     else if type f = Rread then m2s_Rread b p ep f
     else if type f = Rwrite then m2s_Rwrite b p ep f
     else if type f = Rclunk \<or> type f = Rremove then brk b f p
     else if type f = Rstat then m2s_Rstat b p ep f
     else if type f = Rwstat then brk b f p
     else ret0 b f)"

definition m2s_switch :: "byte list \<Rightarrow> nat \<Rightarrow> nat \<Rightarrow> Fcall \<Rightarrow> m2s" where
  "m2s_switch b p ep f =
    (if type f = Tversion then m2s_version b p ep f
     else if type f = Tflush then m2s_flush b p ep f
     else if type f = Tauth then m2s_auth b p ep f
     else if type f = Tattach then m2s_attach b p ep f
     else if type f = Twalk then m2s_Twalk b p ep f
     else if type f = Topen \<or> type f = Topenfd then m2s_open b p ep f
     else if type f = Tcreate then m2s_create b p ep f
     else if type f = Tread then m2s_Tread b p ep f
     else if type f = Twrite then m2s_Twrite b p ep f
     else if type f = Tclunk \<or> type f = Tremove then m2s_fid b p ep f
     else if type f = Tstat then m2s_fid b p ep f
     else if type f = Twstat then m2s_Twstat b p ep f
     else m2s_R b p ep f)"

definition convM2S :: "byte list \<Rightarrow> nat \<Rightarrow> Fcall \<Rightarrow> (byte list \<times> Fcall \<times> u32) option" where
  "convM2S b nap f =
    (if BIT32SZ + BIT8SZ + BIT16SZ > nap then Some (b, f, 0)
     else do {
       size \<leftarrow> GBIT32 b 0;
       if unat size < BIT32SZ + BIT8SZ + BIT16SZ then Some (b, f, 0)
       else do {
         t \<leftarrow> GBIT8 b BIT32SZ;
         g \<leftarrow> GBIT16 b (BIT32SZ + BIT8SZ);
         let f = f\<lparr>type := t, tag := g\<rparr>;
         (b, f, r) \<leftarrow> m2s_switch b (BIT32SZ + BIT8SZ + BIT16SZ) nap f;
         case r of None \<Rightarrow> Some (b, f, 0)
         | Some p \<Rightarrow>
             if p > nap then Some (b, f, 0)
             else if unat size = p then Some (b, f, size)
             else Some (b, f, 0) } })"

section \<open>Sizes and writing\<close>

text \<open>The sizes are \<^verbatim>\<open>uint\<close>s and wrap around. \<open>m\<close> is the buffer that \<^const>\<open>Buf\<close> pointers of \<open>f\<close> refer to.\<close>

primrec size_wname :: "nat \<Rightarrow> nat \<Rightarrow> byte list \<Rightarrow> Fcall \<Rightarrow> u32 \<Rightarrow> u32 option" where
  "size_wname 0 i m f n = Some n"
| "size_wname (Suc k) i m f n = do {
     w \<leftarrow> rd (wname f) i;
     s \<leftarrow> stringsz m w;
     size_wname k (i + 1) m f (n + s) }"

definition sizeS2M :: "byte list \<Rightarrow> Fcall \<Rightarrow> u32 option" where
  "sizeS2M m f =
    (let b8 = of_nat BIT8SZ; b16 = of_nat BIT16SZ; b32 = of_nat BIT32SZ; b64 = of_nat BIT64SZ;
         qsz = of_nat QIDSZ; n = b32 + b8 + b16 in
     if type f = Tversion then map_option (\<lambda>s. n + b32 + s) (stringsz m (version f))
     else if type f = Tflush then Some (n + b16)
     else if type f = Tauth then do {
       s \<leftarrow> stringsz m (uname f);
       t \<leftarrow> stringsz m (aname f);
       Some (n + b32 + s + t) }
     else if type f = Tattach then do {
       s \<leftarrow> stringsz m (uname f);
       t \<leftarrow> stringsz m (aname f);
       Some (n + b32 + b32 + s + t) }
     else if type f = Twalk then size_wname (unat (nwname f)) 0 m f (n + b32 + b32 + b16)
     else if type f = Topen \<or> type f = Topenfd then Some (n + b32 + b8)
     else if type f = Tcreate then map_option (\<lambda>s. n + b32 + s + b32 + b8) (stringsz m (name f))
     else if type f = Tread then Some (n + b32 + b64 + b32)
     else if type f = Twrite then Some (n + b32 + b64 + b32 + count f)
     else if type f = Tclunk \<or> type f = Tremove then Some (n + b32)
     else if type f = Tstat then Some (n + b32)
     else if type f = Twstat then Some (n + b32 + b16 + ucast (nstat f))
     else if type f = Rversion then map_option (\<lambda>s. n + b32 + s) (stringsz m (version f))
     else if type f = Rerror then map_option (\<lambda>s. n + s) (stringsz m (ename f))
     else if type f = Rflush then Some n
     else if type f = Rauth then Some (n + qsz)
     else if type f = Rattach then Some (n + qsz)
     else if type f = Rwalk then Some (n + b16 + ucast (nwqid f) * qsz)
     else if type f = Ropen \<or> type f = Rcreate then Some (n + qsz + b32)
     else if type f = Ropenfd then Some (n + qsz + b32 + b32)
     else if type f = Rread then Some (n + b32 + count f)
     else if type f = Rwrite then Some (n + b32)
     else if type f = Rclunk then Some n
     else if type f = Rremove then Some n
     else if type f = Rstat then Some (n + b16 + ucast (nstat f))
     else if type f = Rwstat then Some n
     else Some 0)"

text \<open>\<open>memsrc m s n\<close>: the \<open>n\<close> bytes at \<open>s\<close> that \<^verbatim>\<open>memmove\<close> copies.\<close>

definition memsrc :: "byte list \<Rightarrow> cptr \<Rightarrow> nat \<Rightarrow> byte list option" where
  "memsrc m s n = (if n = 0 then Some [] else Option.bind (deref m s) (\<lambda>t. rdn t 0 n))"

text \<open>A case of \<^verbatim>\<open>convS2M\<close> ends with the buffer and the new \<^verbatim>\<open>p\<close>, or \<open>None\<close> for \<^verbatim>\<open>return 0\<close>.\<close>

type_synonym s2m = "(byte list \<times> nat option) option"

primrec s2m_wname :: "nat \<Rightarrow> nat \<Rightarrow> byte list \<Rightarrow> byte list \<Rightarrow> nat \<Rightarrow> Fcall \<Rightarrow> s2m" where
  "s2m_wname 0 i m b p f = Some (b, Some p)"
| "s2m_wname (Suc k) i m b p f = do {
     w \<leftarrow> rd (wname f) i;
     (b, p) \<leftarrow> pstring m b p w;
     s2m_wname k (i + 1) m b p f }"

primrec s2m_wqid :: "nat \<Rightarrow> nat \<Rightarrow> byte list \<Rightarrow> nat \<Rightarrow> Fcall \<Rightarrow> s2m" where
  "s2m_wqid 0 i b p f = Some (b, Some p)"
| "s2m_wqid (Suc k) i b p f = do {
     q \<leftarrow> rd (wqid f) i;
     (b, p) \<leftarrow> pqid b p q;
     s2m_wqid k (i + 1) b p f }"

definition s2m_version :: "byte list \<Rightarrow> byte list \<Rightarrow> nat \<Rightarrow> Fcall \<Rightarrow> s2m" where
  "s2m_version m b p f = do {
     b \<leftarrow> wr b p (PBIT32 (msize f));
     (b, p) \<leftarrow> pstring m b (p + BIT32SZ) (version f);
     Some (b, Some p) }"

definition s2m_auth :: "byte list \<Rightarrow> byte list \<Rightarrow> nat \<Rightarrow> Fcall \<Rightarrow> s2m" where
  "s2m_auth m b p f = do {
     b \<leftarrow> wr b p (PBIT32 (afid f));
     (b, p) \<leftarrow> pstring m b (p + BIT32SZ) (uname f);
     (b, p) \<leftarrow> pstring m b p (aname f);
     Some (b, Some p) }"

definition s2m_attach :: "byte list \<Rightarrow> byte list \<Rightarrow> nat \<Rightarrow> Fcall \<Rightarrow> s2m" where
  "s2m_attach m b p f = do {
     b \<leftarrow> wr b p (PBIT32 (fid f));
     b \<leftarrow> wr b (p + BIT32SZ) (PBIT32 (afid f));
     (b, p) \<leftarrow> pstring m b (p + BIT32SZ + BIT32SZ) (uname f);
     (b, p) \<leftarrow> pstring m b p (aname f);
     Some (b, Some p) }"

definition s2m_Twalk :: "byte list \<Rightarrow> byte list \<Rightarrow> nat \<Rightarrow> Fcall \<Rightarrow> s2m" where
  "s2m_Twalk m b p f = do {
     b \<leftarrow> wr b p (PBIT32 (fid f));
     b \<leftarrow> wr b (p + BIT32SZ) (PBIT32 (newfid f));
     b \<leftarrow> wr b (p + BIT32SZ + BIT32SZ) (PBIT16 (nwname f));
     if unat (nwname f) > MAXWELEM then Some (b, None)
     else s2m_wname (unat (nwname f)) 0 m b (p + BIT32SZ + BIT32SZ + BIT16SZ) f }"

definition s2m_open :: "byte list \<Rightarrow> nat \<Rightarrow> Fcall \<Rightarrow> s2m" where
  "s2m_open b p f = do {
     b \<leftarrow> wr b p (PBIT32 (fid f));
     b \<leftarrow> wr b (p + BIT32SZ) (PBIT8 (mode f));
     Some (b, Some (p + BIT32SZ + BIT8SZ)) }"

definition s2m_create :: "byte list \<Rightarrow> byte list \<Rightarrow> nat \<Rightarrow> Fcall \<Rightarrow> s2m" where
  "s2m_create m b p f = do {
     b \<leftarrow> wr b p (PBIT32 (fid f));
     (b, p) \<leftarrow> pstring m b (p + BIT32SZ) (name f);
     b \<leftarrow> wr b p (PBIT32 (perm f));
     b \<leftarrow> wr b (p + BIT32SZ) (PBIT8 (mode f));
     Some (b, Some (p + BIT32SZ + BIT8SZ)) }"

definition s2m_Tread :: "byte list \<Rightarrow> nat \<Rightarrow> Fcall \<Rightarrow> s2m" where
  "s2m_Tread b p f = do {
     b \<leftarrow> wr b p (PBIT32 (fid f));
     b \<leftarrow> wr b (p + BIT32SZ) (PBIT64 (offset f));
     b \<leftarrow> wr b (p + BIT32SZ + BIT64SZ) (PBIT32 (count f));
     Some (b, Some (p + BIT32SZ + BIT64SZ + BIT32SZ)) }"

definition s2m_Twrite :: "byte list \<Rightarrow> byte list \<Rightarrow> nat \<Rightarrow> Fcall \<Rightarrow> s2m" where
  "s2m_Twrite m b p f = do {
     b \<leftarrow> wr b p (PBIT32 (fid f));
     b \<leftarrow> wr b (p + BIT32SZ) (PBIT64 (offset f));
     b \<leftarrow> wr b (p + BIT32SZ + BIT64SZ) (PBIT32 (count f));
     src \<leftarrow> memsrc m (data f) (unat (count f));
     b \<leftarrow> wr b (p + BIT32SZ + BIT64SZ + BIT32SZ) src;
     Some (b, Some (p + BIT32SZ + BIT64SZ + BIT32SZ + unat (count f))) }"

definition s2m_Twstat :: "byte list \<Rightarrow> byte list \<Rightarrow> nat \<Rightarrow> Fcall \<Rightarrow> s2m" where
  "s2m_Twstat m b p f = do {
     b \<leftarrow> wr b p (PBIT32 (fid f));
     b \<leftarrow> wr b (p + BIT32SZ) (PBIT16 (nstat f));
     src \<leftarrow> memsrc m (stat f) (unat (nstat f));
     b \<leftarrow> wr b (p + BIT32SZ + BIT16SZ) src;
     Some (b, Some (p + BIT32SZ + BIT16SZ + unat (nstat f))) }"

definition s2m_fid :: "byte list \<Rightarrow> nat \<Rightarrow> Fcall \<Rightarrow> s2m" where
  "s2m_fid b p f = do {
     b \<leftarrow> wr b p (PBIT32 (fid f));
     Some (b, Some (p + BIT32SZ)) }"

definition s2m_Rwalk :: "byte list \<Rightarrow> nat \<Rightarrow> Fcall \<Rightarrow> s2m" where
  "s2m_Rwalk b p f = do {
     b \<leftarrow> wr b p (PBIT16 (nwqid f));
     if unat (nwqid f) > MAXWELEM then Some (b, None)
     else s2m_wqid (unat (nwqid f)) 0 b (p + BIT16SZ) f }"

definition s2m_Ropen :: "byte list \<Rightarrow> nat \<Rightarrow> Fcall \<Rightarrow> s2m" where
  "s2m_Ropen b p f = do {
     (b, p) \<leftarrow> pqid b p (qid f);
     b \<leftarrow> wr b p (PBIT32 (iounit f));
     let p = p + BIT32SZ;
     if type f = Ropenfd then do {
       b \<leftarrow> wr b p (PBIT32 (unixfd f));
       Some (b, Some (p + BIT32SZ)) }
     else Some (b, Some p) }"

definition s2m_Rread :: "byte list \<Rightarrow> byte list \<Rightarrow> nat \<Rightarrow> Fcall \<Rightarrow> s2m" where
  "s2m_Rread m b p f = do {
     b \<leftarrow> wr b p (PBIT32 (count f));
     src \<leftarrow> memsrc m (data f) (unat (count f));
     b \<leftarrow> wr b (p + BIT32SZ) src;
     Some (b, Some (p + BIT32SZ + unat (count f))) }"

definition s2m_Rstat :: "byte list \<Rightarrow> byte list \<Rightarrow> nat \<Rightarrow> Fcall \<Rightarrow> s2m" where
  "s2m_Rstat m b p f = do {
     b \<leftarrow> wr b p (PBIT16 (nstat f));
     src \<leftarrow> memsrc m (stat f) (unat (nstat f));
     b \<leftarrow> wr b (p + BIT16SZ) src;
     Some (b, Some (p + BIT16SZ + unat (nstat f))) }"

definition s2m_qid :: "byte list \<Rightarrow> nat \<Rightarrow> Qid \<Rightarrow> s2m" where
  "s2m_qid b p q = map_option (\<lambda>(b, p). (b, Some p)) (pqid b p q)"

definition s2m_R :: "byte list \<Rightarrow> byte list \<Rightarrow> nat \<Rightarrow> Fcall \<Rightarrow> s2m" where
  "s2m_R m b p f =
    (if type f = Rversion then s2m_version m b p f
     else if type f = Rerror then map_option (\<lambda>(b, p). (b, Some p)) (pstring m b p (ename f))
     else if type f = Rflush then Some (b, Some p)
     else if type f = Rauth then s2m_qid b p (aqid f)
     else if type f = Rattach then s2m_qid b p (qid f)
     else if type f = Rwalk then s2m_Rwalk b p f
     else if type f = Ropen \<or> type f = Rcreate \<or> type f = Ropenfd then s2m_Ropen b p f
     else if type f = Rread then s2m_Rread m b p f
     else if type f = Rwrite then
       map_option (\<lambda>b. (b, Some (p + BIT32SZ))) (wr b p (PBIT32 (count f)))
     else if type f = Rclunk then Some (b, Some p)
     else if type f = Rremove then Some (b, Some p)
     else if type f = Rstat then s2m_Rstat m b p f
     else if type f = Rwstat then Some (b, Some p)
     else Some (b, None))"

definition s2m_switch :: "byte list \<Rightarrow> byte list \<Rightarrow> nat \<Rightarrow> Fcall \<Rightarrow> s2m" where
  "s2m_switch m b p f =
    (if type f = Tversion then s2m_version m b p f
     else if type f = Tflush then
       map_option (\<lambda>b. (b, Some (p + BIT16SZ))) (wr b p (PBIT16 (oldtag f)))
     else if type f = Tauth then s2m_auth m b p f
     else if type f = Tattach then s2m_attach m b p f
     else if type f = Twalk then s2m_Twalk m b p f
     else if type f = Topen \<or> type f = Topenfd then s2m_open b p f
     else if type f = Tcreate then s2m_create m b p f
     else if type f = Tread then s2m_Tread b p f
     else if type f = Twrite then s2m_Twrite m b p f
     else if type f = Tclunk \<or> type f = Tremove then s2m_fid b p f
     else if type f = Tstat then s2m_fid b p f
     else if type f = Twstat then s2m_Twstat m b p f
     else s2m_R m b p f)"

definition convS2M :: "byte list \<Rightarrow> Fcall \<Rightarrow> byte list \<Rightarrow> nat \<Rightarrow> (byte list \<times> u32) option" where
  "convS2M m f b nap = do {
     size \<leftarrow> sizeS2M m f;
     if size = 0 then Some (b, 0)
     else if unat size > nap then Some (b, 0)
     else do {
       b \<leftarrow> wr b 0 (PBIT32 size);
       b \<leftarrow> wr b BIT32SZ (PBIT8 (type f));
       b \<leftarrow> wr b (BIT32SZ + BIT8SZ) (PBIT16 (tag f));
       (b, r) \<leftarrow> s2m_switch m b (BIT32SZ + BIT8SZ + BIT16SZ) f;
       case r of None \<Rightarrow> Some (b, 0)
       | Some p \<Rightarrow> if unat size \<noteq> p then Some (b, 0) else Some (b, size) } }"

end
