(* ===== verification/NinePSpec.thy ===== *)
theory NinePSpec
  imports Fcall9P
begin

text \<open>
  What 9P messages are (the formats of section 9p of the manual, as \<open>wire\<close>) and that \<^verbatim>\<open>convM2S\<close>,
  \<^verbatim>\<open>sizeS2M\<close> and \<^verbatim>\<open>convS2M\<close> implement it: the writer produces the format, the reader accepts exactly the
  well-formed messages, and neither leaves its buffer.
\<close>

section \<open>Messages\<close>

text \<open>
  The messages of intro(9p), with their strings as byte sequences. \<open>body\<close> is the layout the manual
  gives for the part after the tag.
\<close>

datatype fmsg =
    MTversion u32 "byte list" | MTflush u16 | MTauth u32 "byte list" "byte list"
  | MTattach u32 u32 "byte list" "byte list" | MTwalk u32 u32 "byte list list"
  | MTopen u32 byte | MTopenfd u32 byte | MTcreate u32 "byte list" u32 byte
  | MTread u32 u64 u32 | MTwrite u32 u64 "byte list" | MTclunk u32 | MTremove u32 | MTstat u32
  | MTwstat u32 "byte list"
  | MRversion u32 "byte list" | MRerror "byte list" | MRflush | MRauth qid9 | MRattach qid9
  | MRwalk "qid9 list" | MRopen qid9 u32 | MRopenfd qid9 u32 u32 | MRcreate qid9 u32
  | MRread "byte list" | MRwrite u32 | MRclunk | MRremove | MRstat "byte list" | MRwstat

fun mtype :: "fmsg \<Rightarrow> byte" where
  "mtype (MTversion _ _) = Tversion" | "mtype (MTflush _) = Tflush" | "mtype (MTauth _ _ _) = Tauth"
| "mtype (MTattach _ _ _ _) = Tattach" | "mtype (MTwalk _ _ _) = Twalk" | "mtype (MTopen _ _) = Topen"
| "mtype (MTopenfd _ _) = Topenfd" | "mtype (MTcreate _ _ _ _) = Tcreate" | "mtype (MTread _ _ _) = Tread"
| "mtype (MTwrite _ _ _) = Twrite" | "mtype (MTclunk _) = Tclunk" | "mtype (MTremove _) = Tremove"
| "mtype (MTstat _) = Tstat" | "mtype (MTwstat _ _) = Twstat" | "mtype (MRversion _ _) = Rversion"
| "mtype (MRerror _) = Rerror" | "mtype MRflush = Rflush" | "mtype (MRauth _) = Rauth"
| "mtype (MRattach _) = Rattach" | "mtype (MRwalk _) = Rwalk" | "mtype (MRopen _ _) = Ropen"
| "mtype (MRopenfd _ _ _) = Ropenfd" | "mtype (MRcreate _ _) = Rcreate" | "mtype (MRread _) = Rread"
| "mtype (MRwrite _) = Rwrite" | "mtype MRclunk = Rclunk" | "mtype MRremove = Rremove"
| "mtype (MRstat _) = Rstat" | "mtype MRwstat = Rwstat"

abbreviation enc_stat :: "byte list \<Rightarrow> byte list" where
  "enc_stat d \<equiv> PBIT16 (of_nat (length d) :: u16) @ d"

abbreviation enc_data :: "byte list \<Rightarrow> byte list" where
  "enc_data d \<equiv> PBIT32 (of_nat (length d) :: u32) @ d"

fun body :: "fmsg \<Rightarrow> byte list" where
  "body (MTversion ms v) = PBIT32 ms @ enc_str v"
| "body (MTflush t) = PBIT16 t"
| "body (MTauth a u n) = PBIT32 a @ enc_str u @ enc_str n"
| "body (MTattach i a u n) = PBIT32 i @ PBIT32 a @ enc_str u @ enc_str n"
| "body (MTwalk i n ws) = PBIT32 i @ PBIT32 n @ PBIT16 (of_nat (length ws) :: u16) @ concat (map enc_str ws)"
| "body (MTopen i m) = PBIT32 i @ PBIT8 m"
| "body (MTopenfd i m) = PBIT32 i @ PBIT8 m"
| "body (MTcreate i n pm m) = PBIT32 i @ enc_str n @ PBIT32 pm @ PBIT8 m"
| "body (MTread i off n) = PBIT32 i @ PBIT64 off @ PBIT32 n"
| "body (MTwrite i off d) = PBIT32 i @ PBIT64 off @ enc_data d"
| "body (MTclunk i) = PBIT32 i"
| "body (MTremove i) = PBIT32 i"
| "body (MTstat i) = PBIT32 i"
| "body (MTwstat i d) = PBIT32 i @ enc_stat d"
| "body (MRversion ms v) = PBIT32 ms @ enc_str v"
| "body (MRerror e) = enc_str e"
| "body MRflush = []"
| "body (MRauth q) = enc_qid q"
| "body (MRattach q) = enc_qid q"
| "body (MRwalk qs) = PBIT16 (of_nat (length qs) :: u16) @ concat (map enc_qid qs)"
| "body (MRopen q io) = enc_qid q @ PBIT32 io"
| "body (MRopenfd q io fd) = enc_qid q @ PBIT32 io @ PBIT32 fd"
| "body (MRcreate q io) = enc_qid q @ PBIT32 io"
| "body (MRread d) = enc_data d"
| "body (MRwrite n) = PBIT32 n"
| "body MRclunk = []"
| "body MRremove = []"
| "body (MRstat d) = enc_stat d"
| "body MRwstat = []"

definition wire :: "u16 \<Rightarrow> fmsg \<Rightarrow> byte list" where
  "wire t g = PBIT32 (of_nat (BIT32SZ + BIT8SZ + BIT16SZ + length (body g)) :: u32) @
     PBIT8 (mtype g) @ PBIT16 t @ body g"

text \<open>The strings of a message, and what a well-formed message satisfies.\<close>

fun strs :: "fmsg \<Rightarrow> byte list list" where
  "strs (MTversion _ v) = [v]" | "strs (MTauth _ u n) = [u, n]" | "strs (MTattach _ _ u n) = [u, n]"
| "strs (MTwalk _ _ ws) = ws" | "strs (MTcreate _ n _ _) = [n]" | "strs (MRversion _ v) = [v]"
| "strs (MRerror e) = [e]" | "strs _ = []"

fun parts_ok :: "fmsg \<Rightarrow> bool" where
  "parts_ok (MTwalk _ _ ws) \<longleftrightarrow> length ws \<le> MAXWELEM"
| "parts_ok (MRwalk qs) \<longleftrightarrow> length qs \<le> MAXWELEM"
| "parts_ok (MTwstat _ d) \<longleftrightarrow> length d < 65536"
| "parts_ok (MRstat d) \<longleftrightarrow> length d < 65536"
| "parts_ok _ \<longleftrightarrow> True"

definition msg_ok :: "fmsg \<Rightarrow> bool" where
  "msg_ok g \<longleftrightarrow> parts_ok g \<and> (\<forall>s \<in> set (strs g). length s < 65536) \<and>
     BIT32SZ + BIT8SZ + BIT16SZ + length (body g) < 2 ^ 32"

definition nul_free :: "fmsg \<Rightarrow> bool" where
  "nul_free g \<longleftrightarrow> (\<forall>s \<in> set (strs g). 0 \<notin> set s)"

definition fcall_ok :: "Fcall \<Rightarrow> bool" where
  "fcall_ok f \<longleftrightarrow> length (wname f) = MAXWELEM \<and> length (wqid f) = MAXWELEM"

text \<open>The message a structure stands for, when its pointers are valid.\<close>

definition msg_of :: "byte list \<Rightarrow> Fcall \<Rightarrow> fmsg option" where
  "msg_of m f =
    (let st = str_of m; dat = memsrc m (data f) (unat (count f));
         sta = memsrc m (stat f) (unat (nstat f)); t = type f in
     if t = Tversion then map_option (MTversion (msize f)) (st (version f))
     else if t = Tflush then Some (MTflush (oldtag f))
     else if t = Tauth then do { u \<leftarrow> st (uname f); a \<leftarrow> st (aname f); Some (MTauth (afid f) u a) }
     else if t = Tattach then do { u \<leftarrow> st (uname f); a \<leftarrow> st (aname f); Some (MTattach (fid f) (afid f) u a) }
     else if t = Twalk then
       (if unat (nwname f) \<le> MAXWELEM
        then map_option (MTwalk (fid f) (newfid f)) (those (map st (take (unat (nwname f)) (wname f))))
        else None)
     else if t = Topen then Some (MTopen (fid f) (mode f))
     else if t = Topenfd then Some (MTopenfd (fid f) (mode f))
     else if t = Tcreate then map_option (\<lambda>n. MTcreate (fid f) n (perm f) (mode f)) (st (name f))
     else if t = Tread then Some (MTread (fid f) (offset f) (count f))
     else if t = Twrite then map_option (MTwrite (fid f) (offset f)) dat
     else if t = Tclunk then Some (MTclunk (fid f))
     else if t = Tremove then Some (MTremove (fid f))
     else if t = Tstat then Some (MTstat (fid f))
     else if t = Twstat then map_option (MTwstat (fid f)) sta
     else if t = Rversion then map_option (MRversion (msize f)) (st (version f))
     else if t = Rerror then map_option MRerror (st (ename f))
     else if t = Rflush then Some MRflush
     else if t = Rauth then Some (MRauth (qid_of (aqid f)))
     else if t = Rattach then Some (MRattach (qid_of (qid f)))
     else if t = Rwalk then
       (if unat (nwqid f) \<le> MAXWELEM
        then Some (MRwalk (map qid_of (take (unat (nwqid f)) (wqid f)))) else None)
     else if t = Ropen then Some (MRopen (qid_of (qid f)) (iounit f))
     else if t = Ropenfd then Some (MRopenfd (qid_of (qid f)) (iounit f) (unixfd f))
     else if t = Rcreate then Some (MRcreate (qid_of (qid f)) (iounit f))
     else if t = Rread then map_option MRread dat
     else if t = Rwrite then Some (MRwrite (count f))
     else if t = Rclunk then Some MRclunk
     else if t = Rremove then Some MRremove
     else if t = Rstat then map_option MRstat sta
     else if t = Rwstat then Some MRwstat
     else None)"

section \<open>Writing\<close>

lemma msg_of_type: "msg_of m f = Some g \<Longrightarrow> type f = mtype g"
  by (auto simp: msg_of_def Let_def bind_eq_Some_conv split: if_splits)

lemma memsrc_length: "memsrc m s n = Some d \<Longrightarrow> length d = n"
  by (auto simp: memsrc_def rdn_def bind_eq_Some_conv split: if_splits)

lemma those_Cons_Some: "those (x # xs) = Some ys \<longleftrightarrow> (\<exists>z zs. x = Some z \<and> those xs = Some zs \<and> ys = z # zs)"
  by (auto split: option.splits)

lemma length_those: "those xs = Some ys \<Longrightarrow> length ys = length xs"
  by (induction xs arbitrary: ys) (auto split: option.splits)

lemma size_wname_body:
  assumes "those (map (str_of m) (take k (drop i (wname f)))) = Some ws" "i + k \<le> length (wname f)"
  shows "size_wname k i m f n = Some (n + of_nat (length (concat (map enc_str ws))))"
  using assms
proof (induction k arbitrary: i n ws)
  case (Suc k)
  then obtain w ws' where "str_of m (wname f ! i) = Some w" "ws = w # ws'"
    "those (map (str_of m) (take k (drop (Suc i) (wname f)))) = Some ws'"
    by (auto simp: take_drop_Suc those_Cons_Some simp del: those.simps)
  then show ?case using Suc.IH[of "Suc i" ws'] Suc.prems(2) stringsz_str[of m _ w]
    by (simp add: rd_def)
qed simp

lemma s2m_wname_body:
  assumes "those (map (str_of m) (take k (drop i (wname f)))) = Some ws" "i + k \<le> length (wname f)"
    "\<forall>w\<in>set ws. length w < 2 ^ 32" "p \<le> length b"
  shows "s2m_wname k i m b p f = Option.bind (wr b p (concat (map enc_str ws)))
    (\<lambda>b. Some (b, Some (p + length (concat (map enc_str ws)))))"
  using assms
proof (induction k arbitrary: i b p ws)
  case (Suc k)
  then obtain w ws' where w: "str_of m (wname f ! i) = Some w" "ws = w # ws'"
    "those (map (str_of m) (take k (drop (Suc i) (wname f)))) = Some ws'"
    by (auto simp: take_drop_Suc those_Cons_Some simp del: those.simps)
  have "length w < 2 ^ 32" using Suc.prems(3) w(2) by simp
  then have "pstring m b p (wname f ! i) = Option.bind (wr b p (enc_str w)) (\<lambda>b. Some (b, p + length (enc_str w)))"
    by (rule pstring_str[OF w(1)])
  moreover have "s2m_wname k (i + 1) m (upd b p (enc_str w)) (p + length (enc_str w)) f =
     Option.bind (wr (upd b p (enc_str w)) (p + length (enc_str w)) (concat (map enc_str ws')))
      (\<lambda>b. Some (b, Some (p + length (enc_str w) + length (concat (map enc_str ws')))))"
    if "p + length (enc_str w) \<le> length b"
    using Suc.IH[of "Suc i" ws' "p + length (enc_str w)" "upd b p (enc_str w)"] Suc.prems w that by simp
  ultimately show ?case using Suc.prems(2) w(2)
    by (auto simp: rd_def wr_def upd_upd[of p "enc_str w"] simp del: length_enc_str)
qed (simp add: wr_def)

lemma s2m_wqid_body:
  assumes "i + k \<le> length (wqid f)" "p \<le> length b"
  shows "s2m_wqid k i b p f = Option.bind (wr b p (concat (map enc_qid (map qid_of (take k (drop i (wqid f)))))))
    (\<lambda>b. Some (b, Some (p + k * QIDSZ)))"
  using assms
proof (induction k arbitrary: i b p)
  case (Suc k)
  have "s2m_wqid k (i + 1) (upd b p (enc_qid (qid_of (wqid f ! i)))) (p + QIDSZ) f =
     Option.bind (wr (upd b p (enc_qid (qid_of (wqid f ! i)))) (p + QIDSZ)
       (concat (map enc_qid (map qid_of (take k (drop (Suc i) (wqid f)))))))
      (\<lambda>b. Some (b, Some (p + QIDSZ + k * QIDSZ)))" if "p + QIDSZ \<le> length b"
    using Suc.IH[of "Suc i" "p + QIDSZ" "upd b p (enc_qid (qid_of (wqid f ! i)))"] Suc.prems that by simp
  then show ?case using Suc.prems upd_upd[of p "enc_qid (qid_of (wqid f ! i))"]
    by (auto simp: rd_def wr_def take_drop_Suc pqid_qid)
qed (simp add: wr_def)


lemma length_enc_qids [simp]: "length (concat (map enc_qid qs)) = length qs * QIDSZ"
  by (induction qs) auto

lemmas msg_eval = msg_of_def Let_def mtypes bind_eq_Some_conv

lemma msg_of_sizes:
  assumes "msg_of m f = Some g" "fcall_ok f"
  shows "g = MTwalk i n ws \<Longrightarrow> those (map (str_of m) (take (unat (nwname f)) (drop 0 (wname f)))) = Some ws"
    "g = MTwalk i n ws \<Longrightarrow> unat (nwname f) \<le> length (wname f)"
    "g = MTwalk i n ws \<Longrightarrow> unat (nwname f) \<le> MAXWELEM"
    "g = MTwalk i n ws \<Longrightarrow> fid f = i \<and> newfid f = n \<and> length ws = unat (nwname f)"
    "g = MRwalk qs \<Longrightarrow> qs = map qid_of (take (unat (nwqid f)) (drop 0 (wqid f)))"
    "g = MRwalk qs \<Longrightarrow> unat (nwqid f) \<le> length (wqid f)"
    "g = MRwalk qs \<Longrightarrow> unat (nwqid f) \<le> MAXWELEM"
    "g = MRwalk qs \<Longrightarrow> length qs = unat (nwqid f)"
    "g = MTwrite i off d \<or> g = MRread d \<Longrightarrow> memsrc m (data f) (unat (count f)) = Some d \<and> length d = unat (count f)"
    "g = MTwstat i d \<or> g = MRstat d \<Longrightarrow> memsrc m (stat f) (unat (nstat f)) = Some d \<and> length d = unat (nstat f)"
  using assms msg_of_type[OF assms(1)]
  by (auto simp: msg_eval fcall_ok_def min_def dest!: length_those dest: memsrc_length split: if_splits)

lemma sizeS2M_body:
  assumes "msg_of m f = Some g" "fcall_ok f"
  shows "sizeS2M m f = Some (of_nat (BIT32SZ + BIT8SZ + BIT16SZ + length (body g)))"
proof -
  note t = msg_of_type[OF assms(1)] and sz = msg_of_sizes[OF assms]
  show ?thesis
  proof (cases g)
    case (MTwalk i n ws)
    then show ?thesis using t size_wname_body[OF sz(1)] sz(2)
      by (simp add: sizeS2M_def Let_def mtypes)
  next
    case (MRwalk qs)
    then show ?thesis using sz(8) t by (simp add: sizeS2M_def Let_def mtypes)
  next
    case (MTwrite i off d)
    then show ?thesis using sz(9) t by (simp add: sizeS2M_def Let_def mtypes)
  next
    case (MRread d)
    then show ?thesis using sz(9) t by (simp add: sizeS2M_def Let_def mtypes)
  next
    case (MTwstat i d)
    then show ?thesis using sz(10) t by (simp add: sizeS2M_def Let_def mtypes)
  next
    case (MRstat d)
    then show ?thesis using sz(10) t by (simp add: sizeS2M_def Let_def mtypes)
  qed (use assms(1) t in \<open>simp_all add: msg_eval sizeS2M_def stringsz_str\<close>)
qed

lemma strs_short:
  assumes "msg_ok g"
  shows "\<forall>s\<in>set (strs g). length s < 2 ^ 32"
  using assms by (auto simp: msg_ok_def)

lemma s2m_Twalk_body:
  assumes "msg_of m f = Some (MTwalk i n ws)" "fcall_ok f" "\<forall>s\<in>set ws. length s < 2 ^ 32"
  shows "s2m_Twalk m b p f = Option.bind (wr b p (body (MTwalk i n ws)))
    (\<lambda>b. Some (b, Some (p + length (body (MTwalk i n ws)))))"
proof -
  note sz = msg_of_sizes[OF assms(1,2)]
  let ?h = "PBIT32 (fid f) @ PBIT32 (newfid f) @ PBIT16 (nwname f)"
  have "Option.bind (wr b p ?h) (\<lambda>b. s2m_wname (unat (nwname f)) 0 m b (p + length ?h) f) =
    Option.bind (wr b p (?h @ concat (map enc_str ws)))
      (\<lambda>b. Some (b, Some (p + length ?h + length (concat (map enc_str ws)))))"
    by (rule wr_then, rule s2m_wname_body) (use sz assms in auto)
  then show ?thesis using sz(3,4)
    by (simp add: s2m_Twalk_def wr_seq add.assoc)
qed

lemma s2m_Rwalk_body:
  assumes "msg_of m f = Some (MRwalk qs)" "fcall_ok f"
  shows "s2m_Rwalk b p f = Option.bind (wr b p (body (MRwalk qs)))
    (\<lambda>b. Some (b, Some (p + length (body (MRwalk qs)))))"
proof -
  note sz = msg_of_sizes[OF assms(1,2)]
  have "Option.bind (wr b p (PBIT16 (nwqid f))) (\<lambda>b. s2m_wqid (unat (nwqid f)) 0 b (p + length (PBIT16 (nwqid f))) f) =
    Option.bind (wr b p (PBIT16 (nwqid f) @ concat (map enc_qid qs)))
      (\<lambda>b. Some (b, Some (p + length (PBIT16 (nwqid f)) + unat (nwqid f) * QIDSZ)))"
    unfolding sz(5)[OF refl] by (rule wr_then, rule s2m_wqid_body) (use sz assms in auto)
  then show ?thesis using sz(7,8)
    by (simp add: s2m_Rwalk_def add.assoc)
qed

lemmas s2m_defs = s2m_version_def s2m_auth_def s2m_attach_def s2m_open_def s2m_create_def s2m_Tread_def
  s2m_Twrite_def s2m_fid_def s2m_Twstat_def s2m_Ropen_def s2m_Rread_def s2m_Rstat_def s2m_qid_def

lemma s2m_switch_body:
  assumes "msg_of m f = Some g" "fcall_ok f" "\<forall>s\<in>set (strs g). length s < 2 ^ 32" "p \<le> length b"
  shows "s2m_switch m b p f = Option.bind (wr b p (body g)) (\<lambda>b. Some (b, Some (p + length (body g))))"
proof -
  note t = msg_of_type[OF assms(1)] and sz = msg_of_sizes[OF assms(1,2)]
  show ?thesis
  proof (cases g)
    case (MTwalk i n ws)
    then show ?thesis using t s2m_Twalk_body assms
      by (simp add: s2m_switch_def mtypes)
  next
    case (MRwalk qs)
    then show ?thesis using t s2m_Rwalk_body assms
      by (simp add: s2m_switch_def s2m_R_def mtypes)
  qed (use assms t sz(9,10) in \<open>auto simp: s2m_switch_def s2m_R_def s2m_defs msg_eval pstring_str pqid_qid wr_seq
     map_option_bind add.assoc wr_Nil\<close>)
qed

section \<open>Reading well-formed messages\<close>

lemma memsrc_Buf:
  assumes "has_at b p d"
  shows "memsrc b (Buf p) (length d) = Some d"
proof (cases d)
  case (Cons x d')
  then show ?thesis using assms
    by (auto simp: memsrc_def deref_def rdn_def has_at_def simp del: has_at_Cons)
qed (simp add: memsrc_def)

text \<open>The buffer after \<^verbatim>\<open>gstring\<close> has read the string \<open>t\<close> at \<open>p\<close>.\<close>

definition str_read :: "byte list \<Rightarrow> byte list \<Rightarrow> nat \<Rightarrow> byte list \<Rightarrow> nat \<Rightarrow> bool" where
  "str_read b b' p t ep \<longleftrightarrow> length b' = length b \<and> take (p + 1) b' = take (p + 1) b \<and>
     (\<forall>q xs. p + length (enc_str t) \<le> q \<longrightarrow> has_at b' q xs = has_at b q xs) \<and>
     drop ep b' = drop ep b \<and> has_at b' (p + 1) (t @ [0])"

lemma str_readD:
  assumes "str_read b b' p t ep"
  shows "length b' = length b" "take (p + 1) b' = take (p + 1) b"
    "p + length (enc_str t) \<le> q \<Longrightarrow> has_at b' q xs \<longleftrightarrow> has_at b q xs"
    "drop ep b' = drop ep b" "has_at b' (p + 1) (t @ [0])"
    "0 \<notin> set t \<Longrightarrow> str_of b' (Buf (p + 1)) = Some t"
  using assms by (auto simp: str_read_def intro: str_of_Buf simp del: has_at_append)

lemma str_read_upd:
  assumes "p + length (enc_str t) \<le> ep" "ep \<le> length b"
  shows "str_read b (upd b (p + 1) (t @ [0])) p t ep"
proof -
  have l: "p + 1 + length (t @ [0]) \<le> length b" "p + 1 + length (t @ [0]) = p + length (enc_str t)"
    using assms by (auto simp: BIT16SZ_def)
  have "has_at (upd b (p + 1) (t @ [0])) q xs \<longleftrightarrow> has_at b q xs" if "p + length (enc_str t) \<le> q" for q xs
    by (rule has_at_upd_out) (use l that in auto)
  moreover have "drop ep (upd b (p + 1) (t @ [0])) = drop ep b"
    by (rule drop_upd) (use l assms in linarith)+
  ultimately show ?thesis using l by (simp add: str_read_def del: has_at_append)
qed

lemma gstring_Buf:
  assumes "has_at b p (enc_str t)" "length t < 65536" "p + length (enc_str t) \<le> ep" "ep \<le> length b"
  obtains b' where "gstring b p ep = Some (b', Some (Buf (p + 1), p + length (enc_str t)))"
    "str_read b b' p t ep"
  using that str_read_upd[OF assms(3,4)] gstring_str[OF assms(1,2,4)] assms(3) by simp

text \<open>A case reads the message \<open>g\<close>: it ends after the body with a structure that stands for \<open>g\<close>.\<close>

definition reads :: "fmsg \<Rightarrow> nat \<Rightarrow> Fcall \<Rightarrow> m2s \<Rightarrow> bool" where
  "reads g p f r \<longleftrightarrow> (\<exists>b' f'. r = Some (b', f', Some (p + length (body g))) \<and>
     (nul_free g \<longrightarrow> msg_of b' f' = Some g) \<and> tag f' = tag f \<and> fcall_ok f')"

lemmas m2s_defs = m2s_switch_def m2s_R_def m2s_flush_def m2s_open_def m2s_Tread_def m2s_fid_def
  m2s_Rauth_def m2s_Rattach_def m2s_Ropen_def m2s_Rwrite_def

fun fixed :: "fmsg \<Rightarrow> bool" where
  "fixed (MTflush _) = True" | "fixed (MTopen _ _) = True" | "fixed (MTopenfd _ _) = True"
| "fixed (MTread _ _ _) = True" | "fixed (MTclunk _) = True" | "fixed (MTremove _) = True"
| "fixed (MTstat _) = True" | "fixed MRflush = True" | "fixed (MRwrite _) = True"
| "fixed MRclunk = True" | "fixed MRremove = True" | "fixed MRwstat = True"
| "fixed _ = False"

lemma reads_fixed:
  assumes "has_at b p (body g)" "p + length (body g) \<le> ep" "type f = mtype g" "fcall_ok f" "fixed g"
  shows "reads g p f (m2s_switch b p ep f)"
  using assms
  by (cases g) (simp_all add: reads_def m2s_defs msg_eval gbits fcall_ok_def add.assoc)

lemma reads_qid:
  assumes "has_at b p (body g)" "p + length (body g) \<le> ep" "type f = mtype g" "fcall_ok f"
    "g = MRauth q \<or> g = MRattach q \<or> g = MRopen q io \<or> g = MRcreate q io \<or> g = MRopenfd q io fd"
  shows "reads g p f (m2s_switch b p ep f)"
proof -
  obtain t v a where tva: "q = (t, v, a)" by (cases q)
  have "has_at b p (enc_qid (t, v, a))" "p + QIDSZ \<le> ep" using assms tva by (auto simp del: enc_qid.simps)
  note q = gqid_qid[OF this(1), of ep] this(2)
  show ?thesis using assms q tva
    by (elim disjE) (simp_all add: reads_def m2s_defs msg_eval gbits fcall_ok_def add.assoc del: enc_qid.simps)
qed

lemma reads_data:
  assumes "has_at b p (body g)" "p + length (body g) \<le> ep" "type f = mtype g" "fcall_ok f" "msg_ok g"
    "g = MTwrite i off d \<or> g = MRread d \<or> g = MTwstat i d \<or> g = MRstat d"
  shows "reads g p f (m2s_switch b p ep f)"
proof -
  have u: "(g = MTwrite i off d \<or> g = MRread d \<longrightarrow> unat (of_nat (length d) :: u32) = length d)"
      "(g = MTwstat i d \<or> g = MRstat d \<longrightarrow> unat (of_nat (length d) :: u16) = length d)"
    using assms(5) unat_of_nat_32 unat_of_nat_16 by (auto simp: msg_ok_def)
  note m = memsrc_Buf[of b "p + (BIT32SZ + (BIT64SZ + BIT32SZ))" d] memsrc_Buf[of b "p + BIT32SZ" d]
    memsrc_Buf[of b "p + (BIT32SZ + BIT16SZ)" d] memsrc_Buf[of b "p + BIT16SZ" d]
  show ?thesis using assms(6)
  proof (elim disjE)
    assume "g = MTwrite i off d"
    then show ?thesis using assms u m(1)
      by (simp add: reads_def m2s_switch_def m2s_R_def m2s_Twrite_def msg_eval gbits fcall_ok_def add.assoc)
  next
    assume "g = MRread d"
    then show ?thesis using assms u m(2)
      by (simp add: reads_def m2s_switch_def m2s_R_def m2s_Rread_def msg_eval gbits fcall_ok_def add.assoc)
  next
    assume "g = MTwstat i d"
    then show ?thesis using assms u m(3)
      by (simp add: reads_def m2s_switch_def m2s_R_def m2s_Twstat_def msg_eval gbits fcall_ok_def add.assoc)
  next
    assume "g = MRstat d"
    then show ?thesis using assms u m(4)
      by (simp add: reads_def m2s_switch_def m2s_R_def m2s_Rstat_def msg_eval gbits fcall_ok_def add.assoc)
  qed
qed

lemma reads_string:
  assumes "has_at b p (body g)" "p + length (body g) \<le> ep" "type f = mtype g" "fcall_ok f" "msg_ok g" "ep \<le> length b"
    "g = MTversion ms v \<or> g = MRversion ms v \<or> g = MRerror v"
  shows "reads g p f (m2s_switch b p ep f)"
proof (cases "g = MRerror v")
  case True
  then have h: "has_at b p (enc_str v)" "length v < 65536" "p + length (enc_str v) \<le> ep"
    using assms by (auto simp: msg_ok_def)
  from gstring_Buf[OF h assms(6)] obtain b' where
    "gstring b p ep = Some (b', Some (Buf (p + 1), p + length (enc_str v)))" "str_read b b' p v ep" .
  then show ?thesis using True assms(3,4) str_readD(6)[of b b' p v ep]
    by (simp add: reads_def m2s_defs m2s_Rerror_def msg_eval nul_free_def fcall_ok_def)
next
  case False
  then have h: "has_at b p (PBIT32 ms)" "has_at b (p + BIT32SZ) (enc_str v)" "length v < 65536"
    "p + BIT32SZ + length (enc_str v) \<le> ep"
    using assms by (auto simp: msg_ok_def)
  from gstring_Buf[OF h(2-4) assms(6)] obtain b' where
    "gstring b (p + BIT32SZ) ep = Some (b', Some (Buf (p + BIT32SZ + 1), p + BIT32SZ + length (enc_str v)))"
    "str_read b b' (p + BIT32SZ) v ep" .
  then show ?thesis using False assms(3,4,7) h(1,4) str_readD(6)[of b b' "p + BIT32SZ" v ep]
    by (elim disjE) (simp_all add: reads_def m2s_defs m2s_version_def msg_eval gbits nul_free_def fcall_ok_def add.assoc)
qed

lemma reads_create:
  assumes "has_at b p (body g)" "p + length (body g) \<le> ep" "type f = mtype g" "fcall_ok f" "msg_ok g" "ep \<le> length b"
    "g = MTcreate i n pm md"
  shows "reads g p f (m2s_switch b p ep f)"
proof -
  let ?q = "p + BIT32SZ" and ?e = "p + BIT32SZ + length (enc_str n)"
  have h: "has_at b p (PBIT32 i)" "has_at b ?q (enc_str n)" "has_at b ?e (PBIT32 pm)" "has_at b (?e + BIT32SZ) (PBIT8 md)"
    "length n < 65536" "?e + BIT32SZ + BIT8SZ \<le> ep"
    using assms by (auto simp: msg_ok_def add.assoc)
  from h(6) have "?e \<le> ep" by linarith
  from gstring_Buf[OF h(2,5) this assms(6)] obtain b' where
    b: "gstring b ?q ep = Some (b', Some (Buf (?q + 1), ?e))" "str_read b b' ?q n ep" .
  have "has_at b' ?e (PBIT32 pm)" "has_at b' (?e + BIT32SZ) (PBIT8 md)"
    using str_readD(3)[OF b(2)] h(3,4) by auto
  then show ?thesis using assms(3,4,7) b(1) h(1,6) str_readD(6)[OF b(2)]
    by (simp add: reads_def m2s_defs m2s_create_def msg_eval gbits nul_free_def fcall_ok_def add.assoc)
qed

lemma m2s_names_ok:
  assumes "has_at b p (enc_str u @ enc_str a)" "p + length (enc_str u @ enc_str a) \<le> ep" "ep \<le> length b"
    "length u < 65536" "length a < 65536"
  obtains b' s t where
    "m2s_names b p ep f = brk b' (f\<lparr>uname := s, aname := t, uidnum := NOUID\<rparr>) (p + length (enc_str u @ enc_str a))"
    "0 \<notin> set u \<Longrightarrow> str_of b' s = Some u" "0 \<notin> set a \<Longrightarrow> str_of b' t = Some a"
proof -
  let ?q = "p + length (enc_str u)"
  have h: "has_at b p (enc_str u)" "has_at b ?q (enc_str a)" "?q \<le> ep" "?q + length (enc_str a) \<le> ep"
    using assms(1,2) by auto
  from gstring_Buf[OF h(1) assms(4) h(3) assms(3)] obtain b1 where
    b1: "gstring b p ep = Some (b1, Some (Buf (p + 1), ?q))" "str_read b b1 p u ep" .
  have h1: "has_at b1 ?q (enc_str a)" "ep \<le> length b1" using str_readD(1,3)[OF b1(2)] h(2) assms(3) by auto
  from gstring_Buf[OF h1(1) assms(5) h(4) h1(2)] obtain b2 where
    b2: "gstring b1 ?q ep = Some (b2, Some (Buf (?q + 1), ?q + length (enc_str a)))" "str_read b1 b2 ?q a ep" .
  have "has_at b2 (p + 1) (u @ [0])"
    using has_at_prefix[OF str_readD(2)[OF b2(2)] _ str_readD(1)[OF b2(2)], of "p + 1" "u @ [0]"] str_readD(5)[OF b1(2)]
    by (simp add: BIT16SZ_def del: has_at_append)
  then show ?thesis using that[of b2 "Buf (?q + 1)" "Buf (p + 1)"] str_of_Buf str_readD(6)[OF b2(2)] b1(1) b2(1)
    by (simp add: m2s_names_def add.assoc del: has_at_append)
qed

lemma reads_names:
  assumes "has_at b p (body g)" "p + length (body g) \<le> ep" "type f = mtype g" "fcall_ok f" "msg_ok g" "ep \<le> length b"
    "g = MTauth af u a \<or> g = MTattach i af u a"
  shows "reads g p f (m2s_switch b p ep f)"
proof -
  define q where "q = (if g = MTauth af u a then p + BIT32SZ else p + BIT32SZ + BIT32SZ)"
  have h: "has_at b q (enc_str u @ enc_str a)" "q + length (enc_str u @ enc_str a) \<le> ep" "length u < 65536" "length a < 65536"
    using assms(1,2,5,7) by (auto simp: msg_ok_def q_def add.assoc)
  define f' where "f' = (if g = MTauth af u a then f\<lparr>afid := af\<rparr> else f\<lparr>fid := i, afid := af\<rparr>)"
  from m2s_names_ok[OF h(1,2) assms(6) h(3,4), of f'] obtain b' s t where
    n: "m2s_names b q ep f' = brk b' (f'\<lparr>uname := s, aname := t, uidnum := NOUID\<rparr>) (q + length (enc_str u @ enc_str a))"
    "0 \<notin> set u \<Longrightarrow> str_of b' s = Some u" "0 \<notin> set a \<Longrightarrow> str_of b' t = Some a" by blast
  show ?thesis using assms(7)
  proof
    assume g: "g = MTauth af u a"
    then show ?thesis using assms n
      by (simp add: q_def f'_def reads_def m2s_defs m2s_auth_def msg_eval gbits nul_free_def fcall_ok_def add.assoc)
  next
    assume g: "g = MTattach i af u a"
    then show ?thesis using assms n
      by (simp add: q_def f'_def reads_def m2s_defs m2s_attach_def msg_eval gbits nul_free_def fcall_ok_def add.assoc)
  qed
qed

lemma m2s_wname_ok:
  assumes "has_at b p (concat (map enc_str ws))" "\<forall>w\<in>set ws. length w < 65536"
    "p + length (concat (map enc_str ws)) \<le> ep" "ep \<le> length b" "i + length ws \<le> length (wname f)"
  shows "\<exists>b' w'. m2s_wname (length ws) i b p ep f =
      brk b' (f\<lparr>wname := w'\<rparr>) (p + length (concat (map enc_str ws))) \<and>
    length w' = length (wname f) \<and> length b' = length b \<and> take p b' = take p b \<and> take i w' = take i (wname f) \<and>
    ((\<forall>w\<in>set ws. 0 \<notin> set w) \<longrightarrow> those (map (str_of b') (take (length ws) (drop i w'))) = Some ws)"
  using assms
proof (induction ws arbitrary: b p i f)
  case Nil
  then show ?case by (intro exI[of _ b] exI[of _ "wname f"]) simp
next
  case (Cons t ws)
  let ?q = "p + length (enc_str t)"
  have h: "has_at b p (enc_str t)" "length t < 65536" "?q \<le> ep" using Cons.prems by auto
  from gstring_Buf[OF h Cons.prems(4)] obtain b1 where
    b1: "gstring b p ep = Some (b1, Some (Buf (p + 1), ?q))" "str_read b b1 p t ep" .
  note r1 = str_readD[OF b1(2)]
  define f1 where "f1 = f\<lparr>wname := upd (wname f) i [Buf (p + 1)]\<rparr>"
  have w1: "wr (wname f) i [Buf (p + 1)] = Some (wname f1)" "length (wname f1) = length (wname f)"
    using Cons.prems(5) by (simp_all add: wr_def f1_def)
  have "\<exists>b' w'. m2s_wname (length ws) (i + 1) b1 ?q ep f1 =
      brk b' (f1\<lparr>wname := w'\<rparr>) (?q + length (concat (map enc_str ws))) \<and>
    length w' = length (wname f1) \<and> length b' = length b1 \<and> take ?q b' = take ?q b1 \<and>
    take (i + 1) w' = take (i + 1) (wname f1) \<and>
    ((\<forall>w\<in>set ws. 0 \<notin> set w) \<longrightarrow> those (map (str_of b') (take (length ws) (drop (i + 1) w'))) = Some ws)"
    using Cons.prems r1(1) r1(3)[of ?q] w1 by (intro Cons.IH) auto
  then obtain b' w' where b': "m2s_wname (length ws) (i + 1) b1 ?q ep f1 =
      brk b' (f1\<lparr>wname := w'\<rparr>) (?q + length (concat (map enc_str ws)))" "length w' = length (wname f)"
    "length b' = length b1" "take ?q b' = take ?q b1" "take (i + 1) w' = take (i + 1) (wname f1)"
    "(\<forall>w\<in>set ws. 0 \<notin> set w) \<Longrightarrow> those (map (str_of b') (take (length ws) (drop (i + 1) w'))) = Some ws"
    using w1(2) by auto
  have "has_at b' (p + 1) (t @ [0])"
    using has_at_prefix[OF b'(4) _ b'(3), of "p + 1" "t @ [0]"] r1(5) by (simp add: BIT16SZ_def del: has_at_append)
  then have st: "0 \<notin> set t \<Longrightarrow> str_of b' (Buf (p + 1)) = Some t" by (rule str_of_Buf)
  have i: "i < length w'" using b'(2) Cons.prems(5) by simp
  have wi: "w' ! i = Buf (p + 1)" "take i w' = take i (wname f)"
    using b'(5) i Cons.prems(5) nth_take[of i "i + 1" w'] nth_take[of i "i + 1" "wname f1"]
      take_take[of i "i + 1" w'] take_take[of i "i + 1" "wname f1"]
    by (simp_all add: f1_def upd_def nth_append min_def)
  have tk: "take p b' = take p b"
    using b'(4) r1(2) take_take[of p ?q b'] take_take[of p ?q b1] take_take[of p "p + 1" b] take_take[of p "p + 1" b1]
    by (simp add: min_def)
  show ?case
    using b1(1) w1(1) b'(1,2,3,6) r1(1) wi tk st i
    by (intro exI[of _ b'] exI[of _ w']) (simp add: take_drop_Suc f1_def add.assoc)
qed

lemma m2s_wqid_ok:
  assumes "has_at b p (concat (map enc_qid qs))" "p + length qs * QIDSZ \<le> ep"
    "i + length qs \<le> length (wqid f)"
  shows "\<exists>w'. m2s_wqid (length qs) i b p ep f = brk b (f\<lparr>wqid := w'\<rparr>) (p + length qs * QIDSZ) \<and>
    length w' = length (wqid f) \<and> take i w' = take i (wqid f) \<and> map qid_of (take (length qs) (drop i w')) = qs"
  using assms
proof (induction qs arbitrary: p i f)
  case Nil
  then show ?case by (intro exI[of _ "wqid f"]) simp
next
  case (Cons q qs)
  obtain t v a where q: "q = (t, v, a)" by (cases q)
  let ?Q = "\<lparr>path = a, vers = ucast v, qtype = t\<rparr>"
  have g: "gqid b p ep = Some (Some (?Q, p + QIDSZ))"
    using gqid_qid[of b p t v a ep] Cons.prems q by (simp del: enc_qid.simps)
  define f1 where "f1 = f\<lparr>wqid := upd (wqid f) i [?Q]\<rparr>"
  have w1: "wr (wqid f) i [?Q] = Some (wqid f1)" "length (wqid f1) = length (wqid f)"
    using Cons.prems(3) by (simp_all add: wr_def f1_def)
  have "\<exists>w'. m2s_wqid (length qs) (i + 1) b (p + QIDSZ) ep f1 = brk b (f1\<lparr>wqid := w'\<rparr>) (p + QIDSZ + length qs * QIDSZ) \<and>
    length w' = length (wqid f1) \<and> take (i + 1) w' = take (i + 1) (wqid f1) \<and>
    map qid_of (take (length qs) (drop (i + 1) w')) = qs"
    using Cons.prems w1 by (intro Cons.IH) (auto simp del: enc_qid.simps)
  then obtain w' where w': "m2s_wqid (length qs) (i + 1) b (p + QIDSZ) ep f1 = brk b (f1\<lparr>wqid := w'\<rparr>) (p + QIDSZ + length qs * QIDSZ)"
    "length w' = length (wqid f)" "take (i + 1) w' = take (i + 1) (wqid f1)"
    "map qid_of (take (length qs) (drop (i + 1) w')) = qs" using w1(2) by auto
  have i: "i < length w'" using w'(2) Cons.prems(3) by simp
  have wi: "w' ! i = ?Q" "take i w' = take i (wqid f)"
    using w'(3) i Cons.prems(3) nth_take[of i "i + 1" w'] nth_take[of i "i + 1" "wqid f1"]
      take_take[of i "i + 1" w'] take_take[of i "i + 1" "wqid f1"]
    by (simp_all add: f1_def upd_def nth_append min_def)
  show ?case using g w1(1) w' wi i q
    by (intro exI[of _ w']) (simp add: take_drop_Suc f1_def add.assoc)
qed

lemma MAXWELEM_16: "n \<le> MAXWELEM \<Longrightarrow> unat (of_nat n :: u16) = n"
  by (rule unat_of_nat_16) (simp add: MAXWELEM_def)

lemma reads_Twalk:
  assumes "has_at b p (body g)" "p + length (body g) \<le> ep" "type f = mtype g" "fcall_ok f" "msg_ok g" "ep \<le> length b"
    "g = MTwalk i n ws"
  shows "reads g p f (m2s_switch b p ep f)"
proof -
  let ?q = "p + BIT32SZ + BIT32SZ + BIT16SZ"
  have l: "length ws \<le> MAXWELEM" "unat (of_nat (length ws) :: u16) = length ws" and short: "\<forall>w\<in>set ws. length w < 65536"
    using assms(5,7) MAXWELEM_16 by (simp_all add: msg_ok_def)
  define f1 where "f1 = f\<lparr>fid := i, newfid := n, nwname := of_nat (length ws)\<rparr>"
  have "has_at b ?q (concat (map enc_str ws))" "?q + length (concat (map enc_str ws)) \<le> ep" "0 + length ws \<le> length (wname f1)"
    using assms l(1) by (simp_all add: fcall_ok_def f1_def add.assoc)
  from m2s_wname_ok[OF this(1) short this(2) assms(6) this(3)] obtain b' w' where
    b: "m2s_wname (length ws) 0 b ?q ep f1 = brk b' (f1\<lparr>wname := w'\<rparr>) (?q + length (concat (map enc_str ws)))"
    "length w' = length (wname f1)"
    "(\<forall>w\<in>set ws. 0 \<notin> set w) \<longrightarrow> those (map (str_of b') (take (length ws) (drop 0 w'))) = Some ws"
    by blast
  show ?thesis using assms(1-4,7) b l
    by (simp add: reads_def m2s_defs m2s_Twalk_def msg_eval gbits nul_free_def fcall_ok_def f1_def add.assoc)
qed

lemma reads_Rwalk:
  assumes "has_at b p (body g)" "p + length (body g) \<le> ep" "type f = mtype g" "fcall_ok f" "msg_ok g" "ep \<le> length b"
    "g = MRwalk qs"
  shows "reads g p f (m2s_switch b p ep f)"
proof -
  let ?q = "p + BIT16SZ"
  have l: "length qs \<le> MAXWELEM" "unat (of_nat (length qs) :: u16) = length qs"
    using assms(5,7) MAXWELEM_16 by (simp_all add: msg_ok_def)
  define f1 where "f1 = f\<lparr>nwqid := of_nat (length qs)\<rparr>"
  have "has_at b ?q (concat (map enc_qid qs))" "?q + length qs * QIDSZ \<le> ep" "0 + length qs \<le> length (wqid f1)"
    using assms l(1) by (simp_all add: fcall_ok_def f1_def add.assoc)
  from m2s_wqid_ok[OF this] obtain w' where
    "m2s_wqid (length qs) 0 b ?q ep f1 = brk b (f1\<lparr>wqid := w'\<rparr>) (?q + length qs * QIDSZ)"
    "length w' = length (wqid f1)" "map qid_of (take (length qs) (drop 0 w')) = qs" by blast
  then show ?thesis using assms(1-4,7) l
    by (simp add: reads_def m2s_defs m2s_Rwalk_def msg_eval gbits nul_free_def fcall_ok_def f1_def add.assoc)
qed

lemma m2s_switch_reads:
  assumes "has_at b p (body g)" "p + length (body g) \<le> ep" "type f = mtype g" "fcall_ok f" "msg_ok g" "ep \<le> length b"
  shows "reads g p f (m2s_switch b p ep f)"
proof (cases "fixed g")
  case True
  then show ?thesis using reads_fixed assms by blast
next
  case False
  note r = reads_string[OF assms] reads_create[OF assms] reads_names[OF assms] reads_Twalk[OF assms]
    reads_Rwalk[OF assms] reads_data[OF assms(1-5)] reads_qid[OF assms(1-4)]
  show ?thesis by (cases g) (use False r in \<open>simp; fail | blast\<close>)+
qed

section \<open>Reading arbitrary bytes\<close>

text \<open>
  A case changes the buffer only between \<open>p\<close> and \<open>ep\<close>, and when it succeeds, a message body of its type
  was at \<open>p\<close>.
\<close>

definition frame :: "byte list \<Rightarrow> byte list \<Rightarrow> nat \<Rightarrow> nat \<Rightarrow> bool" where
  "frame b b' p ep \<longleftrightarrow> length b' = length b \<and> take p b' = take p b \<and> drop ep b' = drop ep b"

definition body_at :: "byte \<Rightarrow> byte list \<Rightarrow> nat \<Rightarrow> nat \<Rightarrow> bool" where
  "body_at t b p e \<longleftrightarrow> (\<exists>g. mtype g = t \<and> parts_ok g \<and> (\<forall>s\<in>set (strs g). length s < 65536) \<and>
     has_at b p (body g) \<and> e = p + length (body g))"

definition parses :: "byte list \<Rightarrow> nat \<Rightarrow> nat \<Rightarrow> byte \<Rightarrow> m2s \<Rightarrow> bool" where
  "parses b p ep t r \<longleftrightarrow> (\<exists>b' f' q. r = Some (b', f', q) \<and> frame b b' p ep \<and>
     (\<forall>e. q = Some e \<longrightarrow> e \<le> ep \<and> body_at t b p e))"

lemma frame_refl [simp]: "frame b b p ep"
  by (simp add: frame_def)

lemma frame_trans: "frame b b1 p ep \<Longrightarrow> frame b1 b2 p ep \<Longrightarrow> frame b b2 p ep"
  by (simp add: frame_def)

lemma frame_mono: "frame b b' q ep \<Longrightarrow> p \<le> q \<Longrightarrow> frame b b' p ep"
  unfolding frame_def by (metis min.absorb1 take_take)

lemma frame_str: "str_read b b' q t ep \<Longrightarrow> p \<le> q \<Longrightarrow> frame b b' p ep"
  using frame_mono[of b b' "q + 1" ep p] by (simp add: str_read_def frame_def)

lemma parses_ret0 [simp]: "frame b b' p ep \<Longrightarrow> parses b p ep t (ret0 b' f)"
  by (simp add: parses_def)

lemma parses_brk:
  assumes "frame b b' p ep" "mtype g = t" "has_at b p (body g)" "e = p + length (body g)" "e \<le> ep"
    "parts_ok g" "\<forall>s\<in>set (strs g). length s < 65536"
  shows "parses b p ep t (brk b' f e)"
  using assms by (auto simp: parses_def body_at_def)

lemma gbit_ex:
  "p + BIT8SZ \<le> length b \<Longrightarrow> \<exists>v. GBIT8 b p = Some v"
  "p + BIT16SZ \<le> length b \<Longrightarrow> \<exists>w. GBIT16 b p = Some w"
  "p + BIT32SZ \<le> length b \<Longrightarrow> \<exists>x. GBIT32 b p = Some x"
  "p + BIT64SZ \<le> length b \<Longrightarrow> \<exists>y. GBIT64 b p = Some y"
  using bit8.get_dec bit16.get_dec bit32.get_dec bit64.get_dec by blast+

lemma gstring_read [consumes 1, case_names nil str]:
  assumes "ep \<le> length b"
  obtains (nil) "gstring b p ep = Some (b, None)"
  | (str) b' t where "gstring b p ep = Some (b', Some (Buf (p + 1), p + length (enc_str t)))"
      "str_read b b' p t ep" "length t < 65536" "has_at b p (enc_str t)" "p + length (enc_str t) \<le> ep"
  using gstring_cases[OF assms, of p] str_read_upd[OF _ assms] by metis

lemma parses_version:
  assumes "ep \<le> length b" "t = Tversion \<or> t = Rversion"
  shows "parses b p ep t (m2s_version b p ep f)"
proof (cases "p + BIT32SZ \<le> ep")
  case True
  then obtain v where v: "GBIT32 b p = Some v" using gbit_ex(3)[of p b] assms(1) by auto
  obtain g where g: "\<And>s. mtype (g s) = t \<and> body (g s) = PBIT32 v @ enc_str s \<and> strs (g s) = [s] \<and> parts_ok (g s)"
    using assms(2)
  proof
    assume "t = Tversion" then show thesis using that[of "MTversion v"] by simp
  next
    assume "t = Rversion" then show thesis using that[of "MRversion v"] by simp
  qed
  show ?thesis using assms(1)
  proof (cases rule: gstring_read[where p = "p + BIT32SZ"])
    case nil
    then show ?thesis using v by (simp add: m2s_version_def)
  next
    case (str b' s)
    have "parses b p ep t (brk b' (f\<lparr>msize := v, version := Buf (p + BIT32SZ + 1)\<rparr>) (p + BIT32SZ + length (enc_str s)))"
      by (rule parses_brk[of b b' p ep "g s"]) (use str g[of s] v frame_str in \<open>auto simp: gbits add.assoc\<close>)
    then show ?thesis using str(1) v True by (simp add: m2s_version_def)
  qed
qed (simp add: m2s_version_def)

lemma parses_flush:
  assumes "ep \<le> length b"
  shows "parses b p ep Tflush (m2s_flush b p ep f)"
proof (cases "p + BIT16SZ \<le> ep")
  case True
  then obtain v where v: "GBIT16 b p = Some v" using gbit_ex(2)[of p b] assms(1) by auto
  then show ?thesis using True
    by (auto simp: m2s_flush_def gbits intro!: parses_brk[where g = "MTflush v"])
qed (simp add: m2s_flush_def)

lemma parses_open:
  assumes "ep \<le> length b" "t = Topen \<or> t = Topenfd"
  shows "parses b p ep t (m2s_open b p ep f)"
proof (cases "p + BIT32SZ + BIT8SZ \<le> ep")
  case True
  then obtain v w where v: "GBIT32 b p = Some v" "GBIT8 b (p + BIT32SZ) = Some w"
    using gbit_ex(3)[of p b] gbit_ex(1)[of "p + BIT32SZ" b] assms(1) by auto
  show ?thesis using assms(2)
  proof
    assume "t = Topen" then show ?thesis using v True
      by (auto simp: m2s_open_def gbits add.assoc intro!: parses_brk[where g = "MTopen v w"])
  next
    assume "t = Topenfd" then show ?thesis using v True
      by (auto simp: m2s_open_def gbits add.assoc intro!: parses_brk[where g = "MTopenfd v w"])
  qed
qed (simp add: m2s_open_def)

lemma parses_io:
  assumes "ep \<le> length b"
  shows "parses b p ep Tread (m2s_Tread b p ep f)" "parses b p ep Twrite (m2s_Twrite b p ep f)"
proof -
  let ?q = "p + BIT32SZ + BIT64SZ + BIT32SZ"
  have "parses b p ep Tread (m2s_Tread b p ep f) \<and> parses b p ep Twrite (m2s_Twrite b p ep f)"
  proof (cases "?q \<le> ep")
    case True
    then obtain v w n where v: "GBIT32 b p = Some v" "GBIT64 b (p + BIT32SZ) = Some w"
      "GBIT32 b (p + BIT32SZ + BIT64SZ) = Some n"
      using gbit_ex(3)[of p b] gbit_ex(4)[of "p + BIT32SZ" b] gbit_ex(3)[of "p + BIT32SZ + BIT64SZ" b] assms(1) by auto
    have "parses b p ep Tread (m2s_Tread b p ep f)" using v True
      by (auto simp: m2s_Tread_def gbits add.assoc intro!: parses_brk[where g = "MTread v w n"])
    moreover have "parses b p ep Twrite (m2s_Twrite b p ep f)" if "?q + unat n \<le> ep"
    proof -
      let ?d = "take (unat n) (drop ?q b)"
      have "length ?d = unat n" using that assms by simp
      moreover have "has_at b ?q ?d" using that assms by (intro has_at_take) simp
      ultimately have "parses b p ep Twrite (brk b (f\<lparr>fid := v, offset := w, count := n, data := Buf ?q\<rparr>) (?q + unat n))"
        using v that by (intro parses_brk[where g = "MTwrite v w ?d"]) (simp_all add: gbits add.assoc)
      then show ?thesis using v that by (simp add: m2s_Twrite_def Let_def)
    qed
    ultimately show ?thesis using v by (cases "?q + unat n \<le> ep") (auto simp: m2s_Twrite_def)
  qed (simp add: m2s_Tread_def m2s_Twrite_def)
  then show "parses b p ep Tread (m2s_Tread b p ep f)" "parses b p ep Twrite (m2s_Twrite b p ep f)" by auto
qed

lemma parses_fid:
  assumes "ep \<le> length b" "t = Tclunk \<or> t = Tremove \<or> t = Tstat"
  shows "parses b p ep t (m2s_fid b p ep f)"
proof (cases "p + BIT32SZ \<le> ep")
  case True
  then obtain v where v: "GBIT32 b p = Some v" using gbit_ex(3)[of p b] assms(1) by auto
  obtain g where g: "mtype g = t" "body g = PBIT32 v" "strs g = []" "parts_ok g"
    using assms(2) that[of "MTclunk v"] that[of "MTremove v"] that[of "MTstat v"] by auto
  show ?thesis using v True
    by (auto simp: m2s_fid_def g gbits intro!: parses_brk[where g = g])
qed (simp add: m2s_fid_def)

lemma parses_Rwrite:
  assumes "ep \<le> length b"
  shows "parses b p ep Rwrite (m2s_Rwrite b p ep f)"
proof (cases "p + BIT32SZ \<le> ep")
  case True
  then obtain v where v: "GBIT32 b p = Some v" using gbit_ex(3)[of p b] assms(1) by auto
  then show ?thesis using True
    by (auto simp: m2s_Rwrite_def gbits intro!: parses_brk[where g = "MRwrite v"])
qed (simp add: m2s_Rwrite_def)

lemma parses_Rread:
  assumes "ep \<le> length b"
  shows "parses b p ep Rread (m2s_Rread b p ep f)"
proof (cases "p + BIT32SZ \<le> ep")
  case True
  let ?q = "p + BIT32SZ"
  obtain n where v: "GBIT32 b p = Some n" using gbit_ex(3)[of p b] assms(1) True by auto
  show ?thesis
  proof (cases "?q + unat n \<le> ep")
    case le: True
    let ?d = "take (unat n) (drop ?q b)"
    have "length ?d = unat n" using le assms by simp
    moreover have "has_at b ?q ?d" using le assms by (intro has_at_take) simp
    ultimately have "parses b p ep Rread (brk b (f\<lparr>count := n, data := Buf ?q\<rparr>) (?q + unat n))"
      using v le by (intro parses_brk[where g = "MRread ?d"]) (simp_all add: gbits add.assoc)
    then show ?thesis using v le by (simp add: m2s_Rread_def Let_def)
  qed (use v in \<open>simp add: m2s_Rread_def\<close>)
qed (simp add: m2s_Rread_def)

lemma parses_stat:
  assumes "ep \<le> length b"
  shows "parses b p ep Rstat (m2s_Rstat b p ep f)"
proof (cases "p + BIT16SZ \<le> ep")
  case True
  let ?q = "p + BIT16SZ"
  obtain n where v: "GBIT16 b p = Some n" using gbit_ex(2)[of p b] assms(1) True by auto
  show ?thesis
  proof (cases "?q + unat n \<le> ep")
    case le: True
    let ?d = "take (unat n) (drop ?q b)"
    have "length ?d = unat n" using le assms by simp
    moreover have "has_at b ?q ?d" using le assms by (intro has_at_take) simp
    moreover have "unat n < 65536" using unsigned_less[of n] by simp
    ultimately have "parses b p ep Rstat (brk b (f\<lparr>nstat := n, stat := Buf ?q\<rparr>) (?q + unat n))"
      using v le by (intro parses_brk[where g = "MRstat ?d"]) (simp_all add: gbits add.assoc)
    then show ?thesis using v le by (simp add: m2s_Rstat_def Let_def)
  qed (use v in \<open>simp add: m2s_Rstat_def\<close>)
qed (simp add: m2s_Rstat_def)

lemma parses_Twstat:
  assumes "ep \<le> length b"
  shows "parses b p ep Twstat (m2s_Twstat b p ep f)"
proof (cases "p + BIT32SZ + BIT16SZ \<le> ep")
  case True
  let ?q = "p + BIT32SZ + BIT16SZ"
  obtain i n where v: "GBIT32 b p = Some i" "GBIT16 b (p + BIT32SZ) = Some n"
    using gbit_ex(3)[of p b] gbit_ex(2)[of "p + BIT32SZ" b] assms(1) True by auto
  show ?thesis
  proof (cases "?q + unat n \<le> ep")
    case le: True
    let ?d = "take (unat n) (drop ?q b)"
    have "length ?d = unat n" using le assms by simp
    moreover have "has_at b ?q ?d" using le assms by (intro has_at_take) simp
    moreover have "unat n < 65536" using unsigned_less[of n] by simp
    ultimately have "parses b p ep Twstat (brk b (f\<lparr>fid := i, nstat := n, stat := Buf ?q\<rparr>) (?q + unat n))"
      using v le by (intro parses_brk[where g = "MTwstat i ?d"]) (simp_all add: gbits add.assoc)
    then show ?thesis using v le by (simp add: m2s_Twstat_def Let_def)
  qed (use v in \<open>simp add: m2s_Twstat_def\<close>)
qed (simp add: m2s_Twstat_def)

lemma parses_Rerror:
  assumes "ep \<le> length b"
  shows "parses b p ep Rerror (m2s_Rerror b p ep f)"
  using assms
proof (cases rule: gstring_read[where p = p])
  case nil
  then show ?thesis by (simp add: m2s_Rerror_def)
next
  case (str b' s)
  then show ?thesis using frame_str[OF str(2), of p]
    by (auto simp: m2s_Rerror_def intro!: parses_brk[where g = "MRerror s"])
qed

lemma parses_create:
  assumes "ep \<le> length b"
  shows "parses b p ep Tcreate (m2s_create b p ep f)"
proof (cases "p + BIT32SZ \<le> ep")
  case True
  then obtain v where v: "GBIT32 b p = Some v" using gbit_ex(3)[of p b] assms by auto
  show ?thesis using assms
  proof (cases rule: gstring_read[where p = "p + BIT32SZ"])
    case nil
    then show ?thesis using v by (simp add: m2s_create_def)
  next
    case (str b' s)
    let ?e = "p + BIT32SZ + length (enc_str s)"
    have fr: "frame b b' p ep" using frame_str[OF str(2)] by simp
    show ?thesis
    proof (cases "?e + BIT32SZ + BIT8SZ \<le> ep")
      case False
      then show ?thesis using str(1) v True fr by (simp add: m2s_create_def)
    next
      case le: True
      have l: "?e + BIT32SZ \<le> length b'" "?e + BIT32SZ + BIT8SZ \<le> length b'" using le str_readD(1)[OF str(2)] assms by auto
      then obtain w x where w: "GBIT32 b' ?e = Some w" "GBIT8 b' (?e + BIT32SZ) = Some x"
        using gbit_ex(3)[of ?e b'] gbit_ex(1)[of "?e + BIT32SZ" b'] by auto
      then have "has_at b ?e (PBIT32 w)" "has_at b (?e + BIT32SZ) (PBIT8 x)"
        using str_readD(3)[OF str(2)] by (auto simp: bit32.get_iff bit8.get_iff)
      then have "parses b p ep Tcreate (brk b' (f\<lparr>fid := v, name := Buf (p + BIT32SZ + 1), perm := w, mode := x\<rparr>) (?e + BIT32SZ + BIT8SZ))"
        using v str fr le by (intro parses_brk[where g = "MTcreate v s w x"]) (simp_all add: gbits add.assoc)
      then show ?thesis using str(1) v w True le by (simp add: m2s_create_def)
    qed
  qed
qed (simp add: m2s_create_def)

lemma m2s_names_parse:
  assumes "ep \<le> length b"
  shows "\<exists>b' f' r. m2s_names b p ep f = Some (b', f', r) \<and> frame b b' p ep \<and>
    (\<forall>e. r = Some e \<longrightarrow> e \<le> ep \<and> (\<exists>u a. length u < 65536 \<and> length a < 65536 \<and>
       has_at b p (enc_str u @ enc_str a) \<and> e = p + length (enc_str u @ enc_str a)))"
  using assms
proof (cases rule: gstring_read[where p = p])
  case nil
  then show ?thesis by (simp add: m2s_names_def)
next
  case (str b1 u)
  let ?q = "p + length (enc_str u)"
  have f1: "frame b b1 p ep" using frame_str[OF str(2)] by simp
  have "ep \<le> length b1" using str_readD(1)[OF str(2)] assms by simp
  then show ?thesis
  proof (cases rule: gstring_read[where p = ?q])
    case nil
    then show ?thesis using str(1) f1 by (simp add: m2s_names_def)
  next
    case (str b2 a)
    have "frame b1 b2 p ep" using frame_str[OF str(2)] by simp
    then have "frame b b2 p ep" using f1 frame_trans by blast
    moreover have "has_at b ?q (enc_str a)" using str(4) str_readD(3)[OF \<open>str_read b b1 p u ep\<close>] by blast
    ultimately show ?thesis using str \<open>gstring b p ep = _\<close> \<open>length u < 65536\<close> \<open>has_at b p (enc_str u)\<close>
      by (simp add: m2s_names_def add.assoc) (rule exI[of _ u], auto)
  qed
qed

lemma parses_auth:
  assumes "ep \<le> length b"
  shows "parses b p ep Tauth (m2s_auth b p ep f)"
proof (cases "p + BIT32SZ \<le> ep")
  case True
  then obtain v where v: "GBIT32 b p = Some v" using gbit_ex(3)[of p b] assms(1) by auto
  obtain b' f' r where n: "m2s_names b (p + BIT32SZ) ep (f\<lparr>afid := v\<rparr>) = Some (b', f', r)" "frame b b' (p + BIT32SZ) ep"
    "\<forall>e. r = Some e \<longrightarrow> e \<le> ep \<and> (\<exists>u a. length u < 65536 \<and> length a < 65536 \<and>
       has_at b (p + BIT32SZ) (enc_str u @ enc_str a) \<and> e = p + BIT32SZ + length (enc_str u @ enc_str a))"
    using m2s_names_parse[OF assms, of "p + BIT32SZ" "f\<lparr>afid := v\<rparr>"] by blast
  have fr: "frame b b' p ep" using frame_mono[OF n(2)] by simp
  have "parses b p ep Tauth (Some (b', f', r))"
  proof (cases r)
    case (Some e)
    then obtain u a where ua: "e \<le> ep" "length u < 65536" "length a < 65536"
       "has_at b (p + BIT32SZ) (enc_str u @ enc_str a)" "e = p + BIT32SZ + length (enc_str u @ enc_str a)" using n(3) by blast
    show ?thesis unfolding Some
      by (rule parses_brk[where g = "MTauth v u a"]) (use ua v fr in \<open>simp_all add: gbits add.assoc\<close>)
  qed (simp add: fr)
  then show ?thesis using v n(1) True by (simp add: m2s_auth_def)
qed (simp add: m2s_auth_def)

lemma parses_attach:
  assumes "ep \<le> length b"
  shows "parses b p ep Tattach (m2s_attach b p ep f)"
proof (cases "p + BIT32SZ + BIT32SZ \<le> ep")
  case True
  let ?q = "p + BIT32SZ + BIT32SZ"
  obtain i v where v: "GBIT32 b p = Some i" "GBIT32 b (p + BIT32SZ) = Some v"
    using gbit_ex(3)[of p b] gbit_ex(3)[of "p + BIT32SZ" b] assms(1) True by auto
  obtain b' f' r where n: "m2s_names b ?q ep (f\<lparr>fid := i, afid := v\<rparr>) = Some (b', f', r)" "frame b b' ?q ep"
    "\<forall>e. r = Some e \<longrightarrow> e \<le> ep \<and> (\<exists>u a. length u < 65536 \<and> length a < 65536 \<and>
       has_at b ?q (enc_str u @ enc_str a) \<and> e = ?q + length (enc_str u @ enc_str a))"
    using m2s_names_parse[OF assms, of ?q "f\<lparr>fid := i, afid := v\<rparr>"] by blast
  have fr: "frame b b' p ep" using frame_mono[OF n(2)] by simp
  have "parses b p ep Tattach (Some (b', f', r))"
  proof (cases r)
    case (Some e)
    then obtain u a where ua: "e \<le> ep" "length u < 65536" "length a < 65536"
       "has_at b ?q (enc_str u @ enc_str a)" "e = ?q + length (enc_str u @ enc_str a)" using n(3) by blast
    show ?thesis unfolding Some
      by (rule parses_brk[where g = "MTattach i v u a"]) (use ua v fr in \<open>simp_all add: gbits add.assoc\<close>)
  qed (simp add: fr)
  then show ?thesis using v n(1) True by (simp add: m2s_attach_def add.assoc)
next
  case False
  then show ?thesis using gbit_ex(3)[of p b] assms by (auto simp: m2s_attach_def)
qed

lemma m2s_wname_parse:
  assumes "ep \<le> length b" "i + n \<le> length (wname f)" "p \<le> ep"
  shows "\<exists>b' f' r. m2s_wname n i b p ep f = Some (b', f', r) \<and> frame b b' p ep \<and>
    (\<forall>e. r = Some e \<longrightarrow> e \<le> ep \<and> (\<exists>ws. length ws = n \<and> (\<forall>w\<in>set ws. length w < 65536) \<and>
       has_at b p (concat (map enc_str ws)) \<and> e = p + length (concat (map enc_str ws))))"
  using assms
proof (induction n arbitrary: i b p f)
  case 0
  then show ?case by auto
next
  case (Suc n)
  from Suc.prems(1) show ?case
  proof (cases rule: gstring_read[where p = p])
    case nil
    then show ?thesis by simp
  next
    case (str b1 t)
    let ?q = "p + length (enc_str t)"
    have f1: "frame b b1 p ep" using frame_str[OF str(2)] by simp
    define f1 where "f1 = f\<lparr>wname := upd (wname f) i [Buf (p + 1)]\<rparr>"
    have w: "wr (wname f) i [Buf (p + 1)] = Some (wname f1)" "i + 1 + n \<le> length (wname f1)"
      using Suc.prems(2) by (simp_all add: wr_def f1_def)
    have "ep \<le> length b1" using str_readD(1)[OF str(2)] Suc.prems(1) by simp
    from Suc.IH[OF this w(2) str(5)] obtain b' f' r where
      r: "m2s_wname n (i + 1) b1 ?q ep f1 = Some (b', f', r)" "frame b1 b' ?q ep"
      "\<And>e. r = Some e \<Longrightarrow> e \<le> ep \<and> (\<exists>ws. length ws = n \<and> (\<forall>w\<in>set ws. length w < 65536) \<and>
       has_at b1 ?q (concat (map enc_str ws)) \<and> e = ?q + length (concat (map enc_str ws)))" by blast
    have fr: "frame b b' p ep" using frame_trans[OF f1 frame_mono[OF r(2)]] by simp
    have "\<exists>ws. length ws = Suc n \<and> (\<forall>w\<in>set ws. length w < 65536) \<and>
       has_at b p (concat (map enc_str ws)) \<and> e = p + length (concat (map enc_str ws))" if e: "r = Some e" for e
    proof -
      from r(3)[OF e] obtain ws where ws: "length ws = n" "\<forall>w\<in>set ws. length w < 65536"
        "has_at b1 ?q (concat (map enc_str ws))" "e = ?q + length (concat (map enc_str ws))" by blast
      then have "has_at b ?q (concat (map enc_str ws))" using str_readD(3)[OF str(2)] by blast
      then show ?thesis using ws str(3,4) by (intro exI[of _ "t # ws"]) (simp add: add.assoc)
    qed
    moreover have "m2s_wname (Suc n) i b p ep f = Some (b', f', r)"
      using str(1) w(1) r(1) by (simp add: f1_def)
    ultimately show ?thesis using fr r(3) by blast
  qed
qed

lemma parses_Twalk:
  assumes "ep \<le> length b" "fcall_ok f"
  shows "parses b p ep Twalk (m2s_Twalk b p ep f)"
proof (cases "p + BIT32SZ + BIT32SZ + BIT16SZ \<le> ep")
  case True
  let ?q = "p + BIT32SZ + BIT32SZ + BIT16SZ"
  obtain i j n where v: "GBIT32 b p = Some i" "GBIT32 b (p + BIT32SZ) = Some j" "GBIT16 b (p + BIT32SZ + BIT32SZ) = Some n"
    using gbit_ex(3)[of p b] gbit_ex(3)[of "p + BIT32SZ" b] gbit_ex(2)[of "p + BIT32SZ + BIT32SZ" b] assms(1) True by auto
  show ?thesis
  proof (cases "unat n \<le> MAXWELEM")
    case le: True
    define f1 where "f1 = f\<lparr>fid := i, newfid := j, nwname := n\<rparr>"
    have "0 + unat n \<le> length (wname f1)" using le assms(2) by (simp add: fcall_ok_def f1_def)
    from m2s_wname_parse[OF assms(1) this True] obtain b' f' r where
      r: "m2s_wname (unat n) 0 b ?q ep f1 = Some (b', f', r)" "frame b b' ?q ep"
      "\<And>e. r = Some e \<Longrightarrow> e \<le> ep \<and> (\<exists>ws. length ws = unat n \<and> (\<forall>w\<in>set ws. length w < 65536) \<and>
       has_at b ?q (concat (map enc_str ws)) \<and> e = ?q + length (concat (map enc_str ws)))" by blast
    have fr: "frame b b' p ep" using frame_mono[OF r(2)] by simp
    have "parses b p ep Twalk (Some (b', f', r))"
    proof (cases r)
      case (Some e)
      from r(3)[OF this] obtain ws where ws: "e \<le> ep" "length ws = unat n" "\<forall>w\<in>set ws. length w < 65536"
        "has_at b ?q (concat (map enc_str ws))" "e = ?q + length (concat (map enc_str ws))" by blast
      show ?thesis unfolding Some
        by (rule parses_brk[where g = "MTwalk i j ws"]) (use ws v fr le in \<open>simp_all add: gbits add.assoc\<close>)
    qed (simp add: fr)
    then show ?thesis using v True le r(1) by (simp add: m2s_Twalk_def f1_def)
  qed (use v True in \<open>simp add: m2s_Twalk_def\<close>)
qed (simp add: m2s_Twalk_def)


lemma parses_qid:
  assumes "ep \<le> length b"
  shows "parses b p ep Rauth (m2s_Rauth b p ep f)" "parses b p ep Rattach (m2s_Rattach b p ep f)"
proof -
  have "parses b p ep Rauth (m2s_Rauth b p ep f) \<and> parses b p ep Rattach (m2s_Rattach b p ep f)"
    using assms
  proof (rule gqid_cases[where p = p])
    fix t v a
    assume "has_at b p (enc_qid (t, v, a))" "p + QIDSZ \<le> ep"
      "gqid b p ep = Some (Some (\<lparr>path = a, vers = ucast v, qtype = t\<rparr>, p + QIDSZ))"
    then show ?thesis
      using parses_brk[where g = "MRauth (t, v, a)"] parses_brk[where g = "MRattach (t, v, a)"]
      by (simp add: m2s_Rauth_def m2s_Rattach_def del: enc_qid.simps)
  qed (simp add: m2s_Rauth_def m2s_Rattach_def)
  then show "parses b p ep Rauth (m2s_Rauth b p ep f)" "parses b p ep Rattach (m2s_Rattach b p ep f)" by auto
qed

lemma parses_Ropen:
  assumes "ep \<le> length b" "type f = Ropen \<or> type f = Rcreate \<or> type f = Ropenfd"
  shows "parses b p ep (type f) (m2s_Ropen b p ep f)"
  using assms(1)
proof (rule gqid_cases[where p = p])
  fix t v a
  assume q: "has_at b p (enc_qid (t, v, a))" "p + QIDSZ \<le> ep"
    "gqid b p ep = Some (Some (\<lparr>path = a, vers = ucast v, qtype = t\<rparr>, p + QIDSZ))"
  show ?thesis
  proof (cases "p + QIDSZ + BIT32SZ \<le> ep")
    case True
    then obtain io where io: "GBIT32 b (p + QIDSZ) = Some io" using gbit_ex(3)[of "p + QIDSZ" b] assms(1) by auto
    show ?thesis
    proof (cases "type f = Ropenfd")
      case fd: True
      show ?thesis
      proof (cases "p + QIDSZ + BIT32SZ + BIT32SZ \<le> ep")
        case le: True
        then obtain n where n: "GBIT32 b (p + QIDSZ + BIT32SZ) = Some n"
          using gbit_ex(3)[of "p + QIDSZ + BIT32SZ" b] assms(1) by auto
        then show ?thesis using q io fd True le
          by (auto simp: m2s_Ropen_def gbits add.assoc simp del: enc_qid.simps
            intro!: parses_brk[where g = "MRopenfd (t, v, a) io n"])
      qed (use q io fd in \<open>simp add: m2s_Ropen_def Let_def\<close>)
    next
      case False
      then have "type f = Ropen \<or> type f = Rcreate" using assms(2) by blast
      then show ?thesis
      proof
        assume "type f = Ropen" then show ?thesis using q io False True
          by (auto simp: m2s_Ropen_def gbits add.assoc simp del: enc_qid.simps
            intro!: parses_brk[where g = "MRopen (t, v, a) io"])
      next
        assume "type f = Rcreate" then show ?thesis using q io False True
          by (auto simp: m2s_Ropen_def gbits add.assoc simp del: enc_qid.simps
            intro!: parses_brk[where g = "MRcreate (t, v, a) io"])
      qed
    qed
  qed (use q in \<open>simp add: m2s_Ropen_def Let_def\<close>)
qed (simp add: m2s_Ropen_def)

lemma m2s_wqid_parse:
  assumes "ep \<le> length b" "i + n \<le> length (wqid f)" "p \<le> ep"
  shows "\<exists>f' r. m2s_wqid n i b p ep f = Some (b, f', r) \<and>
    (\<forall>e. r = Some e \<longrightarrow> e \<le> ep \<and> (\<exists>qs. length qs = n \<and> has_at b p (concat (map enc_qid qs)) \<and> e = p + n * QIDSZ))"
  using assms
proof (induction n arbitrary: i p f)
  case 0
  then show ?case by auto
next
  case (Suc n)
  from Suc.prems(1) show ?case
  proof (rule gqid_cases[where p = p])
    fix t v a
    assume q: "has_at b p (enc_qid (t, v, a))" "p + QIDSZ \<le> ep"
      "gqid b p ep = Some (Some (\<lparr>path = a, vers = ucast v, qtype = t\<rparr>, p + QIDSZ))"
    define f1 where "f1 = f\<lparr>wqid := upd (wqid f) i [\<lparr>path = a, vers = ucast v, qtype = t\<rparr>]\<rparr>"
    have w: "wr (wqid f) i [\<lparr>path = a, vers = ucast v, qtype = t\<rparr>] = Some (wqid f1)" "i + 1 + n \<le> length (wqid f1)"
      using Suc.prems(2) by (simp_all add: wr_def f1_def)
    from Suc.IH[OF Suc.prems(1) w(2) q(2)] obtain f' r where
      r: "m2s_wqid n (i + 1) b (p + QIDSZ) ep f1 = Some (b, f', r)"
      "\<And>e. r = Some e \<Longrightarrow> e \<le> ep \<and> (\<exists>qs. length qs = n \<and> has_at b (p + QIDSZ) (concat (map enc_qid qs)) \<and> e = p + QIDSZ + n * QIDSZ)"
      by blast
    have "\<exists>qs. length qs = Suc n \<and> has_at b p (concat (map enc_qid qs)) \<and> e = p + Suc n * QIDSZ" if e: "r = Some e" for e
    proof -
      from r(2)[OF e] obtain qs where "length qs = n" "has_at b (p + QIDSZ) (concat (map enc_qid qs))" "e = p + QIDSZ + n * QIDSZ" by blast
      then show ?thesis using q(1) by (intro exI[of _ "(t, v, a) # qs"]) (simp del: enc_qid.simps)
    qed
    moreover have "m2s_wqid (Suc n) i b p ep f = Some (b, f', r)" using q(3) w(1) r(1) by (simp add: f1_def)
    ultimately show ?thesis using r(2) by blast
  qed simp
qed

lemma parses_Rwalk:
  assumes "ep \<le> length b" "fcall_ok f"
  shows "parses b p ep Rwalk (m2s_Rwalk b p ep f)"
proof (cases "p + BIT16SZ \<le> ep")
  case True
  let ?q = "p + BIT16SZ"
  obtain n where v: "GBIT16 b p = Some n" using gbit_ex(2)[of p b] assms(1) True by auto
  show ?thesis
  proof (cases "unat n \<le> MAXWELEM")
    case le: True
    define f1 where "f1 = f\<lparr>nwqid := n\<rparr>"
    have "0 + unat n \<le> length (wqid f1)" using le assms(2) by (simp add: fcall_ok_def f1_def)
    from m2s_wqid_parse[OF assms(1) this True] obtain f' r where
      r: "m2s_wqid (unat n) 0 b ?q ep f1 = Some (b, f', r)"
      "\<And>e. r = Some e \<Longrightarrow> e \<le> ep \<and> (\<exists>qs. length qs = unat n \<and> has_at b ?q (concat (map enc_qid qs)) \<and> e = ?q + unat n * QIDSZ)"
      by blast
    have "parses b p ep Rwalk (Some (b, f', r))"
    proof (cases r)
      case (Some e)
      from r(2)[OF this] obtain qs where qs: "e \<le> ep" "length qs = unat n"
        "has_at b ?q (concat (map enc_qid qs))" "e = ?q + unat n * QIDSZ" by blast
      show ?thesis unfolding Some
        by (rule parses_brk[where g = "MRwalk qs"]) (use qs v le in \<open>simp_all add: gbits add.assoc\<close>)
    qed simp
    then show ?thesis using v True le r(1) by (simp add: m2s_Rwalk_def f1_def)
  qed (use v True in \<open>simp add: m2s_Rwalk_def\<close>)
qed (simp add: m2s_Rwalk_def)

lemma m2s_switch_parses:
  assumes "ep \<le> length b" "p \<le> ep" "fcall_ok f"
  shows "parses b p ep (type f) (m2s_switch b p ep f)"
proof -
  have "parses b p ep (mtype g) (brk b f p)" if "body g = []" "strs g = []" "parts_ok g" for g
    using that assms by (intro parses_brk[where g = g]) auto
  note e = this[of MRflush, simplified] this[of MRclunk, simplified] this[of MRremove, simplified]
    this[of MRwstat, simplified]
  note ps = parses_version[OF assms(1)] parses_flush[OF assms(1)] parses_auth[OF assms(1)] parses_attach[OF assms(1)]
    parses_Twalk[OF assms(1,3)] parses_open[OF assms(1)] parses_create[OF assms(1)] parses_io[OF assms(1)]
    parses_fid[OF assms(1)] parses_Twstat[OF assms(1)] parses_Rerror[OF assms(1)] parses_qid[OF assms(1)]
    parses_Rwalk[OF assms(1,3)] parses_Ropen[OF assms(1)] parses_Rread[OF assms(1)] parses_Rwrite[OF assms(1)]
    parses_stat[OF assms(1)]
  have parses_if: "parses b p ep t (if c then x else y)"
    if "c \<Longrightarrow> parses b p ep t x" "\<not> c \<Longrightarrow> parses b p ep t y" for t c x y using that by simp
  have op: "parses b p ep t (m2s_Ropen b p ep f)" if "type f = t" "t = Ropen \<or> t = Rcreate \<or> t = Ropenfd" for t
    using parses_Ropen[OF assms(1)] that by metis
  show ?thesis unfolding m2s_switch_def m2s_R_def
    by (intro parses_if) (auto simp: ps e op)
qed

section \<open>The conversions\<close>

lemma HDR: "BIT32SZ + BIT8SZ + BIT16SZ = 7"
  by (simp add: bitsz)

lemma length_wire [simp]: "length (wire t g) = BIT32SZ + BIT8SZ + BIT16SZ + length (body g)"
  by (simp add: wire_def)

lemma convS2M_wire:
  assumes "msg_of m f = Some g" "fcall_ok f" "msg_ok g" "nap \<le> length b"
  shows "convS2M m f b nap = Some (if length (wire (tag f) g) \<le> nap
    then (upd b 0 (wire (tag f) g), of_nat (length (wire (tag f) g))) else (b, 0))"
proof -
  let ?n = "BIT32SZ + BIT8SZ + BIT16SZ + length (body g)"
  define N :: u32 where "N = of_nat ?n"
  let ?h = "PBIT32 N @ PBIT8 (mtype g) @ PBIT16 (tag f)"
  have n: "unat N = ?n" unfolding N_def using assms(3) by (intro unat_of_nat_32) (simp add: msg_ok_def)
  then have n0: "N \<noteq> 0" using HDR by (metis add_is_0 unsigned_0 zero_neq_numeral)
  have s: "sizeS2M m f = Some N" using sizeS2M_body[OF assms(1,2)] by (simp only: N_def)
  have w: "wire (tag f) g = ?h @ body g" by (simp only: wire_def N_def append_assoc)
  have "Option.bind (wr b 0 ?h) (\<lambda>b. s2m_switch m b (0 + length ?h) f) =
      Option.bind (wr b 0 (?h @ body g)) (\<lambda>b. Some (b, Some (0 + length ?h + length (body g))))"
    by (rule wr_then, rule s2m_switch_body) (use assms strs_short in auto)
  then have sw: "Option.bind (wr b 0 ?h) (\<lambda>b. s2m_switch m b (BIT32SZ + BIT8SZ + BIT16SZ) f) =
      Option.bind (wr b 0 (wire (tag f) g)) (\<lambda>b. Some (b, Some ?n))"
    by (simp add: w add.assoc)
  have "Option.bind (wr b 0 (PBIT32 N)) (\<lambda>b. Option.bind (wr b BIT32SZ (PBIT8 (mtype g)))
      (\<lambda>b. Option.bind (wr b (BIT32SZ + BIT8SZ) (PBIT16 (tag f)))
      (\<lambda>b. Option.bind (s2m_switch m b (BIT32SZ + BIT8SZ + BIT16SZ) f) k))) =
      Option.bind (Option.bind (wr b 0 ?h) (\<lambda>b. s2m_switch m b (BIT32SZ + BIT8SZ + BIT16SZ) f)) k"
    for k :: "byte list \<times> nat option \<Rightarrow> (byte list \<times> u32) option"
    by (simp add: wr_seq)
  then have "convS2M m f b nap = (if nap < ?n then Some (b, 0)
      else Option.bind (wr b 0 (wire (tag f) g)) (\<lambda>b. Some (b, N)))"
    using s n n0 msg_of_type[OF assms(1)] by (simp add: convS2M_def sw)
  then show ?thesis using assms(4)
    by (simp add: wr_Some N_def[symmetric] del: of_nat_add)
qed

lemma convM2S_parses:
  assumes "nap \<le> length b" "fcall_ok f"
  shows "\<exists>b' f' r. convM2S b nap f = Some (b', f', r) \<and> frame b b' 0 nap \<and>
    (r \<noteq> 0 \<longrightarrow> (\<exists>t g. msg_ok g \<and> has_at b 0 (wire t g) \<and> unat r = length (wire t g) \<and> unat r \<le> nap))"
proof (cases "BIT32SZ + BIT8SZ + BIT16SZ \<le> nap")
  case False
  then show ?thesis by (simp add: convM2S_def)
next
  case True
  then obtain size y t where g: "GBIT32 b 0 = Some size" "GBIT8 b BIT32SZ = Some y" "GBIT16 b (BIT32SZ + BIT8SZ) = Some t"
    using gbit_ex(3)[of 0 b] gbit_ex(1)[of BIT32SZ b] gbit_ex(2)[of "BIT32SZ + BIT8SZ" b] assms(1) by auto
  show ?thesis
  proof (cases "unat size < BIT32SZ + BIT8SZ + BIT16SZ")
    case small: True
    then show ?thesis using g True by (simp add: convM2S_def)
  next
    case big: False
    define f1 where "f1 = f\<lparr>type := y, tag := t\<rparr>"
    have "fcall_ok f1" using assms(2) by (simp add: fcall_ok_def f1_def)
    from m2s_switch_parses[OF assms(1) True this] obtain b' f' q where
      sw: "m2s_switch b (BIT32SZ + BIT8SZ + BIT16SZ) nap f1 = Some (b', f', q)" "frame b b' (BIT32SZ + BIT8SZ + BIT16SZ) nap"
      "\<forall>e. q = Some e \<longrightarrow> e \<le> nap \<and> body_at y b (BIT32SZ + BIT8SZ + BIT16SZ) e"
      unfolding parses_def by (auto simp: f1_def)
    have fr: "frame b b' 0 nap" using frame_mono[OF sw(2)] by simp
    have eval: "convM2S b nap f = Some (b', f', if q = Some (unat size) \<and> unat size \<le> nap then size else 0)"
      using True g big sw(1) by (auto simp: convM2S_def f1_def split: option.splits)
    have "\<exists>t g. msg_ok g \<and> has_at b 0 (wire t g) \<and> unat size = length (wire t g)" if "q = Some (unat size)"
    proof -
      from sw(3) that obtain h where h: "mtype h = y" "parts_ok h" "\<forall>s\<in>set (strs h). length s < 65536"
        "has_at b (BIT32SZ + BIT8SZ + BIT16SZ) (body h)" "unat size = BIT32SZ + BIT8SZ + BIT16SZ + length (body h)"
        unfolding body_at_def by blast
      have "of_nat (BIT32SZ + BIT8SZ + BIT16SZ + length (body h)) = size" 
        by (simp flip: h(5) del: of_nat_add)
      then have "has_at b 0 (wire t h)" using h g
        by (simp add: wire_def gbits del: of_nat_add)
      moreover have "msg_ok h" using h unat_u32_bound[of size] by (simp add: msg_ok_def)
      ultimately show ?thesis using h(5) by auto
    qed
    then show ?thesis using eval fr by (cases "q = Some (unat size) \<and> unat size \<le> nap") auto
  qed
qed

lemma convM2S_reads:
  assumes "has_at b 0 (wire t g)" "msg_ok g" "length (wire t g) \<le> nap" "nap \<le> length b" "fcall_ok f"
  shows "\<exists>b' f'. convM2S b nap f = Some (b', f', of_nat (length (wire t g))) \<and> tag f' = t \<and>
    (nul_free g \<longrightarrow> msg_of b' f' = Some g) \<and> fcall_ok f'"
proof -
  let ?n = "BIT32SZ + BIT8SZ + BIT16SZ + length (body g)"
  have n: "unat (of_nat ?n :: u32) = ?n" using assms(2) by (intro unat_of_nat_32) (simp add: msg_ok_def)
  have g: "GBIT32 b 0 = Some (of_nat ?n)" "GBIT8 b BIT32SZ = Some (mtype g)" "GBIT16 b (BIT32SZ + BIT8SZ) = Some t"
    "has_at b (BIT32SZ + BIT8SZ + BIT16SZ) (body g)"
    using assms(1) by (simp_all add: wire_def gbits del: of_nat_add)
  define f1 where "f1 = f\<lparr>type := mtype g, tag := t\<rparr>"
  have "reads g (BIT32SZ + BIT8SZ + BIT16SZ) f1 (m2s_switch b (BIT32SZ + BIT8SZ + BIT16SZ) nap f1)"
    using assms g(4) by (intro m2s_switch_reads) (auto simp: f1_def fcall_ok_def)
  then obtain b' f' where "m2s_switch b (BIT32SZ + BIT8SZ + BIT16SZ) nap f1 = Some (b', f', Some ?n)"
    "nul_free g \<longrightarrow> msg_of b' f' = Some g" "tag f' = t" "fcall_ok f'"
    unfolding reads_def by (auto simp: f1_def)
  then show ?thesis using g n assms(3)
    by (simp add: convM2S_def f1_def del: of_nat_add)
qed

text \<open>
  \<^verbatim>\<open>sizeS2M\<close> runs through \<^verbatim>\<open>nwname\<close> elements of \<^verbatim>\<open>wname\<close> before \<^verbatim>\<open>convS2M\<close> compares \<^verbatim>\<open>nwname\<close> with
  \<^verbatim>\<open>MAXWELEM\<close>, and the size of a large \<^verbatim>\<open>Twrite\<close> wraps around.
\<close>

lemma size_wname_overrun:
  "i \<le> length (wname f) \<Longrightarrow> length (wname f) < i + k \<Longrightarrow> size_wname k i m f n = None"
proof (induction k arbitrary: i n)
  case (Suc k)
  show ?case
  proof (cases "i < length (wname f)")
    case True
    then show ?thesis using Suc.IH[of "i + 1"] Suc.prems by (cases "stringsz m (wname f ! i)") (simp_all add: rd_def)
  next
    case False
    then show ?thesis by (simp add: rd_def)
  qed
qed (simp)

lemma str_of_nul_free: "str_of m s = Some t \<Longrightarrow> 0 \<notin> set t"
  by (auto simp: str_of_def strlen_Some_iff split: option.splits)

lemma those_str_nul_free: "those (map (str_of m) ss) = Some ts \<Longrightarrow> t \<in> set ts \<Longrightarrow> 0 \<notin> set t"
  by (induction ss arbitrary: ts) (auto dest: str_of_nul_free split: option.splits)

lemma msg_of_nul_free:
  assumes "msg_of m f = Some g"
  shows "nul_free g"
  using assms msg_of_type[OF assms]
  by (cases g) (auto simp: nul_free_def msg_eval dest: str_of_nul_free those_str_nul_free split: if_splits)

definition fcall0 :: Fcall where
  "fcall0 = \<lparr>type = 0, fid = 0, tag = 0, msize = 0, version = Nil, oldtag = 0, ename = Nil,
     qid = \<lparr>path = 0, vers = 0, qtype = 0\<rparr>, iounit = 0, aqid = \<lparr>path = 0, vers = 0, qtype = 0\<rparr>, afid = 0,
     uname = Nil, aname = Nil, perm = 0, name = Nil, mode = 0, newfid = 0, nwname = 0,
     wname = replicate MAXWELEM Nil, nwqid = 0, wqid = replicate MAXWELEM \<lparr>path = 0, vers = 0, qtype = 0\<rparr>,
     offset = 0, count = 0, data = Nil, nstat = 0, stat = Nil, unixfd = 0, errornum = 0, uidnum = 0, extension = Nil\<rparr>"

section \<open>Properties\<close>

text \<open>
  C1: A message survives the wire. When the structure \<open>f\<close> stands for a message whose strings fit their
  16-bit counts and the buffer is long enough, \<^verbatim>\<open>convS2M\<close> succeeds, and \<^verbatim>\<open>convM2S\<close> on the bytes it wrote
  returns the same size and fills any structure with the same tag and the same message.
\<close>
theorem nine_roundtrip:
  assumes "msg_of m f = Some g" "fcall_ok f" "msg_ok g" "length (wire (tag f) g) \<le> length b" "fcall_ok f0"
  shows "\<exists>b' n b'' f'. convS2M m f b (length b) = Some (b', n) \<and> n \<noteq> 0 \<and>
    convM2S b' (unat n) f0 = Some (b'', f', n) \<and> tag f' = tag f \<and> msg_of b'' f' = msg_of m f"
proof -
  let ?w = "wire (tag f) g" and ?n = "of_nat (length (wire (tag f) g)) :: u32"
  have n: "unat ?n = length ?w" using assms(3) by (intro unat_of_nat_32) (simp add: msg_ok_def)
  then have "unat ?n \<noteq> 0" by (simp add: HDR)
  then have n0: "?n \<noteq> 0" by (metis unsigned_0)
  have w: "convS2M m f b (length b) = Some (upd b 0 ?w, ?n)"
    using convS2M_wire[OF assms(1-3) order_refl[of "length b"]] assms(4) by simp
  have l: "length ?w \<le> length (upd b 0 ?w)" using assms(4) by simp
  have h: "has_at (upd b 0 ?w) 0 ?w" using assms(4) by simp
  from convM2S_reads[OF h assms(3) order_refl l assms(5)] obtain b' f' where
    "convM2S (upd b 0 ?w) (length ?w) f0 = Some (b', f', ?n)" "tag f' = tag f"
    "nul_free g \<longrightarrow> msg_of b' f' = Some g" by blast
  then show ?thesis using w n n0 msg_of_nul_free[OF assms(1)] assms(1) by auto
qed

theorem nine_roundtrip_witness:
  "\<exists>b' n b'' f'.
    convS2M [] (fcall0\<lparr>type := Tversion, tag := 0xFFFF, msize := 8192, version := Str [57, 80, 50, 48, 48, 48, 0]\<rparr>)
      (replicate 64 0) 64 = Some (b', n) \<and> n \<noteq> 0 \<and> convM2S b' (unat n) fcall0 = Some (b'', f', n) \<and>
    tag f' = 0xFFFF \<and> msg_of b'' f' = Some (MTversion 8192 [57, 80, 50, 48, 48, 48])"
proof -
  let ?f = "fcall0\<lparr>type := Tversion, tag := 0xFFFF, msize := 8192, version := Str [57, 80, 50, 48, 48, 48, 0]\<rparr>"
  have m: "msg_of [] ?f = Some (MTversion 8192 [57, 80, 50, 48, 48, 48])"
    by (simp add: msg_of_def str_of_def deref_def Tversion_def)
  show ?thesis
    using nine_roundtrip[OF m, of "replicate 64 0" fcall0] unfolding m
    by (simp add: fcall_ok_def fcall0_def msg_ok_def bitsz)
qed

text \<open>
  C10: \<^verbatim>\<open>sizeS2M\<close> is the number of bytes \<^verbatim>\<open>convS2M\<close> writes, and \<^verbatim>\<open>convS2M\<close> writes exactly the format of
  section 9p of the manual at the start of the buffer, leaving the rest of it alone; when the buffer is too
  short it returns 0 and leaves it untouched.
\<close>
theorem nine_write:
  assumes "msg_of m f = Some g" "fcall_ok f" "msg_ok g" "nap \<le> length b"
  shows "sizeS2M m f = Some (of_nat (length (wire (tag f) g))) \<and>
    convS2M m f b nap = Some (if length (wire (tag f) g) \<le> nap
      then (wire (tag f) g @ drop (length (wire (tag f) g)) b, of_nat (length (wire (tag f) g))) else (b, 0))"
  using convS2M_wire[OF assms] sizeS2M_body[OF assms(1,2)] by (simp add: upd_def)

theorem nine_write_witness:
  "convS2M [] (fcall0\<lparr>type := Tclunk, tag := 1, fid := 7\<rparr>) (replicate 12 9) 12 =
     Some (wire 1 (MTclunk 7) @ [9], 11) \<and>
   convS2M [] (fcall0\<lparr>type := Tclunk, tag := 1, fid := 7\<rparr>) (replicate 10 9) 10 = Some (replicate 10 9, 0)"
proof -
  let ?f = "fcall0\<lparr>type := Tclunk, tag := 1, fid := 7\<rparr>"
  have m: "msg_of [] ?f = Some (MTclunk 7)" by (simp add: msg_of_def mtypes)
  have o: "fcall_ok ?f" "msg_ok (MTclunk 7)" by (simp_all add: fcall_ok_def fcall0_def msg_ok_def bitsz)
  show ?thesis
    using nine_write[OF m o, of 12 "replicate 12 9"] nine_write[OF m o, of 10 "replicate 10 9"]
    by (simp add: bitsz)
qed

text \<open>
  C4: On any buffer \<^verbatim>\<open>convM2S\<close> stays within the \<open>nap\<close> bytes it is given, never runs past \<^verbatim>\<open>wname\<close> or
  \<^verbatim>\<open>wqid\<close>, and accepts exactly the buffers that start with a well-formed message, returning its size.
\<close>
theorem nine_accepts:
  assumes "nap \<le> length b" "fcall_ok f"
  shows "\<exists>b' f' r. convM2S b nap f = Some (b', f', r) \<and> length b' = length b \<and> drop nap b' = drop nap b \<and>
    (r \<noteq> 0 \<longleftrightarrow> (\<exists>t g. msg_ok g \<and> has_at b 0 (wire t g) \<and> length (wire t g) \<le> nap)) \<and>
    (r \<noteq> 0 \<longrightarrow> (\<exists>t g. msg_ok g \<and> take (unat r) b = wire t g \<and> unat r \<le> nap))"
proof -
  obtain b' f' r where p: "convM2S b nap f = Some (b', f', r)" "frame b b' 0 nap"
    "r \<noteq> 0 \<longrightarrow> (\<exists>t g. msg_ok g \<and> has_at b 0 (wire t g) \<and> unat r = length (wire t g) \<and> unat r \<le> nap)"
    using convM2S_parses[OF assms] by blast
  have "r \<noteq> 0" if g: "msg_ok g" "has_at b 0 (wire t g)" "length (wire t g) \<le> nap" for t g
  proof -
    have "unat (of_nat (length (wire t g)) :: u32) \<noteq> 0"
      using g(1) by (subst unat_of_nat_32) (simp_all add: msg_ok_def HDR)
    moreover from convM2S_reads[OF g(2,1,3) assms] have "r = of_nat (length (wire t g))" using p(1) by auto
    ultimately show ?thesis by (metis unsigned_0)
  qed
  moreover have "\<exists>t g. msg_ok g \<and> take (unat r) b = wire t g \<and> unat r \<le> nap" if "r \<noteq> 0"
    using p(3) that has_at_0 by metis
  moreover have "\<exists>t g. msg_ok g \<and> has_at b 0 (wire t g) \<and> length (wire t g) \<le> nap" if "r \<noteq> 0"
    using p(3) that by metis
  ultimately have "r \<noteq> 0 \<longleftrightarrow> (\<exists>t g. msg_ok g \<and> has_at b 0 (wire t g) \<and> length (wire t g) \<le> nap)"
    "r \<noteq> 0 \<longrightarrow> (\<exists>t g. msg_ok g \<and> take (unat r) b = wire t g \<and> unat r \<le> nap)" by blast+
  then show ?thesis using p(1,2) unfolding frame_def by blast
qed

theorem nine_accepts_witness:
  "\<exists>b' f' r. convM2S (wire 1 (MTclunk 7)) 11 fcall0 = Some (b', f', r) \<and> r \<noteq> 0"
proof -
  have "\<exists>t g. msg_ok g \<and> has_at (wire 1 (MTclunk 7)) 0 (wire t g) \<and> length (wire t g) \<le> 11"
    by (intro exI[of _ 1] exI[of _ "MTclunk 7"]) (simp add: msg_ok_def has_at_0 bitsz)
  then show ?thesis
    using nine_accepts[of 11 "wire 1 (MTclunk 7)" fcall0] by (force simp: fcall_ok_def fcall0_def bitsz)
qed

text \<open>
  C23: \<^verbatim>\<open>convS2M\<close> on a \<^verbatim>\<open>Twalk\<close> with more than \<^verbatim>\<open>MAXWELEM\<close> names reads past the end of \<^verbatim>\<open>wname\<close>: the
  guard in \<^verbatim>\<open>convS2M\<close> comes after \<^verbatim>\<open>sizeS2M\<close> has visited every name.
\<close>
theorem walk_overrun:
  assumes "type f = Twalk" "fcall_ok f" "MAXWELEM < unat (nwname f)"
  shows "sizeS2M m f = None \<and> convS2M m f b nap = None"
proof -
  have "sizeS2M m f = None"
    using assms size_wname_overrun[of 0 f "unat (nwname f)" m] by (simp add: sizeS2M_def Let_def mtypes fcall_ok_def)
  then show ?thesis by (simp add: convS2M_def)
qed

theorem walk_overrun_witness:
  "convS2M [] (fcall0\<lparr>type := Twalk, nwname := 17\<rparr>) (replicate 999 0) 999 = None"
  using walk_overrun[of "fcall0\<lparr>type := Twalk, nwname := 17\<rparr>" "[]" "replicate 999 0" 999]
  by (simp add: fcall_ok_def fcall0_def MAXWELEM_def)

text \<open>
  C24: The 32-bit size of a \<^verbatim>\<open>Twrite\<close> wraps around for counts near 2^32. The small wrapped size passes
  the check against the buffer, and \<^verbatim>\<open>memmove\<close> then copies \<^verbatim>\<open>count\<close> bytes past its end.
\<close>
theorem write_wraps:
  assumes "type f = Twrite" "2 ^ 32 < unat (count f) + 23" "length b < unat (count f)"
    "unat (count f) + 23 \<le> 2 ^ 32 + length b"
  shows "sizeS2M m f = Some (count f + 23) \<and> count f + 23 \<noteq> 0 \<and> unat (count f + 23) \<le> length b \<and>
    convS2M m f b (length b) = None"
proof -
  define N :: nat where "N = 2 ^ 32"
  have c: "unat (count f) < N" "N < unat (count f) + 23"
    using unat_u32_bound[of "count f"] assms(2) by (simp_all add: N_def)
  have "unat (count f + 23) = (unat (count f) + 23) mod N"
    by (simp add: unat_word_ariths N_def)
  also have "\<dots> = unat (count f) + 23 - N"
  proof -
    have "23 < N" by (simp add: N_def)
    then have "unat (count f) + 23 - N < N" using c by linarith
    then show ?thesis using c(2) by (simp add: le_mod_geq)
  qed
  finally have u: "unat (count f + 23) = unat (count f) + 23 - N" .
  have s: "sizeS2M m f = Some (count f + 23)"
    using assms(1) by (simp add: sizeS2M_def Let_def mtypes bitsz)
  have n0: "count f + 23 \<noteq> 0" using u c(2) by (metis diff_is_0_eq not_le unsigned_0)
  have le: "unat (count f + 23) \<le> length b" using u assms(4) c(2) unfolding N_def[symmetric] by linarith
  have "s2m_switch m b' p f = None" if l: "length b' = length b" for b' p
    using assms(1,3) l
    by (fastforce simp: s2m_switch_def mtypes s2m_Twrite_def intro!: bind_NoneI dest!: wr_length memsrc_length)
  then have "convS2M m f b (length b) = None"
    using s n0 le by (auto simp: convS2M_def intro!: bind_NoneI dest!: wr_length)
  then show ?thesis using s n0 le by simp
qed

theorem write_wraps_witness:
  "\<forall>d. convS2M [] (fcall0\<lparr>type := Twrite, count := 0xFFFFFFF0, data := Str d\<rparr>) (replicate 100 0) 100 = None"
proof
  fix d
  show "convS2M [] (fcall0\<lparr>type := Twrite, count := 0xFFFFFFF0, data := Str d\<rparr>) (replicate 100 0) 100 = None"
    using write_wraps[of "fcall0\<lparr>type := Twrite, count := 0xFFFFFFF0, data := Str d\<rparr>" "replicate 100 0" "[]"]
    by simp
qed

end
