(* ===== verification/DirStat.thy ===== *)
theory DirStat
  imports NinePWire
begin

text \<open>
  Machine-independent directory entries: the \<^verbatim>\<open>Dir\<close> structure of include/libc.h, \<^verbatim>\<open>sizeD2M\<close> and
  \<^verbatim>\<open>convD2M\<close> (src/lib9/convD2M.c), and \<^verbatim>\<open>statcheck\<close> and \<^verbatim>\<open>convM2D\<close> (src/lib9/convM2D.c). An entry
  survives the round trip, \<^verbatim>\<open>statcheck\<close> accepts exactly what \<^verbatim>\<open>convM2D\<close> converts completely, and the
  strings of an entry of \<open>n\<close> bytes fit into \<open>n\<close> bytes.
\<close>

section \<open>Entries\<close>

definition STATFIXLEN :: nat where
  "STATFIXLEN = BIT16SZ + QIDSZ + 5 * BIT16SZ + 4 * BIT32SZ + 1 * BIT64SZ"

record Dir =
  type :: u16
  dev :: u32
  qid :: Qid
  mode :: u64
  atime :: u64
  mtime :: u64
  len :: u64
  name :: cptr
  uid :: cptr
  gid :: cptr
  muid :: cptr
  uidnum :: u32
  gidnum :: u32
  muidnum :: u32
  ext :: cptr

section \<open>Writing\<close>

text \<open>
  The lengths of the strings and their sum are \<^verbatim>\<open>int\<close>s; \<open>None\<close> also stands for an overflow of the sum,
  which C leaves undefined. \<open>m\<close> is the object that \<^const>\<open>Buf\<close> pointers of the entry refer to.
\<close>

definition cslen :: "byte list \<Rightarrow> cptr \<Rightarrow> nat option" where
  "cslen m s = (case deref m s of None \<Rightarrow> Some 0 | Some t \<Rightarrow> strlen t)"

fun dirlens :: "byte list \<Rightarrow> cptr list \<Rightarrow> nat \<Rightarrow> (nat list \<times> nat) option" where
  "dirlens m [] ns = Some ([], ns)"
| "dirlens m (s # sv) ns = do {
     n \<leftarrow> cslen m s;
     if ns + n < 2 ^ 31 then do {
       (nsv, ns) \<leftarrow> dirlens m sv (ns + n);
       Some (n # nsv, ns) }
     else None }"

definition sizeD2M :: "byte list \<Rightarrow> Dir \<Rightarrow> nat option" where
  "sizeD2M m d = do {
     (nsv, ns) \<leftarrow> dirlens m [name d, uid d, gid d, muid d] 0;
     if STATFIXLEN + ns < 2 ^ 31 then Some (STATFIXLEN + ns) else None }"

text \<open>The loop that stores the strings; \<open>None\<close> in the second component is \<^verbatim>\<open>return 0\<close>.\<close>

fun d2m_strs :: "byte list \<Rightarrow> (cptr \<times> nat) list \<Rightarrow> byte list \<Rightarrow> nat \<Rightarrow> nat \<Rightarrow> (byte list \<times> nat option) option" where
  "d2m_strs m [] b p nbuf = Some (b, Some p)"
| "d2m_strs m ((s, ns) # sv) b p nbuf =
    (if p + ns + BIT16SZ > nbuf then Some (b, None)
     else do {
       b \<leftarrow> wr b p (PBIT16 (of_nat ns :: u32));
       let p = p + BIT16SZ;
       b \<leftarrow> (if ns \<noteq> 0 then do { t \<leftarrow> deref m s; src \<leftarrow> rdn t 0 ns; wr b p src } else Some b);
       d2m_strs m sv b (p + ns) nbuf })"

definition d2m_fixed :: "byte list \<Rightarrow> nat \<Rightarrow> Dir \<Rightarrow> (byte list \<times> nat) option" where
  "d2m_fixed b p d = do {
     b \<leftarrow> wr b p (PBIT16 (type d));
     let p = p + BIT16SZ;
     b \<leftarrow> wr b p (PBIT32 (dev d));
     let p = p + BIT32SZ;
     b \<leftarrow> wr b p (PBIT8 (qtype (qid d)));
     let p = p + BIT8SZ;
     b \<leftarrow> wr b p (PBIT32 (vers (qid d)));
     let p = p + BIT32SZ;
     b \<leftarrow> wr b p (PBIT64 (path (qid d)));
     let p = p + BIT64SZ;
     b \<leftarrow> wr b p (PBIT32 (mode d));
     let p = p + BIT32SZ;
     b \<leftarrow> wr b p (PBIT32 (atime d));
     let p = p + BIT32SZ;
     b \<leftarrow> wr b p (PBIT32 (mtime d));
     let p = p + BIT32SZ;
     b \<leftarrow> wr b p (PBIT64 (len d));
     let p = p + BIT64SZ;
     Some (b, p) }"

definition convD2M :: "byte list \<Rightarrow> Dir \<Rightarrow> byte list \<Rightarrow> nat \<Rightarrow> (byte list \<times> nat) option" where
  "convD2M m d b nbuf =
    (if nbuf < BIT16SZ then Some (b, 0)
     else do {
       let sv = [name d, uid d, gid d, muid d];
       (nsv, ns) \<leftarrow> dirlens m sv 0;
       let ss = STATFIXLEN + ns;
       if ss < 2 ^ 31 then do {
         b \<leftarrow> wr b 0 (PBIT16 (of_nat (ss - BIT16SZ) :: u32));
         if ss > nbuf then Some (b, BIT16SZ)
         else do {
           (b, p) \<leftarrow> d2m_fixed b BIT16SZ d;
           (b, r) \<leftarrow> d2m_strs m (zip sv nsv) b p nbuf;
           case r of None \<Rightarrow> Some (b, 0)
           | Some p \<Rightarrow> if ss \<noteq> p then Some (b, 0) else Some (b, p) } }
       else None })"

section \<open>Reading\<close>

primrec statcheck_loop :: "nat \<Rightarrow> byte list \<Rightarrow> nat \<Rightarrow> nat \<Rightarrow> nat option option" where
  "statcheck_loop 0 b p ebuf = Some (Some p)"
| "statcheck_loop (Suc i) b p ebuf =
    (if p + BIT16SZ > ebuf then Some None
     else do {
       n \<leftarrow> GBIT16 b p;
       statcheck_loop i b (p + (BIT16SZ + unat n)) ebuf })"

text \<open>\<open>True\<close> is the result 0, \<open>False\<close> the result -1.\<close>

definition statcheck :: "byte list \<Rightarrow> nat \<Rightarrow> bool option" where
  "statcheck b nbuf =
    (if nbuf < STATFIXLEN then Some False
     else do {
       n \<leftarrow> GBIT16 b 0;
       if nbuf \<noteq> BIT16SZ + unat n then Some False
       else do {
         r \<leftarrow> statcheck_loop 4 b (STATFIXLEN - 4 * BIT16SZ) nbuf;
         Some (r = Some nbuf) } })"

text \<open>
  The string loop of \<^verbatim>\<open>convM2D\<close> copies to the object \<open>strs\<close>, or nowhere when \<^verbatim>\<open>strs\<close> is nil; \<open>q\<close> is the
  offset it has reached there, and the strings are recorded as \<^const>\<open>Buf\<close> pointers into that object.
\<close>

primrec m2d_strs :: "nat \<Rightarrow> byte list \<Rightarrow> nat \<Rightarrow> nat \<Rightarrow> byte list option \<Rightarrow> nat \<Rightarrow>
    (byte list option \<times> (cptr list \<times> nat) option) option" where
  "m2d_strs 0 b p ebuf strs q = Some (strs, Some ([], p))"
| "m2d_strs (Suc i) b p ebuf strs q =
    (if p + BIT16SZ > ebuf then Some (strs, None)
     else do {
       n \<leftarrow> GBIT16 b p;
       let ns = unat n;
       let p = p + BIT16SZ;
       if p + ns > ebuf then Some (strs, None)
       else do {
         strs' \<leftarrow> (case strs of None \<Rightarrow> Some None
           | Some o1 \<Rightarrow> do {
               src \<leftarrow> rdn b p ns;
               o1 \<leftarrow> wr o1 q src;
               o1 \<leftarrow> wr o1 (q + ns) [0];
               Some (Some o1) });
         (strs', r) \<leftarrow> m2d_strs i b (p + ns) ebuf strs' (q + ns + 1);
         Some (strs', map_option (\<lambda>(sv, p). (Buf q # sv, p)) r) } })"

definition nullstring :: cptr where
  "nullstring = Str [0]"

definition m2d_fixed :: "byte list \<Rightarrow> Dir \<Rightarrow> (Dir \<times> nat) option" where
  "m2d_fixed b d = do {
     let p = BIT16SZ;
     t \<leftarrow> GBIT16 b p;
     let p = p + BIT16SZ;
     dv \<leftarrow> GBIT32 b p;
     let p = p + BIT32SZ;
     qt \<leftarrow> GBIT8 b p;
     let p = p + BIT8SZ;
     qv \<leftarrow> GBIT32 b p;
     let p = p + BIT32SZ;
     qp \<leftarrow> GBIT64 b p;
     let p = p + BIT64SZ;
     md \<leftarrow> GBIT32 b p;
     let p = p + BIT32SZ;
     at \<leftarrow> GBIT32 b p;
     let p = p + BIT32SZ;
     mt \<leftarrow> GBIT32 b p;
     let p = p + BIT32SZ;
     ln \<leftarrow> GBIT64 b p;
     let p = p + BIT64SZ;
     Some (d\<lparr>type := t, dev := dv, qid := \<lparr>path = qp, vers = ucast qv, qtype = qt\<rparr>,
       mode := ucast md, atime := ucast at, mtime := ucast mt, len := ln\<rparr>, p) }"

definition convM2D :: "byte list \<Rightarrow> nat \<Rightarrow> Dir \<Rightarrow> byte list option \<Rightarrow> (Dir \<times> byte list option \<times> nat) option" where
  "convM2D b nbuf d strs =
    (if nbuf < STATFIXLEN then Some (d, strs, 0)
     else do {
       (d, p) \<leftarrow> m2d_fixed b d;
       (strs, r) \<leftarrow> m2d_strs 4 b p nbuf strs 0;
       case r of None \<Rightarrow> Some (d, strs, 0)
       | Some (sv, p) \<Rightarrow>
           if strs \<noteq> None
           then Some (d\<lparr>name := sv ! 0, uid := sv ! 1, gid := sv ! 2, muid := sv ! 3, ext := nullstring\<rparr>, strs, p)
           else Some (d\<lparr>name := nullstring, uid := nullstring, gid := nullstring, muid := nullstring,
             ext := nullstring\<rparr>, strs, p) })"

section \<open>Specification\<close>

text \<open>The fields of an entry as they are transmitted (stat(9p)), and its encoding.\<close>

datatype dir9 = Dir9 u16 u32 qid9 u32 u32 u32 u64 "byte list" "byte list" "byte list" "byte list"

fun dir_fixed :: "dir9 \<Rightarrow> byte list" where
  "dir_fixed (Dir9 t dv q md at mt ln n u g mu) =
    PBIT16 t @ PBIT32 dv @ enc_qid q @ PBIT32 md @ PBIT32 at @ PBIT32 mt @ PBIT64 ln"

fun dir_strs :: "dir9 \<Rightarrow> byte list list" where
  "dir_strs (Dir9 t dv q md at mt ln n u g mu) = [n, u, g, mu]"

definition dir_len :: "dir9 \<Rightarrow> nat" where
  "dir_len e = STATFIXLEN + sum_list (map length (dir_strs e))"

definition dir_wire :: "dir9 \<Rightarrow> byte list" where
  "dir_wire e = PBIT16 (of_nat (dir_len e - BIT16SZ) :: u16) @ dir_fixed e @ concat (map enc_str (dir_strs e))"

definition dir_of :: "byte list \<Rightarrow> Dir \<Rightarrow> dir9 option" where
  "dir_of m d = do {
     n \<leftarrow> str_of m (name d);
     u \<leftarrow> str_of m (uid d);
     g \<leftarrow> str_of m (gid d);
     mu \<leftarrow> str_of m (muid d);
     Some (Dir9 (type d) (dev d) (qid_of (qid d)) (ucast (mode d)) (ucast (atime d)) (ucast (mtime d)) (len d) n u g mu) }"

section \<open>Writing an entry\<close>

lemma cslen_str: "str_of m s = Some t \<Longrightarrow> cslen m s = Some (length t)"
  by (auto simp: str_of_def cslen_def strlen_Some_iff split: option.splits)

lemma STATFIXLEN_val: "STATFIXLEN = 49"
  by (simp add: STATFIXLEN_def bitsz)

lemma dirlens_strs:
  assumes "list_all2 (\<lambda>s t. str_of m s = Some t) sv ts" "ns + sum_list (map length ts) < 2 ^ 31"
  shows "dirlens m sv ns = Some (map length ts, ns + sum_list (map length ts))"
  using assms
proof (induction arbitrary: ns rule: list_all2_induct)
  case (Cons s sv t ts)
  then show ?case using Cons.IH[of "ns + length t"] by (simp add: cslen_str add.assoc)
qed simp

lemma rdn_str: "str_of m s = Some t \<Longrightarrow> t \<noteq> [] \<Longrightarrow> \<exists>u. deref m s = Some u \<and> rdn u 0 (length t) = Some t"
  by (auto simp: str_of_def rdn_def strlen_Some_iff split: option.splits)

lemma PBIT16_enc: "PBIT16 (of_nat n :: u32) = PBIT16 (of_nat n :: u16)"
  by (simp add: PBIT_narrow ucast_of_nat_16 del: unsigned_of_nat)

lemma d2m_strs_wire:
  assumes "list_all2 (\<lambda>s t. str_of m s = Some t) sv ts"
    "p + length (concat (map enc_str ts)) \<le> nbuf" "nbuf \<le> length b"
  shows "d2m_strs m (zip sv (map length ts)) b p nbuf =
    Some (upd b p (concat (map enc_str ts)), Some (p + length (concat (map enc_str ts))))"
  using assms
proof (induction arbitrary: b p rule: list_all2_induct)
  case (Cons s sv t ts)
  let ?b = "upd b p (enc_str t)"
  have l: "p + length (enc_str t) \<le> length b" using Cons.prems by simp
  have "Option.bind (wr b p (PBIT16 (of_nat (length t) :: u32))) (\<lambda>b.
      if length t \<noteq> 0 then do { u \<leftarrow> deref m s; src \<leftarrow> rdn u 0 (length t); wr b (p + BIT16SZ) src } else Some b)
    = Some ?b"
  proof (cases "t = []")
    case True
    then show ?thesis using l using PBIT16_enc[of 0] by (simp add: enc_str_def wr_Some)
  next
    case False
    then obtain u where "deref m s = Some u" "rdn u 0 (length t) = Some t" using rdn_str Cons.hyps(1) by blast
    then show ?thesis using False l wr_wr[of b p "PBIT16 (of_nat (length t) :: u16)" t]
      by (simp add: PBIT16_enc enc_str_def wr_Some)
  qed
  then have e: "Option.bind (wr b p (PBIT16 (of_nat (length t) :: u32))) (\<lambda>b. Option.bind (
      if length t \<noteq> 0 then do { u \<leftarrow> deref m s; src \<leftarrow> rdn u 0 (length t); wr b (p + BIT16SZ) src } else Some b) k)
    = k ?b" for k :: "byte list \<Rightarrow> (byte list \<times> nat option) option"
    by (rule bind_Some_cont)
  have "d2m_strs m (zip sv (map length ts)) ?b (p + length (enc_str t)) nbuf =
      Some (upd ?b (p + length (enc_str t)) (concat (map enc_str ts)),
        Some (p + length (enc_str t) + length (concat (map enc_str ts))))"
    using Cons.prems l by (intro Cons.IH) auto
  then show ?case using Cons.prems e l upd_upd[OF l]
    by (simp add: add.assoc)
qed simp

lemma d2m_fixed_wire:
  assumes "dir_of m d = Some e"
  shows "d2m_fixed b p d = Option.bind (wr b p (dir_fixed e)) (\<lambda>b. Some (b, p + length (dir_fixed e)))"
  using assms
  by (auto simp: dir_of_def bind_eq_Some_conv d2m_fixed_def Let_def wr_seq qid_of_def PBIT_narrow(1) add.assoc)

lemma length_dir_fixed: "length (dir_fixed e) = STATFIXLEN - 5 * BIT16SZ"
  by (cases e) (simp add: STATFIXLEN_def bitsz)

lemma length_strs: "length (concat (map enc_str ts)) = length ts * BIT16SZ + sum_list (map length ts)"
  by (induction ts) auto

lemma length_dir_wire: "length (dir_wire e) = dir_len e"
  by (cases e) (simp add: dir_wire_def length_strs length_dir_fixed dir_len_def STATFIXLEN_def bitsz del: dir_fixed.simps)

lemma dir_of_strs:
  assumes "dir_of m d = Some e"
  shows "list_all2 (\<lambda>s t. str_of m s = Some t) [name d, uid d, gid d, muid d] (dir_strs e)"
  using assms by (auto simp: dir_of_def bind_eq_Some_conv)

lemma convD2M_wire:
  assumes "dir_of m d = Some e" "dir_len e < 2 ^ 31" "BIT16SZ \<le> nbuf" "nbuf \<le> length b"
  shows "sizeD2M m d = Some (dir_len e)"
    "convD2M m d b nbuf = Some (if dir_len e \<le> nbuf then (upd b 0 (dir_wire e), dir_len e)
      else (upd b 0 (PBIT16 (of_nat (dir_len e - BIT16SZ) :: u16)), BIT16SZ))"
proof -
  have "0 + sum_list (map length (dir_strs e)) < 2 ^ 31" using assms(2) by (simp add: dir_len_def)
  note dl = dirlens_strs[OF dir_of_strs[OF assms(1)] this]
  show "sizeD2M m d = Some (dir_len e)"
    using dl assms(2) by (simp add: sizeD2M_def dir_len_def del: dirlens.simps)
  let ?h = "PBIT16 (of_nat (dir_len e - BIT16SZ) :: u16)"
  let ?s = "concat (map enc_str (dir_strs e))"
  let ?b = "upd b 0 (?h @ dir_fixed e)"
  have w: "dir_wire e = (?h @ dir_fixed e) @ ?s" by (simp add: dir_wire_def)
  show "convD2M m d b nbuf = Some (if dir_len e \<le> nbuf then (upd b 0 (dir_wire e), dir_len e)
      else (upd b 0 ?h, BIT16SZ))"
  proof (cases "dir_len e \<le> nbuf")
    case False
    then show ?thesis using dl assms(2-4)
      by (simp add: convD2M_def dir_len_def[symmetric] Let_def wr_Some PBIT16_enc del: dirlens.simps of_nat_diff)
  next
    case True
    have l: "0 + length (?h @ dir_fixed e) + length ?s \<le> nbuf"
      using True length_dir_wire[of e] w by (metis length_append add_0)
    then have l0: "0 + length (?h @ dir_fixed e) \<le> length b" using assms(4) by linarith
    have "Option.bind (wr b 0 ?h) (\<lambda>b. d2m_fixed b BIT16SZ d) = Some (?b, length (?h @ dir_fixed e))"
      using l0 d2m_fixed_wire[OF assms(1)] upd_upd[of 0 ?h b "dir_fixed e"]
      by (simp add: wr_Some)
    then have "Option.bind (wr b 0 ?h) (\<lambda>b. Option.bind (d2m_fixed b BIT16SZ d) k) = k (?b, length (?h @ dir_fixed e))"
      for k :: "byte list \<times> nat \<Rightarrow> (byte list \<times> nat) option"
      by (rule bind_Some_cont)
    moreover have "d2m_strs m (zip [name d, uid d, gid d, muid d] (map length (dir_strs e))) ?b (length (?h @ dir_fixed e)) nbuf
        = Some (upd b 0 (dir_wire e), Some (dir_len e))"
      using d2m_strs_wire[OF dir_of_strs[OF assms(1)], of "length (?h @ dir_fixed e)" nbuf ?b] l l0 assms(4)
        upd_upd[OF l0, of ?s] length_dir_wire[of e] w by simp
    ultimately show ?thesis using True dl assms(2,3)
      by (simp add: convD2M_def dir_len_def[symmetric] Let_def PBIT16_enc
        del: dirlens.simps d2m_strs.simps zip_Cons_Cons of_nat_diff)
  qed
qed

section \<open>Reading an entry\<close>

text \<open>The bytes between \<open>p\<close> and \<open>e\<close> are \<open>i\<close> counted strings.\<close>

definition strs_at :: "byte list \<Rightarrow> nat \<Rightarrow> byte list list \<Rightarrow> nat \<Rightarrow> bool" where
  "strs_at b p ts e \<longleftrightarrow> has_at b p (concat (map enc_str ts)) \<and> (\<forall>t\<in>set ts. length t < 65536) \<and>
     e = p + length (concat (map enc_str ts))"

lemma strs_at_Nil [simp]: "strs_at b p [] e \<longleftrightarrow> p \<le> length b \<and> e = p"
  by (auto simp: strs_at_def)

lemma strs_at_Cons:
  "strs_at b p (t # ts) e \<longleftrightarrow> has_at b p (enc_str t) \<and> length t < 65536 \<and> strs_at b (p + length (enc_str t)) ts e"
  by (auto simp: strs_at_def)

lemma enc_str_at:
  assumes "GBIT16 b p = Some n" "length t < 65536"
  shows "has_at b p (enc_str t) \<longleftrightarrow> length t = unat n \<and> has_at b (p + BIT16SZ) t"
proof -
  have "n = of_nat (length t) \<longleftrightarrow> length t = unat n"
    using unat_of_nat_16[OF assms(2)] by (auto simp: word_unat_eq_iff)
  then show ?thesis using assms(1) by (auto simp: enc_str_def bit16.get_iff[symmetric])
qed

text \<open>Reading one more string: it is the \<open>unat n\<close> bytes after its count.\<close>

lemma strs_at_step:
  assumes "GBIT16 b p = Some n" "p + BIT16SZ + unat n \<le> length b"
  shows "(\<exists>ts. length ts = Suc i \<and> strs_at b p ts e) \<longleftrightarrow>
    (\<exists>ts. length ts = i \<and> strs_at b (p + BIT16SZ + unat n) ts e)"
    "strs_at b (p + BIT16SZ + unat n) ts e \<Longrightarrow> strs_at b p (take (unat n) (drop (p + BIT16SZ) b) # ts) e"
proof -
  let ?t = "take (unat n) (drop (p + BIT16SZ) b)"
  have l: "length ?t = unat n" using assms(2) by simp
  have s: "length ?t < 65536" unfolding l using unsigned_less[of n] by simp
  have h: "has_at b p (enc_str ?t)"
    using enc_str_at[OF assms(1) s] l has_at_take[OF assms(2)] by simp
  show c: "strs_at b (p + BIT16SZ + unat n) ts e \<Longrightarrow> strs_at b p (?t # ts) e" for ts
    using h s l by (simp add: strs_at_Cons add.assoc)
  show "(\<exists>ts. length ts = Suc i \<and> strs_at b p ts e) \<longleftrightarrow>
    (\<exists>ts. length ts = i \<and> strs_at b (p + BIT16SZ + unat n) ts e)"
  proof
    assume "\<exists>ts. length ts = Suc i \<and> strs_at b p ts e"
    then obtain t ts where "length ts = i" "strs_at b p (t # ts) e" by (auto simp: length_Suc_conv)
    then show "\<exists>ts. length ts = i \<and> strs_at b (p + BIT16SZ + unat n) ts e"
      using enc_str_at[OF assms(1), of t] by (auto simp: strs_at_Cons add.assoc)
  next
    assume "\<exists>ts. length ts = i \<and> strs_at b (p + BIT16SZ + unat n) ts e"
    then show "\<exists>ts. length ts = Suc i \<and> strs_at b p ts e" using c by (metis length_Cons)
  qed
qed

lemma strs_at_le: "strs_at b p ts e \<Longrightarrow> p + length ts * BIT16SZ \<le> e"
  by (auto simp: strs_at_def length_strs)

lemma strs_at_short: "e < p + BIT16SZ \<Longrightarrow> \<not> (\<exists>ts. length ts = Suc i \<and> strs_at b p ts e)"
  using strs_at_le by fastforce

lemma strs_at_head_le:
  assumes "GBIT16 b p = Some n" "length ts = Suc i" "strs_at b p ts e"
  shows "p + BIT16SZ + unat n \<le> e"
proof -
  obtain t ts' where "ts = t # ts'" using assms(2) by (auto simp: length_Suc_conv)
  then have "has_at b p (enc_str t)" "length t < 65536" "strs_at b (p + length (enc_str t)) ts' e"
    using assms(3) by (auto simp: strs_at_Cons)
  then show ?thesis using enc_str_at[OF assms(1)] strs_at_le[of b "p + length (enc_str t)" ts' e] by auto
qed

lemma gbit16_ex: "p + BIT16SZ \<le> length b \<Longrightarrow> \<exists>w. GBIT16 b p = Some w"
  using bit16.get_dec by blast

lemma statcheck_loop_strs:
  assumes "ebuf \<le> length b"
  shows "\<exists>r. statcheck_loop i b p ebuf = Some r \<and> (r = Some ebuf \<longleftrightarrow> (\<exists>ts. length ts = i \<and> strs_at b p ts ebuf))"
proof (induction i arbitrary: p)
  case 0
  then show ?case using assms by auto
next
  case (Suc i)
  show ?case
  proof (cases "p + BIT16SZ \<le> ebuf")
    case False
    then show ?thesis using strs_at_short by simp
  next
    case True
    then obtain n where n: "GBIT16 b p = Some n" using gbit16_ex[of p b] assms by auto
    let ?q = "p + BIT16SZ + unat n"
    obtain r where r: "statcheck_loop i b ?q ebuf = Some r"
      "r = Some ebuf \<longleftrightarrow> (\<exists>ts. length ts = i \<and> strs_at b ?q ts ebuf)" using Suc.IH by blast
    have "(\<exists>ts. length ts = i \<and> strs_at b ?q ts ebuf) \<longleftrightarrow> (\<exists>ts. length ts = Suc i \<and> strs_at b p ts ebuf)"
    proof (cases "?q \<le> ebuf")
      case True
      then show ?thesis using strs_at_step(1)[OF n] assms by simp
    next
      case False
      then show ?thesis using strs_at_le strs_at_head_le[OF n] by (meson add_leD1 order_trans)
    qed
    then show ?thesis using r n True by (simp add: add.assoc)
  qed
qed

text \<open>
  What the string loop leaves in the object \<open>o1\<close> from offset \<open>q\<close> on: each pointer of \<open>sv\<close> is at its
  string, and what lies before \<open>q\<close> is untouched.
\<close>

definition copied :: "byte list \<Rightarrow> byte list \<Rightarrow> nat \<Rightarrow> cptr list \<Rightarrow> byte list list \<Rightarrow> bool" where
  "copied o1 o2 q sv ts \<longleftrightarrow> length o2 = length o1 \<and> take q o2 = take q o1 \<and>
     list_all2 (\<lambda>s t. \<exists>k\<ge>q. s = Buf k \<and> has_at o2 k (t @ [0])) sv ts"

definition strs_post :: "byte list \<Rightarrow> nat \<Rightarrow> nat \<Rightarrow> nat \<Rightarrow> byte list option \<Rightarrow> nat \<Rightarrow>
    (byte list option \<times> (cptr list \<times> nat) option) option \<Rightarrow> bool" where
  "strs_post b i p ebuf strs q r \<longleftrightarrow> (case r of None \<Rightarrow> False
    | Some (strs', None) \<Rightarrow> (strs' = None \<longleftrightarrow> strs = None) \<and> (\<forall>ts e. length ts = i \<and> strs_at b p ts e \<longrightarrow> ebuf < e)
    | Some (strs', Some (sv, e)) \<Rightarrow> (strs' = None \<longleftrightarrow> strs = None) \<and> e \<le> ebuf \<and> length sv = i \<and>
        (\<exists>ts. length ts = i \<and> strs_at b p ts e \<and>
           (\<forall>o1 o2. strs = Some o1 \<and> strs' = Some o2 \<longrightarrow> copied o1 o2 q sv ts)))"

lemma copied_Cons:
  assumes "q + length t + 1 \<le> length o1" "copied (upd o1 q (t @ [0])) o2 (q + length t + 1) sv ts"
  shows "copied o1 o2 q (Buf q # sv) (t # ts)"
proof -
  let ?o = "upd o1 q (t @ [0])"
  have l: "length ?o = length o1" using assms(1) by simp
  have "has_at o2 q (t @ [0])"
    using has_at_prefix[of "q + length t + 1" o2 ?o q "t @ [0]"] assms has_at_upd[of q "t @ [0]" o1]
    unfolding copied_def by (simp del: has_at_append)
  moreover have "take q o2 = take q o1"
    using assms take_take[of q "q + length t + 1" o2] take_take[of q "q + length t + 1" ?o]
    unfolding copied_def by (simp add: min_def)
  moreover have "list_all2 (\<lambda>s t. \<exists>k\<ge>q. s = Buf k \<and> has_at o2 k (t @ [0])) sv ts"
    using assms(2) unfolding copied_def by (auto elim!: list_all2_mono)
  ultimately show ?thesis using assms(2) l by (simp add: copied_def del: has_at_append)
qed

lemma m2d_strs_post:
  assumes "ebuf \<le> length b" "p \<le> ebuf" "\<forall>o1. strs = Some o1 \<longrightarrow> q + (ebuf - p) \<le> length o1"
  shows "strs_post b i p ebuf strs q (m2d_strs i b p ebuf strs q)"
  using assms(2,3)
proof (induction i arbitrary: p q strs)
  case 0
  then show ?case using assms(1) by (auto simp: strs_post_def copied_def)
next
  case (Suc i)
  show ?case
  proof (cases "p + BIT16SZ \<le> ebuf")
    case False
    then have "ebuf < e" if "length ts = Suc i" "strs_at b p ts e" for ts e
      using strs_at_le[OF that(2)] that(1) by simp
    then show ?thesis using False by (auto simp: strs_post_def)
  next
    case True
    then obtain n where n: "GBIT16 b p = Some n" using gbit16_ex[of p b] assms(1) by auto
    let ?q = "p + BIT16SZ + unat n"
    show ?thesis
    proof (cases "?q \<le> ebuf")
      case False
      then have "ebuf < e" if "length ts = Suc i" "strs_at b p ts e" for ts e
        using strs_at_head_le[OF n that] by simp
      then show ?thesis using False True n by (auto simp: strs_post_def)
    next
      case le: True
      let ?t = "take (unat n) (drop (p + BIT16SZ) b)"
      have lt: "length ?t = unat n" using le assms(1) by simp
      define strs1 where "strs1 = map_option (\<lambda>o1. upd o1 q (?t @ [0])) strs"
      have room: "q + unat n + 1 \<le> length o1" if "strs = Some o1" for o1
        using Suc.prems(2) that le BIT16SZ_def by auto
      have copy: "(case strs of None \<Rightarrow> Some None
           | Some o1 \<Rightarrow> do {
               src \<leftarrow> rdn b (p + BIT16SZ) (unat n);
               o1 \<leftarrow> wr o1 q src;
               o1 \<leftarrow> wr o1 (q + unat n) [0];
               Some (Some o1) }) = Some strs1"
        using room lt le assms(1) upd_upd[of q ?t _ "[0]"]
        by (auto simp: strs1_def rdn_Some wr_def split: option.splits)
      have "\<forall>o1. strs1 = Some o1 \<longrightarrow> q + unat n + 1 + (ebuf - ?q) \<le> length o1"
        using Suc.prems(2) le room lt by (auto simp: strs1_def BIT16SZ_def)
      from Suc.IH[OF le this] have post: "strs_post b i ?q ebuf strs1 (q + unat n + 1) (m2d_strs i b ?q ebuf strs1 (q + unat n + 1))" .
      then obtain strs2 r where r: "m2d_strs i b ?q ebuf strs1 (q + unat n + 1) = Some (strs2, r)"
        by (auto simp: strs_post_def split: option.splits)
      have ev: "m2d_strs (Suc i) b p ebuf strs q = Some (strs2, map_option (\<lambda>(sv, p). (Buf q # sv, p)) r)"
        using True le n copy r by (simp add: Let_def)
      have nn: "strs1 = None \<longleftrightarrow> strs = None" by (simp add: strs1_def)
      show ?thesis
      proof (cases r)
        case None
        have "ebuf < e" if "length ts = Suc i" "strs_at b p ts e" for ts e
          using strs_at_step(1)[OF n, of i e] that post le assms(1) unfolding r None strs_post_def by auto
        then show ?thesis using post nn unfolding ev r None strs_post_def by auto
      next
        case (Some se)
        obtain sv e where se: "se = (sv, e)" by (cases se)
        from post obtain ts where ts: "strs2 = None \<longleftrightarrow> strs1 = None" "e \<le> ebuf" "length sv = i" "length ts = i"
          "strs_at b ?q ts e" "\<And>o1 o2. strs1 = Some o1 \<Longrightarrow> strs2 = Some o2 \<Longrightarrow> copied o1 o2 (q + unat n + 1) sv ts"
          unfolding r Some se strs_post_def by auto
        have "strs_at b p (?t # ts) e" using strs_at_step(2)[OF n _ ts(5)] le assms(1) by simp
        moreover have "copied o1 o2 q (Buf q # sv) (?t # ts)" if "strs = Some o1" "strs2 = Some o2" for o1 o2
          using copied_Cons[of q ?t o1 o2 sv ts] room[OF that(1)] ts(6)[of "upd o1 q (?t @ [0])" o2] that lt
          by (simp add: strs1_def)
        ultimately show ?thesis using ts nn unfolding ev Some se strs_post_def
          by (auto intro!: exI[of _ "?t # ts"])
      qed
    qed
  qed
qed

definition DIRHDR :: nat where
  "DIRHDR = STATFIXLEN - 4 * BIT16SZ"

lemma DIRHDR_val: "DIRHDR = 41"
  by (simp add: DIRHDR_def STATFIXLEN_val bitsz)

lemma DIRHDR_fixed: "DIRHDR = BIT16SZ + length (dir_fixed e)"
  by (simp add: length_dir_fixed DIRHDR_val STATFIXLEN_val bitsz)

lemma m2d_fixed_total:
  assumes "STATFIXLEN \<le> length b"
  shows "\<exists>d'. m2d_fixed b d = Some (d', DIRHDR)"
proof -
  have e8: "p + 1 \<le> length b \<Longrightarrow> \<exists>v. GBIT8 b p = Some v" for p using bit8.get_dec[of p b] by (auto simp: bitsz)
  have e16: "p + 2 \<le> length b \<Longrightarrow> \<exists>v. GBIT16 b p = Some v" for p using bit16.get_dec[of p b] by (auto simp: bitsz)
  have e32: "p + 4 \<le> length b \<Longrightarrow> \<exists>v. GBIT32 b p = Some v" for p using bit32.get_dec[of p b] by (auto simp: bitsz)
  have e64: "p + 8 \<le> length b \<Longrightarrow> \<exists>v. GBIT64 b p = Some v" for p using bit64.get_dec[of p b] by (auto simp: bitsz)
  have l: "49 \<le> length b" using assms by (simp add: STATFIXLEN_val)
  obtain v1 where "GBIT16 b 2 = Some v1" using e16[of 2] l by auto
  moreover obtain v2 where "GBIT32 b 4 = Some v2" using e32[of 4] l by auto
  moreover obtain v3 where "GBIT8 b 8 = Some v3" using e8[of 8] l by auto
  moreover obtain v4 where "GBIT32 b 9 = Some v4" using e32[of 9] l by auto
  moreover obtain v5 where "GBIT64 b 13 = Some v5" using e64[of 13] l by auto
  moreover obtain v6 where "GBIT32 b 21 = Some v6" using e32[of 21] l by auto
  moreover obtain v7 where "GBIT32 b 25 = Some v7" using e32[of 25] l by auto
  moreover obtain v8 where "GBIT32 b 29 = Some v8" using e32[of 29] l by auto
  moreover obtain v9 where "GBIT64 b 33 = Some v9" using e64[of 33] l by auto
  ultimately show ?thesis
    by (simp add: m2d_fixed_def DIRHDR_val BIT16SZ_def BIT32SZ_def BIT8SZ_def BIT64SZ_def Let_def numeral_2_eq_2[symmetric] del: One_nat_def)
qed

lemma m2d_fixed_wire:
  assumes "has_at b BIT16SZ (dir_fixed e)"
  shows "\<exists>d'. m2d_fixed b d = Some (d', DIRHDR) \<and>
    (\<forall>m n u g mu. dir_strs e = [n, u, g, mu] \<and> str_of m s1 = Some n \<and> str_of m s2 = Some u \<and>
       str_of m s3 = Some g \<and> str_of m s4 = Some mu \<longrightarrow>
       dir_of m (d'\<lparr>name := s1, uid := s2, gid := s3, muid := s4, ext := s5\<rparr>) = Some e)"
proof -
  obtain t dv qt qv qp md at mt ln n u g mu where e: "e = Dir9 t dv (qt, qv, qp) md at mt ln n u g mu"
    by (cases e) (metis prod_cases3)
  have u: "ucast (ucast w :: u64) = w" for w :: u32 by (rule bit_word_eqI) (auto simp: bit_simps)
  have "m2d_fixed b d = Some (d\<lparr>type := t, dev := dv, qid := \<lparr>path = qp, vers = ucast qv, qtype = qt\<rparr>,
      mode := ucast md, atime := ucast at, mtime := ucast mt, len := ln\<rparr>, DIRHDR)"
    using assms unfolding e DIRHDR_fixed[of e]
    by (simp add: m2d_fixed_def gbits Let_def QIDSZ_def e add.assoc)
  then show ?thesis by (auto simp: dir_of_def e u)
qed

lemma statcheck_iff:
  assumes "nbuf \<le> length b"
  shows "\<exists>ok. statcheck b nbuf = Some ok \<and> (ok \<longleftrightarrow> STATFIXLEN \<le> nbuf \<and>
    (\<exists>n. GBIT16 b 0 = Some n \<and> nbuf = BIT16SZ + unat n) \<and> (\<exists>ts. length ts = 4 \<and> strs_at b DIRHDR ts nbuf))"
proof (cases "STATFIXLEN \<le> nbuf")
  case False
  then show ?thesis by (intro exI[of _ False]) (simp add: statcheck_def)
next
  case True
  then obtain n where n: "GBIT16 b 0 = Some n" using gbit16_ex[of 0 b] assms by (auto simp: STATFIXLEN_val bitsz)
  obtain r where "statcheck_loop 4 b DIRHDR nbuf = Some r" "r = Some nbuf \<longleftrightarrow> (\<exists>ts. length ts = 4 \<and> strs_at b DIRHDR ts nbuf)"
    using statcheck_loop_strs[OF assms] by blast
  then show ?thesis using True n by (auto simp: statcheck_def DIRHDR_def[symmetric])
qed

text \<open>Two readings of \<open>i\<close> strings at the same place agree.\<close>

lemma strs_at_unique:
  assumes "strs_at b p ts e" "strs_at b p us e'" "length us = length ts"
  shows "us = ts \<and> e' = e"
  using assms
proof (induction ts arbitrary: p us)
  case (Cons t ts)
  then obtain u us' where us: "us = u # us'" by (cases us) auto
  have ht: "has_at b p (enc_str t)" "length t < 65536" "has_at b p (enc_str u)" "length u < 65536"
    using Cons.prems us by (auto simp: strs_at_Cons)
  then obtain n where n: "GBIT16 b p = Some n" by (auto simp: enc_str_def gbits)
  have "length t = unat n" "length u = unat n" "has_at b (p + BIT16SZ) t" "has_at b (p + BIT16SZ) u"
    using enc_str_at[OF n] ht by auto
  then have "u = t" by (metis has_at_def)
  then show ?case using Cons.IH[of "p + length (enc_str t)" us'] Cons.prems us by (auto simp: strs_at_Cons)
qed auto

lemma convM2D_total:
  assumes "nbuf \<le> length b" "\<forall>o1. strs = Some o1 \<longrightarrow> nbuf - DIRHDR \<le> length o1"
  shows "\<exists>d' strs' r. convM2D b nbuf d strs = Some (d', strs', r) \<and> r \<le> nbuf \<and>
    (r \<noteq> 0 \<longleftrightarrow> STATFIXLEN \<le> nbuf \<and> (\<exists>ts e. length ts = 4 \<and> strs_at b DIRHDR ts e \<and> e \<le> nbuf)) \<and>
    (r \<noteq> 0 \<longrightarrow> (\<exists>ts. length ts = 4 \<and> strs_at b DIRHDR ts r))"
proof (cases "STATFIXLEN \<le> nbuf")
  case False
  then show ?thesis by (simp add: convM2D_def)
next
  case True
  obtain d1 where d1: "m2d_fixed b d = Some (d1, DIRHDR)" using m2d_fixed_total[of b d] True assms(1) by auto
  have h: "DIRHDR \<le> nbuf" using True by (simp add: DIRHDR_def)
  have post: "strs_post b 4 DIRHDR nbuf strs 0 (m2d_strs 4 b DIRHDR nbuf strs 0)"
    using m2d_strs_post[OF assms(1) h, of strs 0 4] assms(2) by simp
  then obtain strs2 r where r: "m2d_strs 4 b DIRHDR nbuf strs 0 = Some (strs2, r)"
    by (auto simp: strs_post_def split: option.splits)
  show ?thesis
  proof (cases r)
    case None
    then have "\<forall>ts e. length ts = 4 \<and> strs_at b DIRHDR ts e \<longrightarrow> nbuf < e" using post unfolding r by (simp add: strs_post_def)
    then have "\<not> (\<exists>ts e. length ts = 4 \<and> strs_at b DIRHDR ts e \<and> e \<le> nbuf)" by (meson not_le)
    then show ?thesis using True d1 r None by (simp add: convM2D_def)
  next
    case (Some se)
    obtain sv e where se: "se = (sv, e)" by (cases se)
    from post obtain ts where ts: "e \<le> nbuf" "length ts = 4" "strs_at b DIRHDR ts e"
      unfolding r Some se strs_post_def by auto
    have "e \<noteq> 0" using strs_at_le[OF ts(3)] DIRHDR_val by simp
    then show ?thesis using True d1 r Some se ts by (auto simp: convM2D_def)
  qed
qed

lemma convM2D_wire:
  assumes "has_at b 0 (dir_wire e)" "dir_len e - BIT16SZ < 65536" "dir_len e \<le> nbuf" "nbuf \<le> length b"
    "nbuf - DIRHDR \<le> length o1" "\<forall>t\<in>set (dir_strs e). 0 \<notin> set t"
  shows "\<exists>d' o2. convM2D b nbuf d (Some o1) = Some (d', Some o2, dir_len e) \<and> dir_of o2 d' = Some e"
proof -
  obtain n u g mu where st: "dir_strs e = [n, u, g, mu]" by (cases e) auto
  have h: "has_at b BIT16SZ (dir_fixed e)" "has_at b DIRHDR (concat (map enc_str (dir_strs e)))"
    using assms(1) DIRHDR_fixed[of e] by (simp_all add: dir_wire_def)
  have "dir_len e = DIRHDR + length (concat (map enc_str (dir_strs e)))"
    by (simp add: dir_len_def length_strs st DIRHDR_val STATFIXLEN_val bitsz)
  moreover have "\<forall>t\<in>set (dir_strs e). length t < 65536"
    using assms(2) by (auto simp: dir_len_def st STATFIXLEN_val bitsz)
  ultimately have sa: "strs_at b DIRHDR (dir_strs e) (dir_len e)" using h(2) by (simp add: strs_at_def)
  have hn: "DIRHDR \<le> nbuf" "STATFIXLEN \<le> nbuf" using assms(3) by (auto simp: dir_len_def DIRHDR_def)
  have post: "strs_post b 4 DIRHDR nbuf (Some o1) 0 (m2d_strs 4 b DIRHDR nbuf (Some o1) 0)"
    using m2d_strs_post[OF assms(4) hn(1), of "Some o1" 0 4] assms(5) by simp
  then obtain strs2 r where r: "m2d_strs 4 b DIRHDR nbuf (Some o1) 0 = Some (strs2, r)"
    by (auto simp: strs_post_def split: option.splits)
  have "r \<noteq> None"
  proof
    assume "r = None"
    then have "\<forall>ts e. length ts = 4 \<and> strs_at b DIRHDR ts e \<longrightarrow> nbuf < e" using post unfolding r by (simp add: strs_post_def)
    then have "length (dir_strs e) = 4 \<longrightarrow> nbuf < dir_len e" using sa by blast
    then have "nbuf < dir_len e" using st by simp
    then show False using assms(3) by simp
  qed
  then obtain sv e' where sv: "r = Some (sv, e')" by auto
  from post obtain ts o2 where ts: "length ts = 4" "strs_at b DIRHDR ts e'" "strs2 = Some o2" "copied o1 o2 0 sv ts"
    unfolding r sv strs_post_def by auto
  have eq: "ts = dir_strs e" "e' = dir_len e" using strs_at_unique[OF sa ts(2)] ts(1) st by auto
  then obtain s1 s2 s3 s4 where s: "sv = [s1, s2, s3, s4]" "\<exists>k. s1 = Buf k \<and> has_at o2 k (n @ [0])"
    "\<exists>k. s2 = Buf k \<and> has_at o2 k (u @ [0])" "\<exists>k. s3 = Buf k \<and> has_at o2 k (g @ [0])" "\<exists>k. s4 = Buf k \<and> has_at o2 k (mu @ [0])"
    using ts(4) unfolding copied_def st by (auto simp: list_all2_Cons2 simp del: has_at_append)
  then have "str_of o2 s1 = Some n" "str_of o2 s2 = Some u" "str_of o2 s3 = Some g" "str_of o2 s4 = Some mu"
    using str_of_Buf assms(6) st by fastforce+
  then show ?thesis using m2d_fixed_wire[OF h(1), of d s1 s2 s3 s4 nullstring] hn r sv s(1) ts(3) eq st
    by (auto simp: convM2D_def)
qed

section \<open>Properties\<close>

lemma dir_of_nul_free: "dir_of m d = Some e \<Longrightarrow> \<forall>t\<in>set (dir_strs e). 0 \<notin> set t"
  by (auto simp: dir_of_def bind_eq_Some_conv str_of_def strlen_Some_iff split: option.splits)

text \<open>
  C8: A directory entry survives the round trip. When the encoding is at most 65537 bytes long and fits the
  buffer, \<^verbatim>\<open>convD2M\<close> writes it at the start, \<^verbatim>\<open>sizeD2M\<close> and the result are its length, \<^verbatim>\<open>statcheck\<close>
  accepts it, and \<^verbatim>\<open>convM2D\<close> with a string buffer as long as the variable part gives the entry back.
\<close>
theorem dir_roundtrip:
  assumes "dir_of m d = Some e" "dir_len e < 65538" "dir_len e \<le> length b" "dir_len e - DIRHDR \<le> length o1"
  shows "\<exists>b' d' o2. sizeD2M m d = Some (dir_len e) \<and> convD2M m d b (length b) = Some (b', dir_len e) \<and>
    b' = dir_wire e @ drop (dir_len e) b \<and> statcheck b' (dir_len e) = Some True \<and>
    convM2D b' (dir_len e) d0 (Some o1) = Some (d', Some o2, dir_len e) \<and> dir_of o2 d' = dir_of m d"
proof -
  let ?b = "upd b 0 (dir_wire e)"
  have l: "0 + length (dir_wire e) \<le> length b" using assms(3) by (simp add: length_dir_wire)
  then have lb: "length ?b = length b" by simp
  have h: "has_at ?b 0 (dir_wire e)" using has_at_upd[OF l] .
  have 31: "dir_len e < 2 ^ 31" "BIT16SZ \<le> length b" using assms(2,3) by (auto simp: dir_len_def STATFIXLEN_val bitsz)
  note w = convD2M_wire[OF assms(1) 31 order_refl]
  have short: "dir_len e - BIT16SZ < 65536" using assms(2) by (simp add: bitsz)
  obtain d' o2 where r: "convM2D ?b (dir_len e) d0 (Some o1) = Some (d', Some o2, dir_len e)" "dir_of o2 d' = Some e"
    using convM2D_wire[OF h short order_refl _ assms(4) dir_of_nul_free[OF assms(1)], of d0] lb assms(3) by auto
  have "GBIT16 ?b 0 = Some (of_nat (dir_len e - BIT16SZ))"
    using h by (simp add: dir_wire_def gbits del: of_nat_diff)
  moreover have "STATFIXLEN \<le> dir_len e" by (simp add: dir_len_def)
  moreover have "unat (of_nat (dir_len e - BIT16SZ) :: u16) = dir_len e - BIT16SZ" using short by (rule unat_of_nat_16)
  moreover have "\<exists>ts. length ts = 4 \<and> strs_at ?b DIRHDR ts (dir_len e)"
    using convM2D_total[of "dir_len e" ?b "Some o1" d0] r(1) assms(3,4) lb calculation(2) by (auto simp: STATFIXLEN_val)
  ultimately have "statcheck ?b (dir_len e) = Some True"
    using statcheck_iff[of "dir_len e" ?b] assms(3) lb by (auto simp: STATFIXLEN_val bitsz simp del: of_nat_diff)
  then show ?thesis using w r assms(1,3) by (simp add: upd_def length_dir_wire)
qed

text \<open>
  C25: When the buffer is too short \<^verbatim>\<open>convD2M\<close> returns \<^verbatim>\<open>BIT16SZ\<close> and stores only the 16-bit count of the
  bytes that would follow it, from which the caller gets the size needed; below two bytes it returns 0.
\<close>
theorem dir_short:
  assumes "dir_of m d = Some e" "dir_len e < 65538" "nbuf \<le> length b" "nbuf < dir_len e"
  shows "if nbuf < BIT16SZ then convD2M m d b nbuf = Some (b, 0)
    else \<exists>b' n. convD2M m d b nbuf = Some (b', BIT16SZ) \<and> GBIT16 b' 0 = Some n \<and>
      BIT16SZ + unat n = dir_len e \<and> drop BIT16SZ b' = drop BIT16SZ b"
proof (cases "nbuf < BIT16SZ")
  case True
  then show ?thesis by (simp add: convD2M_def)
next
  case False
  let ?h = "PBIT16 (of_nat (dir_len e - BIT16SZ) :: u16)"
  have 31: "dir_len e < 2 ^ 31" "BIT16SZ \<le> nbuf" using assms(2) False by auto
  have "unat (of_nat (dir_len e - BIT16SZ) :: u16) = dir_len e - BIT16SZ"
    using assms(2) by (intro unat_of_nat_16) (simp add: bitsz)
  moreover have "BIT16SZ \<le> dir_len e" by (simp add: dir_len_def STATFIXLEN_val bitsz)
  moreover have "GBIT16 (upd b 0 ?h) 0 = Some (of_nat (dir_len e - BIT16SZ))"
    using bit16.get_put[of 0 b] False assms(3) by simp
  moreover have "drop BIT16SZ (upd b 0 ?h) = drop BIT16SZ b"
    by (rule drop_upd) (use False assms(3) in auto)
  ultimately show ?thesis using convD2M_wire(2)[OF assms(1) 31 assms(3)] assms(4) False by auto
qed


definition dir0 :: Dir where
  "dir0 = \<lparr>type = 0, dev = 0, qid = \<lparr>path = 5, vers = 1, qtype = 0\<rparr>, mode = 420, atime = 0, mtime = 0, len = 12,
     name = Str [97, 0], uid = Str [117, 0], gid = Nil, muid = Nil, uidnum = 0, gidnum = 0, muidnum = 0, ext = Nil\<rparr>"

lemma dir0_dir9: "dir_of [] dir0 = Some (Dir9 0 0 (0, 1, 5) 420 0 0 12 [97] [117] [] [])"
  by (simp add: dir_of_def dir0_def str_of_def deref_def qid_of_def)

theorem dir_roundtrip_witness:
  "\<exists>b' d' o2. convD2M [] dir0 (replicate 60 0) 60 = Some (b', 51) \<and> statcheck b' 51 = Some True \<and>
    convM2D b' 51 dir0 (Some (replicate 10 0)) = Some (d', Some o2, 51) \<and> dir_of o2 d' = dir_of [] dir0"
  using dir_roundtrip[OF dir0_dir9, of "replicate 60 0" "replicate 10 0" dir0]
  by (simp add: dir_len_def STATFIXLEN_val DIRHDR_val)

theorem dir_short_witness:
  "\<exists>b' n. convD2M [] dir0 (replicate 60 0) 20 = Some (b', 2) \<and> GBIT16 b' 0 = Some n \<and> 2 + unat n = 51"
  using dir_short[OF dir0_dir9, of 20 "replicate 60 0"]
  by (auto simp: dir_len_def STATFIXLEN_val BIT16SZ_def)


end
