(* ===== verification/MpVec.thy ===== *)
theory MpVec
  imports CBuf
begin

text \<open>
  Vectors of digits (src/libmp/port): \<^verbatim>\<open>mpvecadd\<close>, \<^verbatim>\<open>mpvecsub\<close>, \<^verbatim>\<open>mpveccmp\<close>, \<^verbatim>\<open>mpdigmul\<close>,
  \<^verbatim>\<open>mpvecdigmuladd\<close>, \<^verbatim>\<open>mpvecdigmulsub\<close> and \<^verbatim>\<open>mpdigdiv\<close>, and that they compute the sum, difference,
  order, product and quotient of the numbers their digits stand for. The loops run over the digits they
  read; each writes a digit only after it has read the one at the same index, so a result that overlaps
  an operand exactly gets the same digits.
\<close>

section \<open>Digits\<close>

text \<open>\<open>DB\<close> is the base, \<^verbatim>\<open>1<<Dbits\<close>, \<open>DH\<close> its square root, and \<open>val\<close> the value of a vector.\<close>

definition Dbits :: nat where "Dbits = 32"

definition DB :: nat where "DB = 2 ^ 32"

definition DH :: nat where "DH = 2 ^ 16"

fun val :: "mpdigit list \<Rightarrow> nat" where
  "val [] = 0"
| "val (d # ds) = unat d + DB * val ds"

section \<open>Addition, subtraction and comparison\<close>

fun vecadd_loop :: "mpdigit list \<Rightarrow> mpdigit list \<Rightarrow> mpdigit \<Rightarrow> mpdigit list" where
  "vecadd_loop (x # a) (y # b) carry =
    (let x = x + carry;
         carry = (if x < carry then 1 else 0);
         x = x + y;
         carry = (if x < y then carry + 1 else carry)
     in x # vecadd_loop a b carry)"
| "vecadd_loop (x # a) [] carry =
    (let x = x + carry;
         carry = (if x < carry then 1 else 0)
     in x # vecadd_loop a [] carry)"
| "vecadd_loop [] b carry = [carry]"

definition mpvecadd :: "mpdigit list \<Rightarrow> nat \<Rightarrow> mpdigit list \<Rightarrow> nat \<Rightarrow> mpdigit list \<Rightarrow> mpdigit list option" where
  "mpvecadd a alen b blen s = do {
     x \<leftarrow> rdn a 0 (max alen blen);
     y \<leftarrow> rdn b 0 blen;
     wr s 0 (vecadd_loop x y 0) }"

fun vecsub_loop :: "mpdigit list \<Rightarrow> mpdigit list \<Rightarrow> mpdigit \<Rightarrow> mpdigit list" where
  "vecsub_loop (x # a) (y # b) borrow =
    (let y = y + borrow;
         borrow = (if y < borrow then 1 else 0);
         borrow = (if x < y then borrow + 1 else borrow)
     in (x - y) # vecsub_loop a b borrow)"
| "vecsub_loop (x # a) [] borrow =
    (let y = x - borrow;
         borrow = (if y > x then 1 else 0)
     in y # vecsub_loop a [] borrow)"
| "vecsub_loop [] b borrow = []"

definition mpvecsub :: "mpdigit list \<Rightarrow> nat \<Rightarrow> mpdigit list \<Rightarrow> nat \<Rightarrow> mpdigit list \<Rightarrow> mpdigit list option" where
  "mpvecsub a alen b blen diff = do {
     x \<leftarrow> rdn a 0 (max alen blen);
     y \<leftarrow> rdn b 0 blen;
     wr diff 0 (vecsub_loop x y 0) }"

text \<open>
  The three loops of \<^verbatim>\<open>mpveccmp\<close>: a non-zero digit of one vector above the other's length, then the
  highest digit in which they differ.
\<close>

fun veccmp_high :: "mpdigit list \<Rightarrow> nat \<Rightarrow> nat \<Rightarrow> bool option" where
  "veccmp_high a blen 0 = Some False"
| "veccmp_high a blen (Suc alen) =
    (if Suc alen > blen
     then do { x \<leftarrow> rd a alen; if x \<noteq> 0 then Some True else veccmp_high a blen alen }
     else Some False)"

fun veccmp_low :: "mpdigit list \<Rightarrow> mpdigit list \<Rightarrow> nat \<Rightarrow> int option" where
  "veccmp_low a b 0 = Some 0"
| "veccmp_low a b (Suc alen) = do {
     x \<leftarrow> rd a alen;
     y \<leftarrow> rd b alen;
     if x - y = 0 then veccmp_low a b alen
     else if x - y > x then Some (- 1)
     else Some 1 }"

definition mpveccmp :: "mpdigit list \<Rightarrow> nat \<Rightarrow> mpdigit list \<Rightarrow> nat \<Rightarrow> int option" where
  "mpveccmp a alen b blen = do {
     h \<leftarrow> veccmp_high a blen alen;
     if h then Some 1
     else do {
       let alen = min alen blen;
       h \<leftarrow> veccmp_high b alen blen;
       if h then Some (- 1)
       else veccmp_low a b alen } }"

section \<open>Multiplication by a digit\<close>

definition LO :: "mpdigit \<Rightarrow> mpdigit" where
  "LO x = x AND (push_bit (Dbits div 2) 1 - 1)"

definition HI :: "mpdigit \<Rightarrow> mpdigit" where
  "HI x = drop_bit (Dbits div 2) x"

definition mpdigmul :: "mpdigit \<Rightarrow> mpdigit \<Rightarrow> mpdigit \<times> mpdigit" where
  "mpdigmul a b =
    (let ah = HI a; al = LO a; bh = HI b; bl = LO b;
         p1 = ah * bl; p2 = bh * al; p3 = bl * al; p4 = ah * bh;
         carry = 0;
         x = push_bit (Dbits div 2) p1;
         p3 = p3 + x;
         carry = (if p3 < x then carry + 1 else carry);
         x = push_bit (Dbits div 2) p2;
         p3 = p3 + x;
         carry = (if p3 < x then carry + 1 else carry);
         p4 = p4 + (carry + HI p1 + HI p2)
     in (p3, p4))"

fun muladd_loop :: "mpdigit list \<Rightarrow> mpdigit list \<Rightarrow> mpdigit \<Rightarrow> mpdigit \<Rightarrow> mpdigit \<Rightarrow> mpdigit list" where
  "muladd_loop (b # bs) (y # p) m carry part1 =
    (let x = part1 + carry;
         carry = (if x < carry then 1 else 0);
         (part0, part1) = mpdigmul b m;
         x = x + part0;
         carry = (if x < part0 then carry + 1 else carry);
         x = x + y;
         carry = (if x < y then carry + 1 else carry)
     in x # muladd_loop bs p m carry part1)"
| "muladd_loop b p m carry part1 = [part1 + carry]"

definition mpvecdigmuladd :: "mpdigit list \<Rightarrow> nat \<Rightarrow> mpdigit \<Rightarrow> mpdigit list \<Rightarrow> mpdigit list option" where
  "mpvecdigmuladd b n m p = do {
     bs \<leftarrow> rdn b 0 n;
     ps \<leftarrow> rdn p 0 n;
     wr p 0 (muladd_loop bs ps m 0 0) }"

fun mulsub_loop :: "mpdigit list \<Rightarrow> mpdigit list \<Rightarrow> mpdigit \<Rightarrow> mpdigit \<Rightarrow> mpdigit \<Rightarrow> mpdigit list \<times> int" where
  "mulsub_loop (b # bs) (x # p) m borrow part1 =
    (let y = x - borrow;
         borrow = (if y > x then 1 else 0);
         x = part1;
         (part0, part1) = mpdigmul b m;
         x = x + part0;
         borrow = (if x < part0 then borrow + 1 else borrow);
         x = y - x;
         borrow = (if x > y then borrow + 1 else borrow);
         (ds, r) = mulsub_loop bs p m borrow part1
     in (x # ds, r))"
| "mulsub_loop [] (x # p) m borrow part1 =
    (let y = x - borrow - part1 in ([y], if y > x then - 1 else 1))"
| "mulsub_loop b [] m borrow part1 = ([], 1)"

definition mpvecdigmulsub :: "mpdigit list \<Rightarrow> nat \<Rightarrow> mpdigit \<Rightarrow> mpdigit list \<Rightarrow> (mpdigit list \<times> int) option" where
  "mpvecdigmulsub b n m p = do {
     bs \<leftarrow> rdn b 0 n;
     ps \<leftarrow> rdn p 0 (n + 1);
     let (ds, r) = mulsub_loop bs ps m 0 0;
     p \<leftarrow> wr p 0 ds;
     Some (p, r) }"

section \<open>Division of two digits by one\<close>

fun digdiv_loop :: "nat \<Rightarrow> mpdigit \<Rightarrow> mpdigit \<Rightarrow> mpdigit \<Rightarrow> mpdigit \<Rightarrow> mpdigit \<Rightarrow> mpdigit \<times> mpdigit \<times> mpdigit" where
  "digdiv_loop 0 hi lo q x divisor = (hi, lo, q)"
| "digdiv_loop (Suc i) hi lo q x divisor =
    (if hi > 0
     then let x = drop_bit 1 x in
       if x > hi then digdiv_loop i hi lo q x divisor
       else let y = push_bit i divisor in
         if x = hi \<and> y > lo then digdiv_loop i hi lo q x divisor
         else let hi = (if y > lo then hi - 1 else hi) in
           digdiv_loop i (hi - x) (lo - y) (q OR push_bit i 1) x divisor
     else (hi, lo, q))"

definition mpdigdiv :: "mpdigit list \<Rightarrow> mpdigit \<Rightarrow> mpdigit option" where
  "mpdigdiv dividend divisor = do {
     hi \<leftarrow> rd dividend 1;
     lo \<leftarrow> rd dividend 0;
     if hi \<ge> divisor \<or> divisor = 0 then Some (NOT 0)
     else let (hi, lo, q) = digdiv_loop Dbits hi lo 0 divisor divisor in
       Some (q + lo div divisor) }"

section \<open>Values of digits and vectors\<close>

lemma DB_pos [simp]: "0 < DB" "1 < DB" "DB \<noteq> 0"
  by (simp_all add: DB_def)

lemma DB_DH: "DB = DH * DH" and DH_pos [simp]: "0 < DH"
  by (simp_all add: DB_def DH_def)

lemma dig_lt: "unat (d::mpdigit) < DB"
  using unsigned_less[of d] by (simp add: DB_def)

lemma unat_add_DB: "unat (x + y :: mpdigit) = (unat x + unat y) mod DB"
  by (simp add: unat_word_ariths DB_def)

lemma unat_mul_DB: "unat (x * y :: mpdigit) = (unat x * unat y) mod DB"
  by (simp add: unat_word_ariths DB_def)

lemma mod_once: "(n::nat) < 2 * m \<Longrightarrow> n mod m = (if n < m then n else n - m)"
  by (simp add: mod_if)

text \<open>Wrap-around additions and subtractions and the comparisons that detect them.\<close>

lemma dig_add: "unat (x + y :: mpdigit) + (if x + y < y then DB else 0) = unat x + unat y"
proof -
  have m: "unat (x + y) = (if unat x + unat y < DB then unat x + unat y else unat x + unat y - DB)"
    unfolding unat_add_DB using dig_lt[of x] dig_lt[of y] by (intro mod_once) linarith
  show ?thesis unfolding word_less_nat_alt m using dig_lt[of x] dig_lt[of y] by auto
qed

lemma dig_sub: "unat (x - y :: mpdigit) + unat y = unat x + (if x < y then DB else 0)"
proof (cases "x < y")
  case False
  then have "unat y \<le> unat x" by (simp add: word_less_nat_alt)
  then show ?thesis using False by (simp add: unat_sub word_le_nat_alt)
next
  case True
  have "(x - y) + y < y" using True by simp
  then show ?thesis using dig_add[of "x - y" y] True by simp
qed

lemma dig_sub_wrap: "x < x - y \<longleftrightarrow> x < (y::mpdigit)"
  using dig_sub[of x y] dig_lt[of y] dig_lt[of x] by (auto simp: word_less_nat_alt split: if_splits)

lemma unat_Suc_small: "unat (c::mpdigit) < 3 \<Longrightarrow> unat (c + 1) = unat c + 1"
  using dig_add[of c 1] by (auto simp: DB_def split: if_splits)

lemma val_append: "val (a @ b) = val a + DB ^ length a * val b"
  by (induction a) (auto simp: algebra_simps)

lemma val_bound: "val a < DB ^ length a"
proof (induction a)
  case (Cons d a)
  have "unat d + DB * val a < DB + DB * val a" using dig_lt by simp
  also have "\<dots> = DB * (val a + 1)" by simp
  also have "\<dots> \<le> DB * DB ^ length a" using Cons by (intro mult_le_mono2) simp
  finally show ?case by simp
qed simp

lemma val_replicate [simp]: "val (replicate n 0) = 0"
  by (induction n) auto

lemma val_snoc [simp]: "val (a @ [d]) = val a + DB ^ length a * unat d"
  by (simp add: val_append)

lemma val_eq_0: "val a = 0 \<longleftrightarrow> (\<forall>d\<in>set a. d = 0)"
  by (induction a) (auto simp: unat_eq_zero)

lemma val_inject: "length a = length b \<Longrightarrow> val a = val b \<Longrightarrow> a = b"
proof (induction a b rule: list_induct2)
  case (Cons x a y b)
  have "unat x = unat y"
    using arg_cong[OF Cons.prems, of "\<lambda>n. n mod DB"] dig_lt by simp
  moreover from this have "val a = val b" using Cons.prems by simp
  ultimately show ?case using Cons.IH by (simp add: word_unat_eq_iff)
qed simp

section \<open>Correctness of addition and subtraction\<close>

lemma length_vecadd [simp]: "length (vecadd_loop a b c) = length a + 1"
  by (induction a b c rule: vecadd_loop.induct) (simp_all add: Let_def)

lemma val_vecadd:
  "length b \<le> length a \<Longrightarrow> val (vecadd_loop a b c) = val a + val b + unat c"
proof (induction a b c rule: vecadd_loop.induct)
  case (1 x a y b c)
  let ?x = "x + c" and ?c = "if x + c < c then 1 else 0 :: mpdigit"
  let ?d = "if ?x + y < y then ?c + 1 else ?c"
  have u: "unat ?d = (if x + c < c then 1 else 0) + (if ?x + y < y then 1 else 0)"
    by (simp add: unat_Suc_small)
  have "val (vecadd_loop a b ?d) = val a + val b + unat ?d" using 1 by simp
  then have "DB * val (vecadd_loop a b ?d) = DB * val a + DB * val b + DB * unat ?d" by (simp add: distrib_left)
  moreover have "unat (?x + y) + DB * unat ?d = unat x + unat c + unat y"
    using dig_add[of ?x y] dig_add[of x c] u by (auto split: if_splits)
  ultimately show ?case by (simp add: Let_def)
next
  case (2 x a c)
  have "unat (x + c) + DB * unat (if x + c < c then 1 else 0 :: mpdigit) = unat x + unat c"
    using dig_add[of x c] by (auto split: if_splits)
  then show ?case using 2 by (simp add: Let_def distrib_left)
qed simp_all

lemma length_vecsub [simp]: "length (vecsub_loop a b c) = length a"
  by (induction a b c rule: vecsub_loop.induct) (simp_all add: Let_def)

text \<open>The borrow that is left at the end, which the code drops.\<close>

lemma val_vecsub_borrow:
  "length b \<le> length a \<Longrightarrow> \<exists>k. val (vecsub_loop a b c) + val b + unat c = val a + k * DB ^ length a"
proof (induction a b c rule: vecsub_loop.induct)
  case (1 x a y b c)
  let ?y = "y + c" and ?c = "if y + c < c then 1 else 0 :: mpdigit"
  define d where "d = (if x < ?y then ?c + 1 else ?c)"
  have u: "unat d = (if y + c < c then 1 else 0) + (if x < ?y then 1 else 0)"
    by (simp add: unat_Suc_small d_def)
  obtain k where "val (vecsub_loop a b d) + val b + unat d = val a + k * DB ^ length a"
    using 1(1)[OF refl refl refl] 1(2) by (auto simp: d_def)
  then have "DB * (val (vecsub_loop a b d) + val b + unat d) = DB * (val a + k * DB ^ length a)" by simp
  moreover have "unat (x - ?y) + unat y + unat c = unat x + DB * unat d"
    using dig_sub[of x ?y] dig_add[of y c] u by (auto split: if_splits)
  moreover have "vecsub_loop (x # a) (y # b) c = (x - ?y) # vecsub_loop a b d"
    by (simp add: Let_def d_def)
  ultimately show ?case by (intro exI[of _ k]) (simp add: distrib_left mult.left_commute[of k])
next
  case (2 x a c)
  define d where "d = (if x - c > x then 1 else 0 :: mpdigit)"
  obtain k where "val (vecsub_loop a [] d) + unat d = val a + k * DB ^ length a"
    using 2(1)[OF refl refl] by (auto simp: d_def)
  then have "DB * (val (vecsub_loop a [] d) + unat d) = DB * (val a + k * DB ^ length a)" by simp
  moreover have "unat (x - c) + unat c = unat x + DB * unat d"
    using dig_sub[of x c] by (auto simp: dig_sub_wrap d_def)
  moreover have "vecsub_loop (x # a) [] c = (x - c) # vecsub_loop a [] d"
    by (simp add: Let_def d_def)
  ultimately show ?case by (intro exI[of _ k]) (simp add: distrib_left mult.left_commute[of k])
next
  case (3 b c)
  then show ?case by (intro exI[of _ "unat c"]) simp
qed

lemma val_vecsub:
  assumes "length b \<le> length a" "val b \<le> val a"
  shows "val (vecsub_loop a b 0) = val a - val b"
proof -
  obtain k where k: "val (vecsub_loop a b 0) + val b = val a + k * DB ^ length a"
    using val_vecsub_borrow[OF assms(1), of 0] by auto
  have "k = 0"
  proof (rule ccontr)
    assume "k \<noteq> 0"
    then have "DB ^ length a \<le> k * DB ^ length a" by simp
    moreover have "val (vecsub_loop a b 0) < DB ^ length a" using val_bound[of "vecsub_loop a b 0"] by simp
    ultimately show False using k assms(2) by linarith
  qed
  then show ?thesis using k by simp
qed

lemma mpvecadd_spec:
  assumes "blen \<le> alen" "alen \<le> length a" "blen \<le> length b" "alen < length s"
  obtains r where "mpvecadd a alen b blen s = Some (r @ drop (alen + 1) s)" "length r = alen + 1"
    "val r = val (take alen a) + val (take blen b)"
proof -
  let ?r = "vecadd_loop (take alen a) (take blen b) 0"
  have "mpvecadd a alen b blen s = Some (?r @ drop (alen + 1) s)"
    using assms by (simp add: mpvecadd_def rdn_def wr_def upd_def max_def)
  then show ?thesis using that[of ?r] assms by (simp add: val_vecadd)
qed

lemma mpvecsub_spec:
  assumes "blen \<le> alen" "alen \<le> length a" "blen \<le> length b" "alen \<le> length s"
    "val (take blen b) \<le> val (take alen a)"
  obtains r where "mpvecsub a alen b blen s = Some (r @ drop alen s)" "length r = alen"
    "val r = val (take alen a) - val (take blen b)"
proof -
  let ?r = "vecsub_loop (take alen a) (take blen b) 0"
  have "mpvecsub a alen b blen s = Some (?r @ drop alen s)"
    using assms by (simp add: mpvecsub_def rdn_def wr_def upd_def max_def)
  then show ?thesis using that[of ?r] assms by (simp add: val_vecsub)
qed

section \<open>Correctness of comparison\<close>

lemma val_take_Suc: "n < length a \<Longrightarrow> val (take (Suc n) a) = val (take n a) + DB ^ n * unat (a ! n)"
  by (simp add: take_Suc_conv_app_nth)

lemma val_take_bound: "n \<le> length a \<Longrightarrow> val (take n a) < DB ^ n"
  using val_bound[of "take n a"] by simp

lemma val_take_split: "m \<le> n \<Longrightarrow> n \<le> length a \<Longrightarrow> val (take n a) = val (take m a) + DB ^ m * val (drop m (take n a))"
proof -
  assume a: "m \<le> n" "n \<le> length a"
  have "take n a = take m a @ drop m (take n a)"
    using append_take_drop_id[of m "take n a"] a by (simp add: min_def del: append_take_drop_id)
  then have "val (take n a) = val (take m a @ drop m (take n a))" by (rule arg_cong)
  then show ?thesis using a by (simp add: val_append)
qed

lemma veccmp_high_spec:
  "n \<le> length a \<Longrightarrow> veccmp_high a m n = Some (m < n \<and> DB ^ m \<le> val (take n a))"
proof (induction a m n rule: veccmp_high.induct)
  case (2 a m n)
  show ?case
  proof (cases "Suc n > m")
    case True
    show ?thesis
    proof (cases "a ! n = 0")
      case nz: False
      then have "1 \<le> unat (a ! n)" by (simp add: Suc_le_eq unat_gt_0)
      then have "DB ^ n * 1 \<le> DB ^ n * unat (a ! n)" by (intro mult_le_mono2)
      moreover have "DB ^ m \<le> DB ^ n" using True by (intro power_increasing) (simp_all add: Suc_le_eq)
      ultimately have "DB ^ m \<le> val (take n a) + DB ^ n * unat (a ! n)" by linarith
      then show ?thesis using 2 True nz by (simp add: rd_def val_take_Suc)
    next
      case z: True
      have "veccmp_high a m n = Some (m < n \<and> DB ^ m \<le> val (take n a))" using 2 True z by (simp add: rd_def)
      moreover have "m = n \<Longrightarrow> \<not> DB ^ m \<le> val (take n a)" using val_take_bound[of n a] 2(2) by simp
      ultimately show ?thesis using 2(2) True z by (cases "m = n") (auto simp: rd_def val_take_Suc)
    qed
  next
    case False
    then show ?thesis by simp
  qed
qed simp

definition cmpz :: "nat \<Rightarrow> nat \<Rightarrow> int" where
  "cmpz x y = (if x < y then - 1 else if x = y then 0 else 1)"

lemma cmpz_digit:
  assumes "x < P" "y < P" "d < (e::nat)"
  shows "cmpz (x + P * d) (y + P * e) = - 1" "cmpz (y + P * e) (x + P * d) = 1"
proof -
  have "P * (d + 1) \<le> P * e" using assms(3) by (intro mult_le_mono2) simp
  then have "x + P * d < y + P * e" using assms(1) by simp
  then show "cmpz (x + P * d) (y + P * e) = - 1" "cmpz (y + P * e) (x + P * d) = 1" by (simp_all add: cmpz_def)
qed

lemma veccmp_low_spec:
  "n \<le> length a \<Longrightarrow> n \<le> length b \<Longrightarrow> veccmp_low a b n = Some (cmpz (val (take n a)) (val (take n b)))"
proof (induction n)
  case 0
  then show ?case by (simp add: cmpz_def)
next
  case (Suc n)
  let ?x = "a ! n" and ?y = "b ! n"
  have bd: "val (take n a) < DB ^ n" "val (take n b) < DB ^ n" using val_take_bound Suc.prems by auto
  have r: "rd a n = Some ?x" "rd b n = Some ?y" using Suc.prems by (simp_all add: rd_def)
  consider "?x = ?y" | "?x < ?y" | "?y < ?x" by (meson linorder_neqE)
  then show ?case
  proof cases
    case 1
    then show ?thesis using Suc r by (simp add: val_take_Suc cmpz_def)
  next
    case 2
    then have "veccmp_low a b (Suc n) = Some (- 1)" using r by (auto simp: dig_sub_wrap)
    then show ?thesis using cmpz_digit(1)[OF bd, of "unat ?x" "unat ?y"] 2 Suc.prems
      by (simp add: val_take_Suc word_less_nat_alt)
  next
    case 3
    then have "\<not> ?x < ?y" "?x \<noteq> ?y" by auto
    then have "veccmp_low a b (Suc n) = Some 1" using r by (simp add: dig_sub_wrap)
    then show ?thesis using cmpz_digit(2)[OF bd(2,1), of "unat ?y" "unat ?x"] 3 Suc.prems
      by (simp add: val_take_Suc word_less_nat_alt)
  qed
qed

lemma val_take_low:
  assumes "m \<le> n" "n \<le> length a" "val (take n a) < DB ^ m"
  shows "val (take n a) = val (take m a)"
proof -
  have s: "val (take n a) = val (take m a) + DB ^ m * val (drop m (take n a))" using val_take_split assms(1,2) .
  have "val (drop m (take n a)) = 0"
  proof (rule ccontr)
    assume "val (drop m (take n a)) \<noteq> 0"
    then have "DB ^ m * 1 \<le> DB ^ m * val (drop m (take n a))" by (intro mult_le_mono2) simp
    then show False using s assms(3) by linarith
  qed
  then show ?thesis using s by simp
qed

lemma mpveccmp_spec:
  assumes "alen \<le> length a" "blen \<le> length b"
  shows "mpveccmp a alen b blen = Some (cmpz (val (take alen a)) (val (take blen b)))"
proof -
  have ba: "val (take alen a) < DB ^ alen" "val (take blen b) < DB ^ blen" using val_take_bound assms by auto
  consider "blen < alen" | "alen < blen" | "alen = blen" by linarith
  then show ?thesis
  proof cases
    case 1
    show ?thesis
    proof (cases "DB ^ blen \<le> val (take alen a)")
      case True
      then show ?thesis using 1 assms ba by (simp add: mpveccmp_def veccmp_high_spec cmpz_def)
    next
      case False
      then have "val (take alen a) = val (take blen a)" using val_take_low[of blen alen a] 1 assms(1) by simp
      then show ?thesis using 1 False assms
        by (simp add: mpveccmp_def veccmp_high_spec veccmp_low_spec)
    qed
  next
    case 2
    show ?thesis
    proof (cases "DB ^ alen \<le> val (take blen b)")
      case True
      then show ?thesis using 2 assms ba by (simp add: mpveccmp_def veccmp_high_spec cmpz_def)
    next
      case False
      then have "val (take blen b) = val (take alen b)" using val_take_low[of alen blen b] 2 assms(2) by simp
      then show ?thesis using 2 False assms
        by (simp add: mpveccmp_def veccmp_high_spec veccmp_low_spec)
    qed
  next
    case 3
    then show ?thesis using assms by (simp add: mpveccmp_def veccmp_high_spec veccmp_low_spec)
  qed
qed

section \<open>Correctness of multiplication by a digit\<close>

lemma Dbits2: "Dbits div 2 = 16"
  by (simp add: Dbits_def)

lemma unat_HI: "unat (HI x) = unat x div DH"
  unfolding HI_def Dbits2 DH_def unsigned_drop_bit_eq
  using dig_lt[of x]
  by (simp add: DB_def drop_bit_eq_div take_bit_nat_eq_self)

lemma unat_LO: "unat (LO x) = unat x mod DH"
proof -
  have "LO x = take_bit 16 x" by (simp add: LO_def Dbits2 take_bit_eq_mask mask_eq_exp_minus_1)
  then show ?thesis by (simp only: DH_def unsigned_take_bit_eq) (simp add: take_bit_eq_mod)
qed

lemma HI_LO_bounds: "unat (HI x) < DH" "unat (LO x) < DH"
  using dig_lt[of x] by (simp_all add: unat_HI unat_LO DB_DH less_mult_imp_div_less)

lemma half_prod: "a < DH \<Longrightarrow> b < DH \<Longrightarrow> a * b < DB"
  unfolding DB_DH by (cases "b = 0") (auto intro: mult_strict_mono')

lemma unat_push16: "unat (push_bit (Dbits div 2) (x::mpdigit)) = unat x mod DH * DH"
proof -
  have "unat (push_bit (Dbits div 2) x) = (unat x * DH) mod DB"
    unfolding Dbits2 DH_def DB_def unsigned_push_bit_eq by (simp add: take_bit_eq_mod push_bit_eq_mult)
  then show ?thesis by (simp add: DB_DH mult_mod_left)
qed

lemma mpdigmul_spec:
  assumes "mpdigmul a b = (l, h)"
  shows "unat l + DB * unat h = unat a * unat b"
proof -
  define A1 A0 B1 B0 where "A1 = unat (HI a)" "A0 = unat (LO a)" "B1 = unat (HI b)" "B0 = unat (LO b)"
  note defs = A1_A0_B1_B0_def
  have bd: "A1 < DH" "A0 < DH" "B1 < DH" "B0 < DH" using HI_LO_bounds by (simp_all add: defs)
  have ab: "unat a = A1 * DH + A0" "unat b = B1 * DH + B0" by (simp_all add: defs unat_HI unat_LO)
  define p1 p2 p3 p4 where "p1 = HI a * LO b" "p2 = HI b * LO a" "p3 = LO b * LO a" "p4 = HI a * HI b"
  note pdefs = p1_p2_p3_p4_def
  have up: "unat p1 = A1 * B0" "unat p2 = B1 * A0" "unat p3 = B0 * A0" "unat p4 = A1 * B1"
    using half_prod bd by (simp_all add: pdefs unat_mul_DB defs[symmetric])
  define x1 x2 where "x1 = push_bit (Dbits div 2) p1" "x2 = push_bit (Dbits div 2) p2"
  define c1 c2 :: nat where "c1 = (if p3 + x1 < x1 then 1 else 0)" "c2 = (if p3 + x1 + x2 < x2 then 1 else 0)"
  define P1 where "P1 = A1 * B0"
  define P2 where "P2 = B1 * A0"
  have s1: "unat (p3 + x1) + c1 * DB = B0 * A0 + P1 mod DH * DH"
    using dig_add[of p3 x1] up by (auto simp: c1_c2_def x1_x2_def unat_push16 P1_def)
  have s2: "unat (p3 + x1 + x2) + c2 * DB = unat (p3 + x1) + P2 mod DH * DH"
    using dig_add[of "p3 + x1" x2] up by (auto simp: c1_c2_def x1_x2_def unat_push16 P2_def)
  define carry :: mpdigit where "carry = (if p3 + x1 + x2 < x2 then (if p3 + x1 < x1 then 0 + 1 else 0) + 1 else (if p3 + x1 < x1 then 0 + 1 else 0))"
  have uc: "unat carry = c1 + c2" by (simp add: carry_def c1_c2_def)
  have l: "l = p3 + x1 + x2" "h = p4 + (carry + HI p1 + HI p2)"
    using assms unfolding mpdigmul_def Let_def pdefs x1_x2_def carry_def by auto
  define S where "S = A1 * B1 + (c1 + c2 + P1 div DH + P2 div DH)"
  have "P1 mod DH * DH + DB * (P1 div DH) = P1 * DH" "P2 mod DH * DH + DB * (P2 div DH) = P2 * DH"
    unfolding DB_DH by (metis add.commute distrib_right div_mult_mod_eq mult.assoc mult.commute)+
  then have "unat l + DB * S = B0 * A0 + P1 * DH + P2 * DH + A1 * B1 * DB"
    using s1 s2 unfolding l S_def by (simp add: distrib_left mult.commute[of DB])
  also have "\<dots> = unat a * unat b"
    unfolding ab P1_def P2_def DB_DH by (simp add: algebra_simps)
  finally have tot: "unat l + DB * S = unat a * unat b" .
  have "unat a * unat b < DB * DB" using dig_lt[of a] dig_lt[of b] by (intro mult_strict_mono') simp_all
  then have "DB * S < DB * DB" using tot by linarith
  then have S: "S < DB" by simp
  have "unat h = S mod DB"
    unfolding l S_def using up uc
    by (simp add: unat_add_DB unat_HI P1_def P2_def mod_simps)
  then show ?thesis using tot S by simp
qed

text \<open>
  The invariant of both loops is that the high half of the last product and the carry still fit in a
  digit: \<open>(DB - 1)\<^sup>2 + 2 (DB - 1) = DB\<^sup>2 - 1\<close>.
\<close>

lemma dig_prod_le: "unat (b::mpdigit) * unat (m::mpdigit) \<le> (DB - 1) * (DB - 1)"
  using dig_lt[of b] dig_lt[of m] by (intro mult_le_mono) linarith+

lemma carry_fits:
  assumes "DB * s \<le> t + u + (DB - 1) * (DB - 1)" "t < DB" "u < DB"
  shows "s < DB"
proof (rule ccontr)
  obtain d where d: "DB = Suc d" using DB_pos(1) gr0_conv_Suc by blast
  assume "\<not> s < DB"
  then have "DB * DB \<le> DB * s" by simp
  then show False using assms unfolding d by simp
qed

lemma length_muladd [simp]: "length bs = length ps \<Longrightarrow> length (muladd_loop bs ps m c p1) = length bs + 1"
proof (induction bs ps m c p1 rule: muladd_loop.induct)
  case (1 b bs y p m c p1)
  then show ?case by (cases "mpdigmul b m") (simp add: Let_def)
qed simp_all

lemma val_muladd:
  "length bs = length ps \<Longrightarrow> unat c + unat p1 < DB \<Longrightarrow>
   val (muladd_loop bs ps m c p1) = val bs * unat m + val ps + unat c + unat p1"
proof (induction bs ps arbitrary: c p1 rule: list_induct2)
  case (Cons b bs y p)
  obtain l h where lh: "mpdigmul b m = (l, h)" by fastforce
  let ?x = "p1 + c" let ?z = "?x + l" let ?c = "if ?z < l then 1 else 0 :: mpdigit"
  define d where "d = (if ?z + y < y then ?c + 1 else ?c)"
  have nc: "\<not> ?x < c" using dig_add[of p1 c] dig_lt[of ?x] Cons.prems by (auto split: if_splits)
  have ud: "unat d = (if ?z < l then 1 else 0) + (if ?z + y < y then 1 else 0)"
    by (simp add: unat_Suc_small d_def)
  have x: "unat (?z + y) + DB * unat d = unat p1 + unat c + unat l + unat y"
    using dig_add[of p1 c] dig_add[of ?x l] dig_add[of ?z y] nc ud by (auto split: if_splits)
  note pr = mpdigmul_spec[OF lh]
  have "DB * (unat d + unat h) \<le> (unat c + unat p1) + unat y + (DB - 1) * (DB - 1)"
    using x pr dig_prod_le[of b m] by (simp add: distrib_left)
  then have inv: "unat d + unat h < DB" using carry_fits Cons.prems dig_lt by blast
  have step: "muladd_loop (b # bs) (y # p) m c p1 = (?z + y) # muladd_loop bs p m d h"
    using nc by (simp add: lh Let_def d_def)
  have "val (muladd_loop bs p m d h) = val bs * unat m + val p + unat d + unat h"
    using Cons.IH[OF inv] .
  then show ?case unfolding step using x pr by (simp add: algebra_simps)
next
  case Nil
  then show ?case by (simp add: unat_add_DB)
qed

lemma mpvecdigmuladd_spec:
  assumes "n \<le> length b" "n < length p"
  obtains r where "mpvecdigmuladd b n m p = Some (r @ drop (n + 1) p)" "length r = n + 1"
    "val r = val (take n b) * unat m + val (take n p)"
proof -
  let ?r = "muladd_loop (take n b) (take n p) m 0 0"
  have "mpvecdigmuladd b n m p = Some (?r @ drop (n + 1) p)"
    using assms by (simp add: mpvecdigmuladd_def rdn_def wr_def upd_def)
  then show ?thesis using that[of ?r] assms by (simp add: val_muladd)
qed

lemma mulsub_loop_spec:
  "length ps = length bs + 1 \<Longrightarrow> unat c + unat p1 < DB \<Longrightarrow> mulsub_loop bs ps m c p1 = (ds, r) \<Longrightarrow>
   length ds = length ps \<and> (r = 1 \<or> r = - 1) \<and>
   val ds + val bs * unat m + unat c + unat p1 = val ps + (if r = 1 then 0 else DB ^ length ps)"
proof (induction bs arbitrary: ps c p1 ds r)
  case (Cons b bs ps)
  obtain x p where ps: "ps = x # p" "length p = length bs + 1" using Cons.prems(1) by (cases ps) auto
  obtain l h where lh: "mpdigmul b m = (l, h)" by fastforce
  let ?y = "x - c" let ?z = "p1 + l" let ?c = "if ?y > x then 1 else 0 :: mpdigit"
  define e where "e = (if ?z < l then ?c + 1 else ?c)"
  define d where "d = (if ?y - ?z > ?y then e + 1 else e)"
  have ue: "unat e = (if ?y > x then 1 else 0) + (if ?z < l then 1 else 0)"
    by (simp add: unat_Suc_small e_def)
  then have ud: "unat d = unat e + (if ?y - ?z > ?y then 1 else 0)"
    by (simp add: unat_Suc_small d_def)
  have x: "unat (?y - ?z) + unat p1 + unat l + unat c = unat x + DB * unat d"
    using dig_sub[of x c] dig_add[of p1 l] dig_sub[of ?y ?z] ue ud
    unfolding dig_sub_wrap by (auto split: if_splits)
  note pr = mpdigmul_spec[OF lh]
  have "DB * (unat d + unat h) \<le> (unat c + unat p1) + unat (?y - ?z) + (DB - 1) * (DB - 1)"
    using x pr dig_prod_le[of b m] by (simp add: distrib_left)
  then have inv: "unat d + unat h < DB" using carry_fits Cons.prems(2) dig_lt by blast
  obtain ds' where rec: "mulsub_loop bs p m d h = (ds', r)" and ds: "ds = (?y - ?z) # ds'"
    using Cons.prems(3) unfolding ps mulsub_loop.simps lh Let_def
    by (cases "mulsub_loop bs p m d h") (auto simp only: d_def[symmetric] e_def[symmetric] prod.case prod.inject)
  have ih: "length ds' = length p" "r = 1 \<or> r = - 1"
    "val ds' + val bs * unat m + unat d + unat h = val p + (if r = 1 then 0 else DB ^ length p)"
    using Cons.IH[OF ps(2) inv rec] by blast+
  have "DB * val ds' + DB * (val bs * unat m) + DB * unat d + DB * unat h
      = DB * val p + (if r = 1 then 0 else DB * DB ^ length p)"
    using arg_cong[OF ih(3), of "\<lambda>v. DB * v"] by (simp add: distrib_left split: if_splits)
  then have "val ds + val (b # bs) * unat m + unat c + unat p1 = val ps + (if r = 1 then 0 else DB ^ length ps)"
    unfolding ds ps(1) val.simps using x pr by (auto simp: distrib_right mult.assoc split: if_splits)
  then show ?case using ih(1,2) by (simp add: ds ps(1))
next
  case (Nil ps)
  then obtain x where ps: "ps = [x]" by (cases ps) auto
  have "unat (c + p1) = unat c + unat p1" using Nil(2) by (simp add: unat_add_DB)
  then show ?case using Nil dig_sub[of x "c + p1"] dig_sub_wrap[of x "c + p1"]
    by (auto simp: Let_def ps diff_diff_eq)
qed

lemma mpvecdigmulsub_spec:
  assumes "n \<le> length b" "n < length p"
  obtains r s where "mpvecdigmulsub b n m p = Some (r @ drop (n + 1) p, s)" "length r = n + 1" "s = 1 \<or> s = - 1"
    "val r + val (take n b) * unat m = val (take (n + 1) p) + (if s = 1 then 0 else DB ^ (n + 1))"
proof -
  obtain r s where l: "mulsub_loop (take n b) (take (n + 1) p) m 0 0 = (r, s)" by fastforce
  have sp: "length r = n + 1" "s = 1 \<or> s = - 1"
    "val r + val (take n b) * unat m = val (take (n + 1) p) + (if s = 1 then 0 else DB ^ (n + 1))"
    using mulsub_loop_spec[OF _ _ l] assms by simp_all
  moreover have "mpvecdigmulsub b n m p = Some (r @ drop (n + 1) p, s)"
    using assms l sp(1) by (simp add: mpvecdigmulsub_def rdn_def wr_def upd_def)
  ultimately show ?thesis using that by simp
qed

section \<open>Correctness of the division of two digits by one\<close>

lemma unat_shr1: "unat (drop_bit 1 (x::mpdigit)) = unat x div 2"
  unfolding unsigned_drop_bit_eq using dig_lt[of x] by (simp add: DB_def drop_bit_eq_div take_bit_nat_eq_self)

lemma unat_shl: "unat (push_bit i (x::mpdigit)) = (unat x * 2 ^ i) mod DB"
  unfolding DB_def unsigned_push_bit_eq by (simp add: take_bit_eq_mod push_bit_eq_mult)

lemma or_bit_nat: "(2 ^ Suc i * k) OR 2 ^ i = 2 ^ Suc i * k + (2 ^ i :: nat)"
proof -
  have "\<not> bit (2 ^ Suc i * k) n \<or> \<not> bit (2 ^ i :: nat) n" for n
    using bit_push_bit_iff_nat[of "Suc i" k n]
    by (auto simp: push_bit_eq_mult bit_exp_iff mult.commute)
  then show ?thesis by (rule disjunctive_add[symmetric])
qed

lemma unat_or_bit:
  assumes "unat (q::mpdigit) = 2 ^ Suc i * k" "i < 32"
  shows "unat (q OR push_bit i 1) = unat q + 2 ^ i"
proof -
  have "(2::nat) ^ i < DB" using assms(2) unfolding DB_def by (intro power_strict_increasing) simp_all
  then have "unat (push_bit i 1 :: mpdigit) = 2 ^ i" unfolding unat_shl by simp
  then show ?thesis unfolding unsigned_or_eq by (simp only: assms(1) or_bit_nat)
qed

lemma cmp_two: "(l::nat) < DB \<Longrightarrow> y < DB \<Longrightarrow> h * DB + l < x * DB + y \<longleftrightarrow> h < x \<or> h = x \<and> l < y"
proof -
  assume b: "l < DB" "y < DB"
  have "h < x \<Longrightarrow> (h + 1) * DB \<le> x * DB" "x < h \<Longrightarrow> (x + 1) * DB \<le> h * DB" by (intro mult_le_mono1; simp)+
  then show ?thesis using b by (cases "h < x"; cases "x < h") auto
qed

text \<open>Subtracting \<open>x * DB + y\<close> from the pair \<open>(hi, lo)\<close> with a borrow.\<close>

lemma sub_two:
  assumes "unat x * DB + unat y \<le> unat hi * DB + unat lo"
  shows "unat ((if y > lo then hi - 1 else hi) - x) * DB + unat (lo - y :: mpdigit) + (unat x * DB + unat y)
    = unat (hi::mpdigit) * DB + unat lo"
proof -
  have xy: "unat x < unat hi \<or> unat x = unat hi \<and> unat y \<le> unat lo"
    using cmp_two[of "unat lo" "unat y" "unat hi" "unat x"] assms dig_lt[of lo] dig_lt[of y] by (auto simp: not_less)
  show ?thesis
  proof (cases "lo < y")
    case True
    then have h: "unat x < unat hi" using xy by (auto simp: word_less_nat_alt)
    then have "unat (hi - 1) = unat hi - 1" by (simp add: unat_sub word_le_nat_alt)
    then have h': "unat (hi - 1 - x) + unat x + 1 = unat hi"
      using h dig_sub[of "hi - 1" x] by (auto simp: word_less_nat_alt split: if_splits)
    have "unat hi * DB = unat (hi - 1 - x) * DB + unat x * DB + DB"
      unfolding h'[symmetric] by (simp add: distrib_right)
    then show ?thesis using True dig_sub[of lo y] by simp
  next
    case False
    then have h': "unat (hi - x) + unat x = unat hi"
      using xy dig_sub[of hi x] by (auto simp: word_less_nat_alt split: if_splits)
    have "unat hi * DB = unat (hi - x) * DB + unat x * DB"
      unfolding h'[symmetric] by (simp add: distrib_right)
    then show ?thesis using False dig_sub[of lo y] by simp
  qed
qed

lemma digdiv_loop_spec:
  assumes "n \<le> 32" "unat x = unat D * 2 ^ n div DB" "unat hi * DB + unat lo < unat D * 2 ^ n" "unat q = 2 ^ n * k"
    "digdiv_loop n hi lo q x D = (hi', lo', q')"
  shows "hi' = 0 \<and> unat lo' + unat D * unat q' = unat hi * DB + unat lo + unat D * unat q"
  using assms
proof (induction n arbitrary: hi lo q x k)
  case 0
  have "unat hi * DB + unat lo < unat D" using 0 by simp
  then have "unat hi * DB < DB" using dig_lt[of D] by linarith
  then have "unat hi = 0" by simp
  then show ?case using 0 by (simp add: unat_eq_zero)
next
  case (Suc i)
  show ?case
  proof (cases "hi = 0")
    case True
    then show ?thesis using Suc.prems by simp
  next
    case hi: False
    let ?x = "drop_bit 1 x" and ?y = "push_bit i D"
    let ?N = "unat hi * DB + unat lo" and ?T = "unat D * 2 ^ i"
    have ux: "unat ?x = ?T div DB"
      unfolding unat_shr1 Suc.prems(2) by (simp add: div_mult2_eq[symmetric] mult.commute[of DB] div_mult_mult1)
    have T: "unat ?x * DB + unat ?y = ?T" unfolding ux unat_shl by simp
    have c: "?N < ?T \<longleftrightarrow> hi < ?x \<or> hi = ?x \<and> lo < ?y"
      unfolding T[symmetric] using cmp_two[of "unat lo" "unat ?y"] dig_lt
      by (auto simp: word_less_nat_alt word_unat_eq_iff)
    show ?thesis
    proof (cases "?N < ?T")
      case True
      then have "digdiv_loop (Suc i) hi lo q x D = digdiv_loop i hi lo q ?x D"
        using c hi by (auto simp: Let_def word_neq_0_conv)
      then show ?thesis using Suc.IH[OF _ ux True, of q "2 * k"] Suc.prems by simp
    next
      case False
      let ?hi = "(if ?y > lo then hi - 1 else hi) - ?x" and ?q = "q OR push_bit i 1"
      have eq: "digdiv_loop (Suc i) hi lo q x D = digdiv_loop i ?hi (lo - ?y) ?q ?x D"
        using False c hi by (auto simp: Let_def word_neq_0_conv)
      have s: "unat ?hi * DB + unat (lo - ?y) + ?T = ?N"
        using sub_two[of ?x ?y hi lo] False unfolding T by simp
      have q: "unat ?q = unat q + 2 ^ i" using unat_or_bit[OF Suc.prems(4)] Suc.prems(1) by simp
      have "unat ?q = 2 ^ i * (2 * k + 1)" unfolding q Suc.prems(4) by simp
      then have "hi' = 0 \<and> unat lo' + unat D * unat q' = unat ?hi * DB + unat (lo - ?y) + unat D * unat ?q"
        using Suc.IH[OF _ ux, of ?hi "lo - ?y" ?q "2 * k + 1"] s Suc.prems eq by simp
      then show ?thesis using s unfolding q by (simp add: distrib_left)
    qed
  qed
qed

lemma mpdigdiv_spec:
  assumes "1 < length d"
  shows "mpdigdiv d D = Some (if D = 0 \<or> D \<le> d ! 1 then NOT 0
    else of_nat ((unat (d ! 1) * DB + unat (d ! 0)) div unat D))"
proof (cases "D = 0 \<or> D \<le> d ! 1")
  case True
  then show ?thesis using assms by (auto simp: mpdigdiv_def rd_def)
next
  case False
  let ?N = "unat (d ! 1) * DB + unat (d ! 0)"
  obtain hi lo q where l: "digdiv_loop Dbits (d ! 1) (d ! 0) 0 D D = (hi, lo, q)" using prod_cases3 by blast
  have D: "unat D > 0" using False by (simp add: unat_gt_0)
  have "(unat (d ! 1) + 1) * DB \<le> unat D * DB" using False by (intro mult_le_mono1) (simp add: word_le_nat_alt)
  then have N: "?N < unat D * DB" using dig_lt[of "d ! 0"] by simp
  have r: "unat lo + unat D * unat q = ?N"
    using digdiv_loop_spec[OF _ _ _ _ l, of 0] N unfolding Dbits_def DB_def[symmetric] by simp
  have "unat q + unat lo div unat D = ?N div unat D"
    unfolding r[symmetric] using D by simp
  then have "of_nat (unat q + unat (lo div D)) = (of_nat (?N div unat D) :: mpdigit)" by (simp only: unat_div)
  then have "q + lo div D = of_nat (?N div unat D)" by simp
  then show ?thesis using assms False l by (auto simp: mpdigdiv_def rd_def)
qed

section \<open>Properties\<close>

text \<open>
  C9: on vectors with room for the result \<^verbatim>\<open>mpvecadd\<close> writes the digits of the sum and a carry
  digit, \<^verbatim>\<open>mpvecsub\<close> the digits of the difference when it is not negative, and both leave the rest of
  the destination alone; \<^verbatim>\<open>mpveccmp\<close> returns the sign of the difference for any two lengths.
\<close>

theorem mpvec_addsub:
  assumes "blen \<le> alen" "alen \<le> length a" "blen \<le> length b" "alen < length s"
  shows "(\<exists>r. mpvecadd a alen b blen s = Some (r @ drop (alen + 1) s) \<and> length r = alen + 1 \<and>
        val r = val (take alen a) + val (take blen b)) \<and>
    (val (take blen b) \<le> val (take alen a) \<longrightarrow>
      (\<exists>r. mpvecsub a alen b blen s = Some (r @ drop alen s) \<and> length r = alen \<and>
        val r = val (take alen a) - val (take blen b))) \<and>
    mpveccmp a alen b blen = Some (sgn (int (val (take alen a)) - int (val (take blen b)))) \<and>
    mpveccmp b blen a alen = Some (sgn (int (val (take blen b)) - int (val (take alen a))))"
proof (intro conjI impI)
  show "\<exists>r. mpvecadd a alen b blen s = Some (r @ drop (alen + 1) s) \<and> length r = alen + 1 \<and>
      val r = val (take alen a) + val (take blen b)"
    by (rule mpvecadd_spec[OF assms]) blast
  show "\<exists>r. mpvecsub a alen b blen s = Some (r @ drop alen s) \<and> length r = alen \<and>
        val r = val (take alen a) - val (take blen b)" if "val (take blen b) \<le> val (take alen a)"
    by (rule mpvecsub_spec[OF assms(1-3) less_imp_le[OF assms(4)] that]) blast
qed (simp_all add: mpveccmp_spec[OF assms(2,3)] mpveccmp_spec[OF assms(3,2)] cmpz_def sgn_if)

theorem mpvec_addsub_witness:
  "mpveccmp [7, 1] 2 [9] 1 = Some 1 \<and>
   (\<exists>r. mpvecadd [7, 1] 2 [9] 1 [0, 0, 0, 5] = Some (r @ [5]) \<and> val r = val [7, 1] + val [9]) \<and>
   (\<exists>r. mpvecsub [7, 1] 2 [9] 1 [0, 0, 0, 5] = Some (r @ [0, 5]) \<and> val r = val [7, 1] - val [9])"
proof -
  have d: "drop 2 [0, 0, 0, 5 :: mpdigit] = [0, 5]" "drop (2 + 1) [0, 0, 0, 5 :: mpdigit] = [5]"
    "take 2 [7, 1 :: mpdigit] = [7, 1]" "take 1 [9 :: mpdigit] = [9]" by (simp_all add: numeral_2_eq_2)
  have v: "val [9] \<le> val [7, 1]" "sgn (int (val [7, 1]) - int (val [9])) = 1" by (simp_all add: DB_def)
  show ?thesis
    using mpvec_addsub[of 1 2 "[7, 1]" "[9]" "[0, 0, 0, 5]", unfolded d v(2)] v(1)
    by (simp del: val.simps) blast
qed

text \<open>
  C30: for a dividend of two digits, high digit below the divisor, \<^verbatim>\<open>mpdigdiv\<close> returns the quotient,
  which fits in a digit, and in every other case the largest digit.
\<close>

theorem mpdigdiv_exact:
  "(hi < D \<longrightarrow> (\<exists>q. mpdigdiv (lo # hi # ds) D = Some q \<and> unat q = val [lo, hi] div unat D)) \<and>
   (D \<le> hi \<longrightarrow> mpdigdiv (lo # hi # ds) D = Some (NOT 0))"
proof (intro conjI impI)
  assume lt: "hi < D"
  let ?N = "unat hi * DB + unat lo"
  have "(unat hi + 1) * DB \<le> unat D * DB" using lt by (intro mult_le_mono1) (simp add: word_less_nat_alt)
  then have "?N < unat D * DB" using dig_lt[of lo] by simp
  then have "?N div unat D < DB" by (simp add: less_mult_imp_div_less mult.commute)
  then have "unat (of_nat (?N div unat D) :: mpdigit) = ?N div unat D"
    unfolding DB_def by (simp add: unat_of_nat take_bit_nat_eq_self)
  moreover have "D \<noteq> 0" "\<not> D \<le> hi" using lt by auto
  ultimately show "\<exists>q. mpdigdiv (lo # hi # ds) D = Some q \<and> unat q = val [lo, hi] div unat D"
    by (intro exI[of _ "of_nat (?N div unat D)"]) (simp add: mpdigdiv_spec add.commute mult.commute)
qed (simp add: mpdigdiv_spec)

theorem mpdigdiv_exact_witness:
  "(\<exists>q. mpdigdiv [5, 1] 3 = Some q \<and> unat q = val [5, 1] div 3) \<and> mpdigdiv [5, 1] 0 = Some (NOT 0)"
  using mpdigdiv_exact[of 1 3 5 "[]"] mpdigdiv_exact[of 1 0 5 "[]"] by (simp del: val.simps)

end
