(* ===== verification/Outcome.thy ===== *)
theory Outcome
  imports P9Prelude
begin

text \<open>
  The result of an operation that may end the process: \<open>Abort\<close> for \<^verbatim>\<open>abort\<close>, \<^verbatim>\<open>sysfatal\<close> and a failed \<^verbatim>\<open>assert\<close>,
  \<open>Undef\<close> for undefined behaviour such as an access through a nil pointer or to a freed object.
\<close>

datatype 'a outcome = Ok 'a | Abort string | Undef

primrec andthen :: "'a outcome \<Rightarrow> ('a \<Rightarrow> 'b outcome) \<Rightarrow> 'b outcome" where
  "andthen (Ok x) f = f x"
| "andthen (Abort e) f = Abort e"
| "andthen Undef f = Undef"

text \<open>An access to memory that may be out of bounds.\<close>

definition access :: "'a option \<Rightarrow> 'a outcome" where
  "access r = (case r of None \<Rightarrow> Undef | Some x \<Rightarrow> Ok x)"

lemma access_simps [simp]: "access (Some x) = Ok x" "access None = Undef"
  by (simp_all add: access_def)

lemma andthen_assoc: "andthen (andthen m f) g = andthen m (\<lambda>x. andthen (f x) g)"
  by (cases m) simp_all

lemma andthen_Ok [simp]: "andthen m Ok = m"
  by (cases m) simp_all

end
