(* ===== verification/MpHeap.thy ===== *)
theory MpHeap
  imports MpVec Outcome
begin

text \<open>
  Multiple-precision integers as objects in memory, src/libmp/port/mpaux.c. Operations take pointers, so
  that a result may be the same object as an operand, which mp.h allows: a pointer is an address, the
  memory a partial map from addresses to \<^verbatim>\<open>mpint\<close> structures, and a freed object is no longer in it.
  \<^verbatim>\<open>sysfatal\<close> and \<^verbatim>\<open>abort\<close> end an operation with \<open>Abort\<close>, undefined behaviour with \<open>Undef\<close>. Allocation
  succeeds: after a failure \<^verbatim>\<open>mpnew\<close> and \<^verbatim>\<open>mpbits\<close> end the process.
\<close>

section \<open>The structure and the memory\<close>

record mpint =
  mp_sign :: int
  mp_size :: nat
  mp_top :: nat
  mp_p :: "mpdigit list"
  mp_flags :: byte

definition MPstatic :: byte where "MPstatic = 1"

record mpheap =
  mem :: "nat \<Rightarrow> mpint option"
  brk :: nat
  mpmindigits :: int

definition mpzero :: nat where "mpzero = 0"

definition mpone :: nat where "mpone = 1"

definition mptwo :: nat where "mptwo = 2"

definition mpzero_obj :: mpint where
  "mpzero_obj = \<lparr>mp_sign = 1, mp_size = 1, mp_top = 0, mp_p = [0], mp_flags = MPstatic\<rparr>"

definition mpone_obj :: mpint where
  "mpone_obj = \<lparr>mp_sign = 1, mp_size = 1, mp_top = 1, mp_p = [1], mp_flags = MPstatic\<rparr>"

definition mptwo_obj :: mpint where
  "mptwo_obj = \<lparr>mp_sign = 1, mp_size = 1, mp_top = 1, mp_p = [2], mp_flags = MPstatic\<rparr>"

text \<open>The memory of a program that has not called the library yet.\<close>

definition mpinit :: mpheap where
  "mpinit = \<lparr>mem = [mpzero \<mapsto> mpzero_obj, mpone \<mapsto> mpone_obj, mptwo \<mapsto> mptwo_obj], brk = 3, mpmindigits = 33\<rparr>"

definition get :: "nat \<Rightarrow> mpheap \<Rightarrow> mpint outcome" where
  "get b h = access (mem h b)"

definition put :: "nat \<Rightarrow> mpint \<Rightarrow> mpheap \<Rightarrow> mpheap" where
  "put b x h = h\<lparr>mem := (mem h)(b \<mapsto> x)\<rparr>"

definition modify :: "nat \<Rightarrow> (mpint \<Rightarrow> mpint) \<Rightarrow> mpheap \<Rightarrow> mpheap outcome" where
  "modify b f h = andthen (get b h) (\<lambda>x. Ok (put b (f x) h))"

section \<open>Allocation and housekeeping\<close>

text \<open>\<^verbatim>\<open>DIGITS(x)\<close>; the division of C truncates.\<close>

definition DIGITS :: "int \<Rightarrow> int" where
  "DIGITS x = (let n = int Dbits - 1 + x in if n < 0 then - ((- n) div int Dbits) else n div int Dbits)"

definition mpsetminbits :: "int \<Rightarrow> mpheap \<Rightarrow> mpheap outcome" where
  "mpsetminbits n h =
    (if n < 0 then Abort ''mpsetminbits: n < 0''
     else let n = (if n = 0 then 1 else n) in Ok (h\<lparr>mpmindigits := DIGITS n\<rparr>))"

definition mpnew :: "int \<Rightarrow> mpheap \<Rightarrow> (nat \<times> mpheap) outcome" where
  "mpnew n h =
    (if n < 0 then Abort ''mpsetminbits: n < 0''
     else
       let n = DIGITS n;
           n = (if n < mpmindigits h then mpmindigits h else n);
           b = brk h
       in Ok (b, h\<lparr>mem := (mem h)(b \<mapsto> \<lparr>mp_sign = 1, mp_size = nat n, mp_top = 0,
             mp_p = replicate (nat n) 0, mp_flags = 0\<rparr>), brk := b + 1\<rparr>))"

text \<open>
  \<^verbatim>\<open>realloc\<close> keeps the old digits and leaves the others indeterminate; the zeros that stand for them are
  overwritten by the \<^verbatim>\<open>memset\<close> that follows.
\<close>

definition realloc :: "mpdigit list \<Rightarrow> nat \<Rightarrow> mpdigit list" where
  "realloc p n = take n p @ replicate (n - length p) 0"

definition mpbits :: "nat \<Rightarrow> int \<Rightarrow> mpheap \<Rightarrow> mpheap outcome" where
  "mpbits b m h =
    andthen (get b h) (\<lambda>x.
    let n = DIGITS m in
    if int (mp_size x) \<ge> n then
      if int (mp_top x) \<ge> n then Ok h
      else
        andthen (access (wr (mp_p x) (mp_top x) (replicate (nat n - mp_top x) 0))) (\<lambda>p.
        Ok (put b (x\<lparr>mp_p := p, mp_top := nat n\<rparr>) h))
    else
      andthen (access (wr (realloc (mp_p x) (nat n)) (mp_top x) (replicate (nat n - mp_top x) 0))) (\<lambda>p.
      Ok (put b (x\<lparr>mp_p := p, mp_size := nat n, mp_top := nat n\<rparr>) h)))"

definition mpfree :: "nat option \<Rightarrow> mpheap \<Rightarrow> mpheap outcome" where
  "mpfree b h =
    (case b of None \<Rightarrow> Ok h
     | Some b \<Rightarrow>
       andthen (get b h) (\<lambda>x.
       if mp_flags x AND MPstatic \<noteq> 0 then Abort ''freeing mp constant''
       else
         andthen (access (wr (mp_p x) 0 (replicate (mp_size x) 0))) (\<lambda>p.
         Ok (h\<lparr>mem := (mem h)(b := None)\<rparr>))))"

fun norm_loop :: "mpdigit list \<Rightarrow> nat \<Rightarrow> nat option" where
  "norm_loop p 0 = Some 0"
| "norm_loop p (Suc i) = do { x \<leftarrow> rd p i; if x \<noteq> 0 then Some (Suc i) else norm_loop p i }"

definition mpnorm :: "nat \<Rightarrow> mpheap \<Rightarrow> mpheap outcome" where
  "mpnorm b h =
    andthen (get b h) (\<lambda>x.
    andthen (access (norm_loop (mp_p x) (mp_top x))) (\<lambda>i.
    let x = x\<lparr>mp_top := i\<rparr>;
        x = (if mp_top x = 0 then x\<lparr>mp_sign := 1\<rparr> else x)
    in Ok (put b x h)))"

definition mpcopy :: "nat \<Rightarrow> mpheap \<Rightarrow> (nat \<times> mpheap) outcome" where
  "mpcopy old h =
    andthen (get old h) (\<lambda>x.
    andthen (mpnew (int (Dbits * mp_size x)) h) (\<lambda>(new, h).
    andthen (get new h) (\<lambda>y.
    andthen (access (rdn (mp_p x) 0 (mp_top x))) (\<lambda>ds.
    andthen (access (wr (mp_p y) 0 ds)) (\<lambda>p.
    Ok (new, put new (y\<lparr>mp_top := mp_top x, mp_sign := mp_sign x, mp_p := p\<rparr>) h))))))"

definition mpassign :: "nat \<Rightarrow> nat \<Rightarrow> mpheap \<Rightarrow> mpheap outcome" where
  "mpassign old new h =
    andthen (get old h) (\<lambda>x.
    andthen (mpbits new (int (Dbits * mp_top x)) h) (\<lambda>h.
    andthen (get old h) (\<lambda>x.
    andthen (modify new (\<lambda>y. y\<lparr>mp_sign := mp_sign x, mp_top := mp_top x\<rparr>) h) (\<lambda>h.
    andthen (get old h) (\<lambda>x.
    andthen (get new h) (\<lambda>y.
    andthen (access (rdn (mp_p x) 0 (mp_top x))) (\<lambda>ds.
    andthen (access (wr (mp_p y) 0 ds)) (\<lambda>p.
    Ok (put new (y\<lparr>mp_p := p\<rparr>) h)))))))))"

section \<open>Counting bits\<close>

fun signif_bit :: "mpdigit \<Rightarrow> nat \<Rightarrow> nat option" where
  "signif_bit d 0 = None"
| "signif_bit d (Suc j) = (if d AND push_bit j 1 \<noteq> 0 then Some j else signif_bit d j)"

fun signif_loop :: "mpdigit list \<Rightarrow> nat \<Rightarrow> nat option" where
  "signif_loop p 0 = Some 0"
| "signif_loop p (Suc i) = do {
     d \<leftarrow> rd p i;
     case signif_bit d Dbits of
       Some j \<Rightarrow> Some (i * Dbits + j + 1)
     | None \<Rightarrow> signif_loop p i }"

definition mpsignif :: "nat \<Rightarrow> mpheap \<Rightarrow> nat outcome" where
  "mpsignif n h =
    andthen (get n h) (\<lambda>x.
    if mp_top x = 0 then Ok 0
    else access (signif_loop (mp_p x) (mp_top x)))"

text \<open>The scan of \<^verbatim>\<open>mplowbits0\<close> from the low end: the bits of a digit, of which \<open>r\<close> are left, and the digits.\<close>

fun low_bit :: "mpdigit \<Rightarrow> nat \<Rightarrow> nat option" where
  "low_bit d 0 = None"
| "low_bit d (Suc r) =
    (let j = Dbits - Suc r in if d AND push_bit j 1 \<noteq> 0 then Some j else low_bit d r)"

fun lowbits_loop :: "mpdigit list \<Rightarrow> nat \<Rightarrow> nat \<Rightarrow> nat \<Rightarrow> nat option" where
  "lowbits_loop p k digit 0 = Some 0"
| "lowbits_loop p k digit (Suc r) = do {
     d \<leftarrow> rd p digit;
     case low_bit d Dbits of
       Some j \<Rightarrow> Some (k + j)
     | None \<Rightarrow> lowbits_loop p (k + Dbits) (digit + 1) r }"

definition mplowbits0 :: "nat \<Rightarrow> mpheap \<Rightarrow> nat outcome" where
  "mplowbits0 n h =
    andthen (get n h) (\<lambda>x.
    if mp_top x = 0 then Ok 0
    else access (lowbits_loop (mp_p x) 0 0 (mp_top x)))"

section \<open>Well-formed numbers and their values\<close>

definition mp_ok :: "mpint \<Rightarrow> bool" where
  "mp_ok x \<longleftrightarrow> mp_size x = length (mp_p x) \<and> mp_top x \<le> mp_size x \<and> (mp_sign x = 1 \<or> mp_sign x = - 1)"

text \<open>No leading zero digits.\<close>

definition mp_norm :: "mpint \<Rightarrow> bool" where
  "mp_norm x \<longleftrightarrow> mp_ok x \<and> (mp_top x > 0 \<longrightarrow> mp_p x ! (mp_top x - 1) \<noteq> 0)"

text \<open>The form in which numbers are equal when their representations are: zero is positive.\<close>

definition mp_can :: "mpint \<Rightarrow> bool" where
  "mp_can x \<longleftrightarrow> mp_norm x \<and> (mp_top x = 0 \<longrightarrow> mp_sign x = 1)"

definition mag :: "mpint \<Rightarrow> nat" where
  "mag x = val (take (mp_top x) (mp_p x))"

definition mpval :: "mpint \<Rightarrow> int" where
  "mpval x = mp_sign x * int (mag x)"

lemma mp_normD [dest]: "mp_norm x \<Longrightarrow> mp_ok x"
  by (simp add: mp_norm_def)

lemma mp_canD [dest]: "mp_can x \<Longrightarrow> mp_norm x"
  by (simp add: mp_can_def)

lemma mp_okD:
  assumes "mp_ok x"
  shows "mp_size x = length (mp_p x)" "mp_top x \<le> length (mp_p x)"
  using assms by (auto simp: mp_ok_def)

lemma mag_bound: "mp_ok x \<Longrightarrow> mag x < DB ^ mp_top x"
  using val_take_bound[of "mp_top x" "mp_p x"] by (simp add: mag_def mp_ok_def)

text \<open>A number without leading zeros is at least the weight of its highest digit.\<close>

lemma val_ge_top:
  assumes "n \<le> length p" "0 < n" "p ! (n - 1) \<noteq> 0"
  shows "DB ^ (n - 1) \<le> val (take n p)"
proof -
  obtain m where m: "n = Suc m" using assms(2) gr0_conv_Suc by blast
  have "1 \<le> unat (p ! m)" using assms(3) m by (simp add: Suc_le_eq unat_gt_0)
  then have "DB ^ m * 1 \<le> DB ^ m * unat (p ! m)" by (intro mult_le_mono2)
  moreover have "val (take n p) = val (take m p) + DB ^ m * unat (p ! m)"
    using assms(1) unfolding m by (intro val_take_Suc) simp
  ultimately show ?thesis unfolding m diff_Suc_1 by linarith
qed

lemma mag_ge: "mp_norm x \<Longrightarrow> 0 < mp_top x \<Longrightarrow> DB ^ (mp_top x - 1) \<le> mag x"
  unfolding mag_def by (intro val_ge_top) (auto simp: mp_norm_def mp_ok_def)

lemma mag_0_iff: "mp_norm x \<Longrightarrow> mag x = 0 \<longleftrightarrow> mp_top x = 0"
  using mag_ge[of x] zero_less_power[OF DB_pos(1), of "mp_top x - 1"]
  by (cases "mp_top x = 0") (simp add: mag_def, linarith)

lemma mpval_0_iff: "mp_norm x \<Longrightarrow> mpval x = 0 \<longleftrightarrow> mp_top x = 0"
  using mag_0_iff[of x] by (auto simp: mpval_def mp_norm_def mp_ok_def)

lemma mp_can_sign:
  assumes "mp_can x"
  shows "mp_sign x = (if mpval x < 0 then - 1 else 1)"
proof -
  have n: "mp_norm x" and z: "mp_top x = 0 \<longrightarrow> mp_sign x = 1" using assms by (auto simp: mp_can_def)
  then have "mp_sign x = 1 \<or> mp_sign x = - 1" by (auto simp: mp_ok_def)
  then show ?thesis using z mag_0_iff[OF n] by (auto simp: mpval_def mult_less_0_iff)
qed

lemma mpval_abs: "mp_ok x \<Longrightarrow> \<bar>mpval x\<bar> = int (mag x)"
  by (auto simp: mpval_def mp_ok_def abs_mult)

section \<open>Reading and writing objects\<close>

lemma get_Some [simp]: "mem h b = Some x \<Longrightarrow> get b h = Ok x"
  by (simp add: get_def)

lemma mem_put [simp]: "mem (put b x h) a = (if a = b then Some x else mem h a)"
  by (simp add: put_def)

lemma put_put [simp]: "put b y (put b x h) = put b y h"
  by (simp add: put_def)

lemma put_same: "mem h b = Some x \<Longrightarrow> put b x h = h"
  by (simp add: put_def fun_upd_idem)

lemma brk_put [simp]: "brk (put b x h) = brk h" "mpmindigits (put b x h) = mpmindigits h"
  by (simp_all add: put_def)

lemma modify_Some [simp]: "mem h b = Some x \<Longrightarrow> modify b f h = Ok (put b (f x) h)"
  by (simp add: modify_def)

lemma DIGITS_nat: "DIGITS (int n) = int ((n + 31) div 32)"
  by (simp add: DIGITS_def Dbits_def Let_def zdiv_int add.commute)

lemma DIGITS_mult [simp]: "DIGITS (int Dbits * int n) = int n" "DIGITS (int n * int Dbits) = int n"
  by (simp_all add: DIGITS_def Dbits_def Let_def)

section \<open>Making room\<close>

text \<open>The object \<^verbatim>\<open>mpbits\<close> leaves: at least \<open>n\<close> digits, the new ones zero.\<close>

definition room :: "nat \<Rightarrow> mpint \<Rightarrow> mpint" where
  "room n x = (if mp_top x \<ge> n then x
     else x\<lparr>mp_p := take (mp_top x) (mp_p x) @ replicate (n - mp_top x) 0 @ drop n (mp_p x),
       mp_size := max n (mp_size x), mp_top := n\<rparr>)"

lemma mpbits_eq:
  assumes "mem h b = Some x" "mp_ok x"
  shows "mpbits b m h = Ok (put b (room (nat (DIGITS m)) x) h)"
proof -
  have o: "mp_size x = length (mp_p x)" "mp_top x \<le> length (mp_p x)" using mp_okD[OF assms(2)] .
  consider "DIGITS m \<le> int (mp_top x)" | "int (mp_top x) < DIGITS m" "DIGITS m \<le> int (mp_size x)"
    | "int (mp_size x) < DIGITS m" "int (mp_top x) < DIGITS m" using o by linarith
  then show ?thesis
  proof cases
    case 1
    then show ?thesis using assms o by (simp add: mpbits_def Let_def room_def put_same)
  next
    case 2
    then show ?thesis using assms o
      by (cases x) (simp add: mpbits_def Let_def room_def wr_def upd_def nat_le_iff max_def le_nat_iff)
  next
    case 3
    then show ?thesis using assms o
      by (simp add: mpbits_def Let_def room_def wr_def upd_def realloc_def nat_le_iff max_def le_nat_iff nat_less_iff zless_nat_eq_int_zless)
  qed
qed

lemma room_ok:
  assumes "mp_ok x"
  shows "mp_ok (room n x)" "n \<le> mp_size (room n x)" "mp_top (room n x) = max n (mp_top x)"
    "mp_sign (room n x) = mp_sign x" "mp_flags (room n x) = mp_flags x"
    "take (mp_top x) (mp_p (room n x)) = take (mp_top x) (mp_p x)"
    "mp_size x \<le> mp_size (room n x)"
  using assms by (auto simp: room_def mp_ok_def max_def)

lemma mag_room:
  assumes "mp_ok x"
  shows "mag (room n x) = mag x"
  using assms by (auto simp: room_def mag_def mp_ok_def val_append)

lemma room_id [simp]: "n \<le> mp_top x \<Longrightarrow> room n x = x"
  by (simp add: room_def)

section \<open>Normalisation\<close>

lemma norm_loop_spec:
  assumes "n \<le> length p"
  obtains i where "norm_loop p n = Some i" "i \<le> n" "val (take i p) = val (take n p)" "0 < i \<Longrightarrow> p ! (i - 1) \<noteq> 0"
  using assms
proof (induction n arbitrary: thesis)
  case (Suc n)
  show ?case
  proof (cases "p ! n = 0")
    case True
    then have "val (take (Suc n) p) = val (take n p)" using Suc.prems(2) by (simp add: val_take_Suc)
    then show ?thesis using Suc.IH[of thesis] Suc.prems True by (simp add: rd_def)
  next
    case False
    then show ?thesis using Suc.prems(1)[of "Suc n"] Suc.prems(2) by (simp add: rd_def)
  qed
qed simp

lemma mpnorm_spec:
  assumes "mem h b = Some x" "mp_ok x"
  obtains y where "mpnorm b h = Ok (put b y h)" "mp_can y" "mpval y = mpval x" "mag y = mag x" "mp_flags y = mp_flags x"
    "mp_p y = mp_p x" "mp_size y = mp_size x" "mp_top y > 0 \<Longrightarrow> mp_sign y = mp_sign x"
proof -
  obtain i where i: "norm_loop (mp_p x) (mp_top x) = Some i" "i \<le> mp_top x"
    "val (take i (mp_p x)) = mag x" "0 < i \<Longrightarrow> mp_p x ! (i - 1) \<noteq> 0"
    using norm_loop_spec[of "mp_top x" "mp_p x"] mp_okD[OF assms(2)] unfolding mag_def by blast
  show ?thesis
  proof (cases "i = 0")
    case True
    let ?y = "x\<lparr>mp_top := 0, mp_sign := 1\<rparr>"
    have "mpnorm b h = Ok (put b ?y h)" using assms i(1) True by (simp add: mpnorm_def Let_def)
    moreover have "mp_can ?y" using assms(2) by (simp add: mp_can_def mp_norm_def mp_ok_def)
    moreover have "mag x = 0" using i(3) True by simp
    ultimately show ?thesis using that[of ?y] by (simp add: mag_def mpval_def)
  next
    case False
    let ?y = "x\<lparr>mp_top := i\<rparr>"
    have "mpnorm b h = Ok (put b ?y h)" using assms i(1) False by (simp add: mpnorm_def Let_def)
    moreover have "mp_can ?y" using assms(2) i False by (auto simp: mp_can_def mp_norm_def mp_ok_def)
    moreover have "mag ?y = mag x" using i(3) by (simp add: mag_def)
    ultimately show ?thesis using that[of ?y] by (simp add: mpval_def)
  qed
qed

section \<open>Assignment, copies and release\<close>

text \<open>Two objects with the same sign and digits.\<close>

definition mp_same :: "mpint \<Rightarrow> mpint \<Rightarrow> bool" where
  "mp_same x y \<longleftrightarrow> mp_sign x = mp_sign y \<and> mp_top x = mp_top y \<and>
     take (mp_top x) (mp_p x) = take (mp_top x) (mp_p y)"

lemma mp_same_val: "mp_same x y \<Longrightarrow> mag x = mag y" "mp_same x y \<Longrightarrow> mpval x = mpval y"
  by (auto simp: mp_same_def mag_def mpval_def)

lemma mp_same_can:
  assumes "mp_same x y" "mp_ok y"
  shows "mp_norm x \<Longrightarrow> mp_norm y" "mp_can x \<Longrightarrow> mp_can y"
proof -
  have n: "mp_norm y" if "mp_norm x"
  proof -
    have "mp_p y ! (mp_top y - 1) = mp_p x ! (mp_top x - 1)" if "0 < mp_top x"
      using assms(1) that nth_take[of "mp_top x - 1" "mp_top x"] unfolding mp_same_def by (metis diff_less zero_less_one)
    then show ?thesis using that assms by (auto simp: mp_norm_def mp_same_def)
  qed
  show "mp_norm x \<Longrightarrow> mp_norm y" by (rule n)
  show "mp_can x \<Longrightarrow> mp_can y" using n assms(1) by (auto simp: mp_can_def mp_same_def)
qed

lemma mpassign_spec:
  assumes "mem h old = Some x" "mem h new = Some y" "mp_ok x" "mp_ok y"
  obtains z where "mpassign old new h = Ok (put new z h)" "mp_ok z" "mp_same x z" "mp_flags z = mp_flags y"
    "mp_size y \<le> mp_size z"
proof (cases "old = new")
  case True
  then have xy: "y = x" using assms by simp
  have "mpassign old new h = Ok (put new x h)"
    using assms True mp_okD[OF assms(3)]
    by (simp add: mpassign_def mpbits_eq put_same rdn_def wr_def upd_def)
  then show ?thesis using that[of x] assms(3) xy by (simp add: mp_same_def)
next
  case False
  let ?r = "room (mp_top x) y"
  note r = room_ok[OF assms(4), of "mp_top x"]
  let ?z = "?r\<lparr>mp_sign := mp_sign x, mp_top := mp_top x, mp_p := upd (mp_p ?r) 0 (take (mp_top x) (mp_p x))\<rparr>"
  have l: "length (take (mp_top x) (mp_p x)) = mp_top x" "mp_top x \<le> length (mp_p ?r)"
    using mp_okD[OF assms(3)] r(1,2) mp_okD(1)[OF r(1)] by simp_all
  have "mpassign old new h = Ok (put new ?z h)"
    using assms False l mp_okD(2)[OF assms(3)]
    by (simp add: mpassign_def mpbits_eq rdn_def wr_def)
  moreover have "mp_ok ?z" using r(1) l assms(3) by (auto simp: mp_ok_def)
  moreover have "take (mp_top x) (mp_p ?z) = take (mp_top x) (mp_p x)" using l by (simp add: upd_def)
  ultimately show ?thesis using that[of ?z] r by (simp add: mp_same_def)
qed

text \<open>A memory in which fresh addresses are free and the constants have their values.\<close>

definition heap_ok :: "mpheap \<Rightarrow> bool" where
  "heap_ok h \<longleftrightarrow> (\<forall>a \<ge> brk h. mem h a = None) \<and> 3 \<le> brk h \<and> 0 \<le> mpmindigits h \<and>
     mem h mpzero = Some mpzero_obj \<and> mem h mpone = Some mpone_obj \<and> mem h mptwo = Some mptwo_obj"

lemma heap_ok_init: "heap_ok mpinit"
  by (auto simp: heap_ok_def mpinit_def mpzero_def mpone_def mptwo_def)

lemma const_can [simp]: "mp_can mpzero_obj" "mp_can mpone_obj" "mp_can mptwo_obj"
  by (auto simp: mp_can_def mp_norm_def mp_ok_def mpzero_obj_def mpone_obj_def mptwo_obj_def)

lemma const_val [simp]: "mpval mpzero_obj = 0" "mpval mpone_obj = 1" "mpval mptwo_obj = 2"
  by (simp_all add: mpval_def mag_def mpzero_obj_def mpone_obj_def mptwo_obj_def)

lemma heap_ok_put: "heap_ok h \<Longrightarrow> 3 \<le> b \<Longrightarrow> b < brk h \<Longrightarrow> heap_ok (put b x h)"
  by (auto simp: heap_ok_def mpzero_def mpone_def mptwo_def)

lemma heap_ok_brk: "heap_ok h \<Longrightarrow> mem h b = Some x \<Longrightarrow> b < brk h"
  by (metis heap_ok_def not_less option.distinct(1))

definition alloc :: "mpint \<Rightarrow> mpheap \<Rightarrow> mpheap" where
  "alloc x h = h\<lparr>mem := (mem h)(brk h \<mapsto> x), brk := brk h + 1\<rparr>"

definition release :: "nat \<Rightarrow> mpheap \<Rightarrow> mpheap" where
  "release b h = h\<lparr>mem := (mem h)(b := None)\<rparr>"

lemma alloc_simps [simp]:
  "mem (alloc x h) a = (if a = brk h then Some x else mem h a)" "brk (alloc x h) = brk h + 1"
  "mpmindigits (alloc x h) = mpmindigits h"
  by (simp_all add: alloc_def)

lemma release_simps [simp]:
  "mem (release b h) a = (if a = b then None else mem h a)" "brk (release b h) = brk h"
  "mpmindigits (release b h) = mpmindigits h"
  by (simp_all add: release_def)

lemma heap_ok_alloc: "heap_ok h \<Longrightarrow> heap_ok (alloc x h)"
  by (auto simp: heap_ok_def mpzero_def mpone_def mptwo_def)

lemma heap_ok_release: "heap_ok h \<Longrightarrow> 3 \<le> b \<Longrightarrow> heap_ok (release b h)"
  by (auto simp: heap_ok_def mpzero_def mpone_def mptwo_def)

lemma heap_ok_const:
  assumes "heap_ok h"
  shows "mem h mpzero = Some mpzero_obj" "mem h mpone = Some mpone_obj" "mem h mptwo = Some mptwo_obj"
  using assms by (simp_all add: heap_ok_def)

definition mp_zeroed :: "mpint \<Rightarrow> bool" where
  "mp_zeroed x \<longleftrightarrow> mp_can x \<and> mp_top x = 0 \<and> mp_flags x = 0 \<and> mp_p x = replicate (mp_size x) 0"

lemma mpnew_spec:
  assumes "heap_ok h"
  obtains x where "mpnew (int n) h = Ok (brk h, alloc x h)" "mp_zeroed x" "DIGITS (int n) \<le> int (mp_size x)"
    "mpmindigits h \<le> int (mp_size x)"
proof -
  let ?k = "if DIGITS (int n) < mpmindigits h then mpmindigits h else DIGITS (int n)"
  have k: "0 \<le> ?k" using assms by (auto simp: heap_ok_def DIGITS_nat)
  let ?x = "\<lparr>mp_sign = 1, mp_size = nat ?k, mp_top = 0, mp_p = replicate (nat ?k) 0, mp_flags = 0\<rparr>"
  have "mpnew (int n) h = Ok (brk h, alloc ?x h)" by (simp add: mpnew_def Let_def alloc_def)
  moreover have "mp_zeroed ?x" by (simp add: mp_zeroed_def mp_can_def mp_norm_def mp_ok_def)
  ultimately show ?thesis using that[of ?x] k by simp
qed

lemma put_alloc [simp]: "put (brk h) y (alloc x h) = alloc y h"
  by (simp add: put_def alloc_def)

lemma mpcopy_spec:
  assumes "heap_ok h" "mem h old = Some x" "mp_ok x"
  obtains y where "mpcopy old h = Ok (brk h, alloc y h)" "mp_ok y" "mp_same x y" "mp_flags y = 0"
proof -
  obtain z where z: "mpnew (int (Dbits * mp_size x)) h = Ok (brk h, alloc z h)" "mp_zeroed z"
    "DIGITS (int (Dbits * mp_size x)) \<le> int (mp_size z)" using mpnew_spec[OF assms(1)] by blast
  have l: "length (mp_p z) = mp_size z" "mp_size x \<le> mp_size z" using z(2,3) by (simp_all add: mp_zeroed_def)
  note o = mp_okD[OF assms(3)]
  let ?y = "z\<lparr>mp_top := mp_top x, mp_sign := mp_sign x, mp_p := upd (mp_p z) 0 (take (mp_top x) (mp_p x))\<rparr>"
  have "mpcopy old h = Ok (brk h, alloc ?y h)"
    using z(1) assms(2) o l by (simp add: mpcopy_def rdn_def wr_def)
  moreover have "mp_ok ?y" using assms(3) o l by (auto simp: mp_ok_def)
  moreover have "mp_same x ?y" using o by (simp add: mp_same_def upd_def)
  ultimately show ?thesis using that[of ?y] z(2) by (simp add: mp_zeroed_def)
qed

lemma mpfree_eq:
  assumes "mem h b = Some x" "mp_ok x"
  shows "mpfree (Some b) h = (if mp_flags x AND MPstatic \<noteq> 0 then Abort ''freeing mp constant'' else Ok (release b h))"
  using assms by (simp add: mpfree_def wr_def mp_ok_def release_def)

section \<open>Bit counts\<close>

lemma nat_less_of_bits: "(\<And>i. m \<le> i \<Longrightarrow> \<not> bit n i) \<Longrightarrow> (n::nat) < 2 ^ m"
proof -
  assume b: "\<And>i. m \<le> i \<Longrightarrow> \<not> bit n i"
  have "take_bit m n = n"
  proof (rule bit_eqI)
    show "bit (take_bit m n) i \<longleftrightarrow> bit n i" for i using b[of i] by (cases "m \<le> i") (auto simp: bit_take_bit_iff)
  qed
  then show ?thesis using take_bit_nat_less_exp[of m n] by simp
qed

lemma nat_ge_of_bit: "bit (n::nat) j \<Longrightarrow> 2 ^ j \<le> n"
  by (metis bit_take_bit_iff linorder_not_less order_less_irrefl take_bit_nat_eq_self)

lemma and_bit_iff: "(d::mpdigit) AND 2 ^ j \<noteq> 0 \<longleftrightarrow> bit (unat d) j"
proof -
  have "d AND 2 ^ j = (if bit d j then 2 ^ j else 0)"
    by (rule bit_eqI) (auto simp: bit_simps)
  moreover have "bit d j \<Longrightarrow> (2::mpdigit) ^ j \<noteq> 0"
    using bit_imp_le_length[of d j] by auto
  ultimately show ?thesis by (auto simp: bit_unsigned_iff)
qed

lemma signif_bit_spec:
  "case signif_bit d n of None \<Rightarrow> \<forall>i < n. \<not> bit (unat d) i
   | Some j \<Rightarrow> j < n \<and> bit (unat d) j \<and> (\<forall>i. j < i \<and> i < n \<longrightarrow> \<not> bit (unat d) i)"
  by (induction n) (auto simp: and_bit_iff less_Suc_eq split: option.splits)

lemma dig_no_bit: "32 \<le> i \<Longrightarrow> \<not> bit (unat (d::mpdigit)) i"
  by (auto simp: bit_unsigned_iff dest: bit_imp_le_length)

lemma signif_digit:
  "case signif_bit d Dbits of None \<Rightarrow> d = 0 | Some j \<Rightarrow> j < 32 \<and> 2 ^ j \<le> unat d \<and> unat d < 2 ^ (j + 1)"
proof (cases "signif_bit d Dbits")
  case None
  then have "\<not> bit (unat d) i" for i
    using signif_bit_spec[where d = d and n = Dbits] dig_no_bit[of i d] by (cases "i < 32") (auto simp: Dbits_def)
  then have "unat d = 0" using bit_eqI[of "unat d" 0] by simp
  then show ?thesis using None by (simp add: unat_eq_zero)
next
  case (Some j)
  then have j: "j < 32" "bit (unat d) j" "\<And>i. j < i \<Longrightarrow> i < 32 \<Longrightarrow> \<not> bit (unat d) i"
    using signif_bit_spec[where d = d and n = Dbits] by (auto simp: Dbits_def)
  have "\<not> bit (unat d) i" if "j + 1 \<le> i" for i using j(3)[of i] dig_no_bit[of i d] that by (cases "i < 32") auto
  then show ?thesis using Some j(1) nat_less_of_bits[of "j + 1" "unat d"] nat_ge_of_bit[OF j(2)] by simp
qed

lemma DB_power: "DB ^ i * 2 ^ j = 2 ^ (i * Dbits + j)"
  unfolding DB_def Dbits_def power_add power_mult[symmetric] by (simp only: mult.commute[of 32 i])

lemma signif_loop_spec:
  assumes "n \<le> length p"
  obtains k where "signif_loop p n = Some k" "val (take n p) < 2 ^ k" "0 < k \<Longrightarrow> 2 ^ (k - 1) \<le> val (take n p)"
  using assms
proof (induction n arbitrary: thesis)
  case 0
  then show ?case by simp
next
  case (Suc n)
  let ?d = "p ! n"
  have v: "val (take (Suc n) p) = val (take n p) + DB ^ n * unat ?d" using Suc.prems(2) by (intro val_take_Suc) simp
  have r: "rd p n = Some ?d" using Suc.prems(2) by (simp add: rd_def)
  show ?case
  proof (cases "signif_bit ?d Dbits")
    case None
    then have "?d = 0" using signif_digit[of ?d] by simp
    then show ?thesis using Suc.IH[of thesis] Suc.prems None r v by simp
  next
    case (Some j)
    then have j: "2 ^ j \<le> unat ?d" "unat ?d + 1 \<le> 2 ^ (j + 1)" using signif_digit[of ?d] by (simp_all add: Suc_le_eq)
    have "DB ^ n * 2 ^ j \<le> DB ^ n * unat ?d" using j(1) by (intro mult_le_mono2)
    moreover have "DB ^ n * (unat ?d + 1) \<le> DB ^ n * 2 ^ (j + 1)" using j(2) by (intro mult_le_mono2)
    moreover have "val (take n p) < DB ^ n" using val_take_bound Suc.prems(2) by simp
    ultimately have "2 ^ (n * Dbits + j) \<le> val (take (Suc n) p)" "val (take (Suc n) p) < 2 ^ (n * Dbits + (j + 1))"
      unfolding v DB_power[symmetric] distrib_left by linarith+
    then show ?thesis using Suc.prems(1)[of "n * Dbits + j + 1"] r Some by simp
  qed
qed

lemma mpsignif_spec:
  assumes "mem h n = Some x" "mp_ok x"
  obtains k where "mpsignif n h = Ok k" "mag x < 2 ^ k" "0 < k \<Longrightarrow> 2 ^ (k - 1) \<le> mag x"
proof (cases "mp_top x = 0")
  case True
  then show ?thesis using that[of 0] assms by (simp add: mpsignif_def mag_def)
next
  case False
  obtain k where "signif_loop (mp_p x) (mp_top x) = Some k" "mag x < 2 ^ k" "0 < k \<Longrightarrow> 2 ^ (k - 1) \<le> mag x"
    using signif_loop_spec[of "mp_top x" "mp_p x"] mp_okD[OF assms(2)] unfolding mag_def by blast
  then show ?thesis using that[of k] assms False by (simp add: mpsignif_def)
qed

lemma low_bit_spec:
  "r \<le> Dbits \<Longrightarrow> case low_bit d r of None \<Rightarrow> \<forall>i. Dbits - r \<le> i \<and> i < Dbits \<longrightarrow> \<not> bit (unat d) i
   | Some j \<Rightarrow> j < Dbits \<and> bit (unat d) j \<and> (\<forall>i. Dbits - r \<le> i \<and> i < j \<longrightarrow> \<not> bit (unat d) i)"
proof (induction r)
  case (Suc r)
  let ?b = "Dbits - Suc r"
  have e: "Dbits - r = Suc ?b" using Suc.prems by simp
  have s: "?b \<le> i \<longleftrightarrow> i = ?b \<or> Suc ?b \<le> i" for i by auto
  show ?case
  proof (cases "bit (unat d) ?b")
    case True
    then have "low_bit d (Suc r) = Some ?b" by (simp add: Let_def and_bit_iff)
    then show ?thesis using True Suc.prems by (auto simp del: low_bit.simps)
  next
    case False
    then have "low_bit d (Suc r) = low_bit d r" using and_bit_iff[of d ?b] by (simp add: Let_def)
    then show ?thesis using Suc False unfolding e s by (auto simp del: low_bit.simps split: option.splits)
  qed
qed auto

lemma low_digit:
  "case low_bit d Dbits of None \<Rightarrow> d = 0 | Some j \<Rightarrow> j < Dbits \<and> (\<exists>q. odd q \<and> unat d = 2 ^ j * q)"
proof (cases "low_bit d Dbits")
  case None
  then have "\<not> bit (unat d) i" for i
    using low_bit_spec[where d = d and r = Dbits] dig_no_bit[of i d] by (cases "i < 32") (auto simp: Dbits_def)
  then have "unat d = 0" using bit_eqI[of "unat d" 0] by simp
  then show ?thesis using None by (simp add: unat_eq_zero)
next
  case (Some j)
  then have j: "j < Dbits" "bit (unat d) j" "\<And>i. i < j \<Longrightarrow> \<not> bit (unat d) i"
    using low_bit_spec[where d = d and r = Dbits] by auto
  have "take_bit j (unat d) = 0" using bit_eqI[of "take_bit j (unat d)" 0] j(3) by (auto simp: bit_take_bit_iff)
  then have "unat d = 2 ^ j * (unat d div 2 ^ j)" by (simp add: take_bit_eq_mod mod_eq_0_iff_dvd)
  moreover have "odd (unat d div 2 ^ j)" using j(2) by (simp add: bit_iff_odd)
  ultimately show ?thesis using Some j(1) by auto
qed

lemma lowbits_loop_spec:
  "digit + r \<le> length p \<Longrightarrow>
   (if val (take r (drop digit p)) = 0 then lowbits_loop p k digit r = Some 0
    else \<exists>e q. lowbits_loop p k digit r = Some (k + e) \<and> odd q \<and> val (take r (drop digit p)) = 2 ^ e * q)"
proof (induction r arbitrary: k digit)
  case (Suc r)
  let ?d = "p ! digit" and ?V = "val (take r (drop (Suc digit) p))"
  have v: "val (take (Suc r) (drop digit p)) = unat ?d + DB * ?V" using Suc.prems by (simp add: take_drop_Suc)
  have rd: "rd p digit = Some ?d" using Suc.prems by (simp add: rd_def)
  have DB2: "DB = 2 ^ Dbits" by (simp add: DB_def Dbits_def)
  show ?case
  proof (cases "low_bit ?d Dbits")
    case None
    then have "?d = 0" using low_digit[of ?d] by simp
    then have v': "val (take (Suc r) (drop digit p)) = DB * ?V" using v by simp
    have l: "lowbits_loop p k digit (Suc r) = lowbits_loop p (k + Dbits) (Suc digit) r" using rd None by simp
    show ?thesis
    proof (cases "?V = 0")
      case True
      then show ?thesis using Suc.IH[of "Suc digit" "k + Dbits"] Suc.prems l v' by simp
    next
      case False
      then obtain e q where e: "lowbits_loop p (k + Dbits) (Suc digit) r = Some (k + Dbits + e)" "odd q" "?V = 2 ^ e * q"
        using Suc.IH[of "Suc digit" "k + Dbits"] Suc.prems by auto
      have "DB * ?V = 2 ^ (Dbits + e) * q" unfolding e(3) DB2 power_add by simp
      then show ?thesis using e l v' False by (auto intro!: exI[of _ "Dbits + e"] exI[of _ q])
    qed
  next
    case (Some j)
    then obtain q where q: "j < Dbits" "odd q" "unat ?d = 2 ^ j * q" using low_digit[of ?d] by auto
    have "DB = 2 ^ j * 2 ^ (Dbits - j)" unfolding DB2 power_add[symmetric] using q(1) by simp
    then have "unat ?d + DB * ?V = 2 ^ j * (q + 2 ^ (Dbits - j) * ?V)" unfolding q(3) by (simp add: distrib_left)
    moreover have "odd (q + 2 ^ (Dbits - j) * ?V)" using q(1,2) by simp
    moreover have "unat ?d \<noteq> 0" using q(2,3) by (cases "q = 0") auto
    ultimately show ?thesis using v rd Some by auto
  qed
qed simp

lemma mplowbits0_spec:
  assumes "mem h n = Some x" "mp_ok x"
  shows "if mag x = 0 then mplowbits0 n h = Ok 0
    else \<exists>k q. mplowbits0 n h = Ok k \<and> odd q \<and> mag x = 2 ^ k * q"
  using lowbits_loop_spec[of 0 "mp_top x" "mp_p x" 0] mp_okD[OF assms(2)] assms(1)
  by (cases "mp_top x = 0") (auto simp: mplowbits0_def mag_def split: if_splits)

end
