(* ===== verification/MpMul.thy ===== *)
theory MpMul
  imports MpVec
begin

text \<open>
  Multiplication of digit vectors, src/libmp/port/mpmul.c: the schoolbook loop of \<^verbatim>\<open>mpvecmul\<close> and the
  recursive \<^verbatim>\<open>mpkaratsuba\<close>, which calls \<^verbatim>\<open>mpvecmul\<close> on halves. The recursion is bounded by the number of
  digits: every call inside \<^verbatim>\<open>mpkaratsuba\<close> has fewer digits in its two operands together, so \<open>alen + blen + 1\<close>
  levels are enough, which \<open>mpvecmul_spec\<close> proves.
\<close>

section \<open>The code\<close>

text \<open>A call whose destination is the pointer \<^verbatim>\<open>t + off\<close>.\<close>

definition at :: "nat \<Rightarrow> ('a list \<Rightarrow> 'a list option) \<Rightarrow> 'a list \<Rightarrow> 'a list option" where
  "at off f t = do { r \<leftarrow> f (drop off t); Some (take off t @ r) }"

text \<open>
  The sums of the partial products: with \<open>t = u0v0 @ u1v1 @ diffprod @ res\<close>, \<open>l0\<close> and \<open>l1\<close> the lengths of the
  products, \<open>v\<close> the condition \<^verbatim>\<open>v1len > 0\<close>.
\<close>

definition kara_sums :: "nat \<Rightarrow> nat \<Rightarrow> nat \<Rightarrow> bool \<Rightarrow> int \<Rightarrow> mpdigit list \<Rightarrow> mpdigit list option" where
  "kara_sums n l0 l1 v sign t = do {
     let u0v0 = 0;
     let u1v1 = 2 * n + 1;
     let diffprod = 2 * (2 * n + 1);
     let res = 3 * (2 * n + 1);
     let reslen = 4 * n + 1;
     t \<leftarrow> at res (mpvecadd (drop res t) reslen (drop u0v0 t) l0) t;
     t \<leftarrow> at (res + n) (mpvecadd (drop (res + n) t) (reslen - n) (drop u0v0 t) l0) t;
     t \<leftarrow> (if v
       then do {
         t \<leftarrow> at (res + n) (mpvecadd (drop (res + n) t) (reslen - n) (drop u1v1 t) l1) t;
         at (res + 2 * n) (mpvecadd (drop (res + 2 * n) t) (reslen - 2 * n) (drop u1v1 t) l1) t }
       else Some t);
     if sign < 0
     then at (res + n) (mpvecsub (drop (res + n) t) (reslen - n) (drop diffprod t) l0) t
     else at (res + n) (mpvecadd (drop (res + n) t) (reslen - n) (drop diffprod t) l0) t }"

text \<open>\<open>mul\<close> stands for the recursive calls of \<^verbatim>\<open>mpvecmul\<close>.\<close>

definition mpkaratsuba ::
  "(mpdigit list \<Rightarrow> nat \<Rightarrow> mpdigit list \<Rightarrow> nat \<Rightarrow> mpdigit list \<Rightarrow> mpdigit list option) \<Rightarrow>
   mpdigit list \<Rightarrow> nat \<Rightarrow> mpdigit list \<Rightarrow> nat \<Rightarrow> mpdigit list \<Rightarrow> mpdigit list option" where
  "mpkaratsuba mul a alen b blen p = do {
     let n = alen div 2;
     let n = (if odd alen then n + 1 else n);
     let u0len = n;
     let u1len = alen - n;
     let v0len = (if blen > n then n else blen);
     let v1len = (if blen > n then blen - n else 0);
     let u0 = a;
     let u1 = drop u0len a;
     let v0 = b;
     let v1 = drop v0len b;
     let t = replicate (5 * (2 * n + 1)) 0;
     let u0v0 = 0;
     let u1v1 = 2 * n + 1;
     let diffprod = 2 * (2 * n + 1);
     let res = 3 * (2 * n + 1);
     c \<leftarrow> mpveccmp u1 u1len u0 u0len;
     let sign = (if c < 0 then - 1 else 1 :: int);
     t \<leftarrow> (if c < 0 then at u0v0 (mpvecsub u0 u0len u1 u1len) t else at u0v0 (mpvecsub u1 u1len u0 u1len) t);
     c \<leftarrow> mpveccmp v0 v0len v1 v1len;
     let sign = (if c < 0 then sign * - 1 else sign);
     t \<leftarrow> (if c < 0 then at u1v1 (mpvecsub v1 v1len v0 v1len) t else at u1v1 (mpvecsub v0 v0len v1 v1len) t);
     t \<leftarrow> at diffprod (mul (drop u0v0 t) u0len (drop u1v1 t) v0len) t;
     t \<leftarrow> wr t 0 (replicate (2 * (2 * n + 1)) 0);
     t \<leftarrow> (if v1len > 0 then at u1v1 (mul u1 u1len v1 v1len) t else Some t);
     t \<leftarrow> at u0v0 (mul u0 u0len v0 v0len) t;
     t \<leftarrow> kara_sums n (u0len + v0len) (u1len + v1len) (v1len > 0) sign t;
     r \<leftarrow> rdn t res (alen + blen);
     wr p 0 r }"

definition KARATSUBAMIN :: nat where "KARATSUBAMIN = 32"

text \<open>The loop \<^verbatim>\<open>for(i = 0; i < blen; i++)\<close> over the digits of \<^verbatim>\<open>b\<close>.\<close>

fun vecmul_loop :: "mpdigit list \<Rightarrow> nat \<Rightarrow> mpdigit list \<Rightarrow> nat \<Rightarrow> mpdigit list \<Rightarrow> mpdigit list option" where
  "vecmul_loop a alen [] i p = Some p"
| "vecmul_loop a alen (d # b) i p = do {
     p \<leftarrow> (if d \<noteq> 0 then at i (mpvecdigmuladd a alen d) p else Some p);
     vecmul_loop a alen b (i + 1) p }"

fun vecmul :: "nat \<Rightarrow> mpdigit list \<Rightarrow> nat \<Rightarrow> mpdigit list \<Rightarrow> nat \<Rightarrow> mpdigit list \<Rightarrow> mpdigit list option" where
  "vecmul 0 a alen b blen p = None"
| "vecmul (Suc k) a alen b blen p =
    (let (a, alen, b, blen) = (if alen < blen then (b, blen, a, alen) else (a, alen, b, blen)) in
     if blen = 0 then wr p 0 (replicate (alen + blen) 0)
     else if alen \<ge> KARATSUBAMIN \<and> blen > 1 then mpkaratsuba (vecmul k) a alen b blen p
     else do { ds \<leftarrow> rdn b 0 blen; vecmul_loop a alen ds 0 p })"

definition mpvecmul :: "mpdigit list \<Rightarrow> nat \<Rightarrow> mpdigit list \<Rightarrow> nat \<Rightarrow> mpdigit list \<Rightarrow> mpdigit list option" where
  "mpvecmul a alen b blen p = vecmul (alen + blen + 1) a alen b blen p"

section \<open>The schoolbook loop\<close>

lemma at_append: "at (length x) f (x @ s) = map_option (\<lambda>r. x @ r) (f s)"
  by (cases "f s") (simp_all add: at_def)

lemma at_append': "length x = n \<Longrightarrow> f s = Some r \<Longrightarrow> at n f (x @ s) = Some (x @ r)"
  using at_append[of x f s] by simp

lemma val_take_add: "m + k \<le> length p \<Longrightarrow> val (take (m + k) p) = val (take m p) + DB ^ m * val (take k (drop m p))"
  by (simp add: take_add val_append)

lemma val_take_0: "val (take n p) = 0 \<Longrightarrow> i < n \<Longrightarrow> i < length p \<Longrightarrow> p ! i = 0"
  using nth_mem[of i "take n p"] by (auto simp: val_eq_0)

lemma val_zeros: "(\<And>i. i < length p \<Longrightarrow> p ! i = 0) \<Longrightarrow> val p = 0"
  by (auto simp: val_eq_0 in_set_conv_nth)

lemma vecmul_step:
  assumes "alen \<le> length a" "alen + i + 1 \<le> length p" "p ! (alen + i) = 0"
  obtains p' where "(if d \<noteq> 0 then at i (mpvecdigmuladd a alen d) p else Some p) = Some p'" "length p' = length p"
    "drop (alen + (i + 1)) p' = drop (alen + (i + 1)) p"
    "val (take (alen + (i + 1)) p') = val (take (alen + i) p) + DB ^ i * (val (take alen a) * unat d)"
proof (cases "d = 0")
  case True
  have "val (take (alen + (i + 1)) p) = val (take (alen + i) p)" using assms by (simp add: val_take_Suc)
  then show ?thesis using that[of p] True by simp
next
  case False
  have "alen < length (drop i p)" using assms(2) by simp
  then obtain r where r: "mpvecdigmuladd a alen d (drop i p) = Some (r @ drop (alen + 1) (drop i p))" "length r = alen + 1"
    "val r = val (take alen a) * unat d + val (take alen (drop i p))"
    by (rule mpvecdigmuladd_spec[OF assms(1)])
  let ?p' = "take i p @ r @ drop (alen + (i + 1)) p"
  have "at i (mpvecdigmuladd a alen d) p = Some ?p'" using r(1) by (simp add: at_def add.commute)
  moreover have "length ?p' = length p" "drop (alen + (i + 1)) ?p' = drop (alen + (i + 1)) p" using assms(2) r(2) by simp_all
  moreover have "take (alen + (i + 1)) ?p' = take i p @ r" using assms(2) r(2) by simp
  then have "val (take (alen + (i + 1)) ?p') = val (take (i + alen) p) + DB ^ i * (val (take alen a) * unat d)"
    using assms(2) r(3) by (simp add: val_append val_take_add distrib_left)
  ultimately show ?thesis using that[of ?p'] False by (simp add: add.commute)
qed

lemma vecmul_loop_spec:
  assumes "alen \<le> length a" "alen + i + length ds \<le> length p"
    "\<And>j. alen + i \<le> j \<Longrightarrow> j < alen + i + length ds \<Longrightarrow> p ! j = 0"
  obtains r where "vecmul_loop a alen ds i p = Some (r @ drop (alen + i + length ds) p)" "length r = alen + i + length ds"
    "val r = val (take (alen + i) p) + DB ^ i * (val (take alen a) * val ds)"
  using assms
proof (induction ds arbitrary: i p thesis)
  case Nil
  then show ?case by (metis append_take_drop_id add.right_neutral length_take list.size(3) min.absorb2 mult_0_right val.simps(1) vecmul_loop.simps(1))
next
  case (Cons d ds)
  let ?A = "val (take alen a)"
  have len: "alen + i + 1 \<le> length p" using Cons.prems(3) by simp
  obtain p' where p': "(if d \<noteq> 0 then at i (mpvecdigmuladd a alen d) p else Some p) = Some p'" "length p' = length p"
    "drop (alen + (i + 1)) p' = drop (alen + (i + 1)) p" "val (take (alen + (i + 1)) p') = val (take (alen + i) p) + DB ^ i * (?A * unat d)"
    by (rule vecmul_step[OF Cons.prems(2)]) (use len Cons.prems(4)[of "alen + i"] in simp_all)
  have z: "p' ! j = 0" if "alen + (i + 1) \<le> j" "j < alen + (i + 1) + length ds" for j
  proof -
    have "p' ! j = drop (alen + (i + 1)) p' ! (j - (alen + (i + 1)))" using that(1) Cons.prems(3) p'(2) that(2) by simp
    also have "\<dots> = p ! j" unfolding p'(3) using that(1) Cons.prems(3) that(2) by simp
    finally show ?thesis using Cons.prems(4)[of j] that by simp
  qed
  obtain r where r: "vecmul_loop a alen ds (i + 1) p' = Some (r @ drop (alen + (i + 1) + length ds) p')"
    "length r = alen + (i + 1) + length ds" "val r = val (take (alen + (i + 1)) p') + DB ^ (i + 1) * (?A * val ds)"
    using Cons.IH[of "i + 1" p'] Cons.prems(2,3) p'(2) z by auto
  have "drop (alen + (i + 1) + length ds) p' = drop (length ds) (drop (alen + (i + 1)) p')" by (simp add: add.commute)
  also have "\<dots> = drop (alen + i + length (d # ds)) p" unfolding p'(3) by (simp add: add_ac)
  finally have "vecmul_loop a alen (d # ds) i p = Some (r @ drop (alen + i + length (d # ds)) p)" using r(1) p'(1) by simp
  moreover have "val r = val (take (alen + i) p) + DB ^ i * (?A * val (d # ds))"
    using r(3) p'(4) by (simp add: distrib_left mult.assoc mult.left_commute[of DB])
  ultimately show ?case using Cons.prems(1)[of r] r(2) by simp
qed

section \<open>The steps of Karatsuba multiplication\<close>

lemma val_pad: "length r \<le> m \<Longrightarrow> val (take m (r @ replicate k 0)) = val r"
  by (simp add: val_append take_replicate)

text \<open>\<open>x\<close> is the short half, \<open>y\<close> the long one; the difference goes to a block of zeros.\<close>

lemma diff_long:
  assumes "xlen \<le> ylen" "xlen \<le> length x" "ylen \<le> length y" "ylen \<le> L" "val (take xlen x) \<le> val (take ylen y)"
  obtains T where "mpvecsub y ylen x xlen (replicate L 0 @ s) = Some (T @ s)" "length T = L"
    "val (take ylen T) = val (take ylen y) - val (take xlen x)"
proof -
  obtain r where r: "mpvecsub y ylen x xlen (replicate L 0 @ s) = Some (r @ drop ylen (replicate L 0 @ s))"
    "length r = ylen" "val r = val (take ylen y) - val (take xlen x)"
    by (rule mpvecsub_spec[of xlen ylen y x "replicate L 0 @ s"]) (use assms in simp_all)
  then show ?thesis using that[of "r @ replicate (L - ylen) 0"] assms(4) by (simp add: val_pad)
qed

lemma diff_short:
  assumes "xlen \<le> ylen" "xlen \<le> length x" "ylen \<le> length y" "ylen \<le> L" "val (take ylen y) \<le> val (take xlen x)"
  obtains T where "mpvecsub x xlen y xlen (replicate L 0 @ s) = Some (T @ s)" "length T = L"
    "val (take ylen T) = val (take xlen x) - val (take ylen y)"
proof -
  have "val (take ylen y) < DB ^ xlen" using val_take_bound[OF assms(2)] assms(5) by linarith
  then have y: "val (take ylen y) = val (take xlen y)" using val_take_low[OF assms(1,3)] by simp
  obtain r where r: "mpvecsub x xlen y xlen (replicate L 0 @ s) = Some (r @ drop xlen (replicate L 0 @ s))"
    "length r = xlen" "val r = val (take xlen x) - val (take xlen y)"
    by (rule mpvecsub_spec[of xlen xlen x y "replicate L 0 @ s"]) (use assms y in simp_all)
  then show ?thesis using that[of "r @ replicate (L - xlen) 0"] assms y by (simp add: val_append)
qed

text \<open>Adding to and subtracting from the result at an offset.\<close>

lemma add_res:
  assumes "length pre = res" "length R = reslen + 1" "val R < DB ^ reslen" "k \<le> reslen" "xlen \<le> reslen - k" "xlen \<le> length x"
  obtains R' where "at (res + k) (mpvecadd (drop (res + k) (pre @ R)) (reslen - k) x xlen) (pre @ R) = Some (pre @ R')"
    "length R' = reslen + 1" "val R' = val R + DB ^ k * val (take xlen x)"
proof -
  have lo: "val (take reslen R) = val R" using val_take_low[of reslen "reslen + 1" R] assms(2,3) by simp
  obtain r where r: "mpvecadd (drop k R) (reslen - k) x xlen (drop k R) = Some (r @ drop (reslen - k + 1) (drop k R))"
    "length r = reslen - k + 1" "val r = val (take (reslen - k) (drop k R)) + val (take xlen x)"
    by (rule mpvecadd_spec[of xlen "reslen - k" "drop k R" x "drop k R"]) (use assms in simp_all)
  have "val (take k R) + DB ^ k * val (take (reslen - k) (drop k R)) = val (take (k + (reslen - k)) R)"
    using assms(2,4) by (intro val_take_add[symmetric]) simp
  then have v: "val (take k R @ r) = val R + DB ^ k * val (take xlen x)"
    using assms(2,4) lo r(3) by (simp add: val_append distrib_left)
  have "at (res + k) (mpvecadd (drop (res + k) (pre @ R)) (reslen - k) x xlen) ((pre @ take k R) @ drop k R) = Some ((pre @ take k R) @ r)"
    by (rule at_append') (use assms r(1) in simp_all)
  then show ?thesis using that[of "take k R @ r"] v assms(2,4) r(2) by simp
qed

lemma sub_res:
  assumes "length pre = res" "length R = reslen + 1" "val R < DB ^ reslen" "k \<le> reslen" "xlen \<le> reslen - k" "xlen \<le> length x"
    "DB ^ k * val (take xlen x) \<le> val R"
  obtains R' where "at (res + k) (mpvecsub (drop (res + k) (pre @ R)) (reslen - k) x xlen) (pre @ R) = Some (pre @ R')"
    "length R' = reslen + 1" "val R' = val R - DB ^ k * val (take xlen x)"
proof -
  have lo: "val (take reslen R) = val R" using val_take_low[of reslen "reslen + 1" R] assms(2,3) by simp
  let ?D = "val (take (reslen - k) (drop k R))" and ?X = "val (take xlen x)"
  have sp: "val R = val (take k R) + DB ^ k * ?D"
    using assms(2,4) val_take_add[of k "reslen - k" R] lo by simp
  have le: "?X \<le> ?D"
  proof (rule ccontr)
    assume "\<not> ?X \<le> ?D"
    then have "DB ^ k * (?D + 1) \<le> DB ^ k * ?X" by (intro mult_le_mono2) simp
    moreover have "val (take k R) < DB ^ k" using val_take_bound[of k R] assms(2,4) by simp
    ultimately show False using sp assms(7) by simp
  qed
  obtain r where r: "mpvecsub (drop k R) (reslen - k) x xlen (drop k R) = Some (r @ drop (reslen - k) (drop k R))"
    "length r = reslen - k" "val r = ?D - ?X"
    by (rule mpvecsub_spec[of xlen "reslen - k" "drop k R" x "drop k R"]) (use assms le in simp_all)
  have top: "R ! reslen = 0"
    using val_take_Suc[of reslen R] assms(2,3) lo by (auto simp: unat_eq_zero)
  have dr: "drop reslen R = [R ! reslen]" using assms(2) by (metis Cons_nth_drop_Suc Suc_eq_plus1 drop_all lessI order_refl)
  have "val (take k R @ r @ drop reslen R) = val (take k R) + DB ^ k * (?D - ?X)"
    using assms(2,4) r(2,3) by (simp add: val_append dr top)
  also have "\<dots> = val R - DB ^ k * ?X" using sp le by (simp add: diff_mult_distrib2)
  finally have v: "val (take k R @ r @ drop reslen R) = val R - DB ^ k * ?X" .
  have "at (res + k) (mpvecsub (drop (res + k) (pre @ R)) (reslen - k) x xlen) ((pre @ take k R) @ drop k R) = Some ((pre @ take k R) @ r @ drop reslen R)"
    by (rule at_append') (use assms r(1) in simp_all)
  then show ?thesis using that[of "take k R @ r @ drop reslen R"] v assms(2,4) r(2) by simp
qed

section \<open>Correctness of multiplication\<close>

text \<open>\<open>mul\<close> multiplies vectors with fewer than \<open>m\<close> digits together.\<close>

definition is_mul :: "(mpdigit list \<Rightarrow> nat \<Rightarrow> mpdigit list \<Rightarrow> nat \<Rightarrow> mpdigit list \<Rightarrow> mpdigit list option) \<Rightarrow> nat \<Rightarrow> bool" where
  "is_mul mul m \<longleftrightarrow> (\<forall>a alen b blen p. alen + blen < m \<longrightarrow> alen \<le> length a \<longrightarrow> blen \<le> length b \<longrightarrow>
     alen + blen \<le> length p \<longrightarrow> val (take (alen + blen) p) = 0 \<longrightarrow>
     (\<exists>r. mul a alen b blen p = Some (r @ drop (alen + blen) p) \<and> length r = alen + blen \<and>
       val r = val (take alen a) * val (take blen b)))"

lemma is_mulD:
  assumes "is_mul mul m" "alen + blen < m" "alen \<le> length a" "blen \<le> length b" "alen + blen \<le> length p" "val (take (alen + blen) p) = 0"
  shows "\<exists>r. mul a alen b blen p = Some (r @ drop (alen + blen) p) \<and> length r = alen + blen \<and>
    val r = val (take alen a) * val (take blen b)"
  using assms unfolding is_mul_def by blast

lemma is_mul_block:
  assumes "is_mul mul m" "alen + blen < m" "alen \<le> length a" "blen \<le> length b" "alen + blen \<le> L" "length x = n"
  obtains T where "at n (mul a alen b blen) (x @ replicate L 0 @ s) = Some (x @ T @ s)" "length T = L"
    "val (take (alen + blen) T) = val (take alen a) * val (take blen b)"
proof -
  have "val (take (alen + blen) (replicate L 0 @ s)) = 0" using assms(5) by simp
  from is_mulD[OF assms(1-4) _ this] obtain r where
    r: "mul a alen b blen (replicate L 0 @ s) = Some (r @ replicate (L - (alen + blen)) 0 @ s)"
    "length r = alen + blen" "val r = val (take alen a) * val (take blen b)"
    using assms(5) by auto
  show ?thesis
    using that[of "r @ replicate (L - (alen + blen)) 0"] at_append'[of x n "mul a alen b blen", OF assms(6) r(1)] r(2,3) assms(5) by simp
qed

lemma kara_bound:
  assumes "x \<le> B * B" "y \<le> B * B" "d \<le> B * B" "1 \<le> (B::nat)"
  shows "x + B * x + B * y + B * B * y + B * d \<le> 5 * (B * B * (B * B))"
proof -
  have "B * B * 1 \<le> B * B * (B * B)" "B * (B * B) \<le> B * B * (B * B)" using assms(4) by (simp_all add: mult_le_mono)
  moreover have "B * x \<le> B * (B * B)" "B * y \<le> B * (B * B)" "B * d \<le> B * (B * B)" "B * B * y \<le> B * B * (B * B)"
    using assms by (simp_all add: mult_le_mono)
  ultimately show ?thesis using assms(1) by linarith
qed

text \<open>The sums of partial products, in the order of the code.\<close>

lemma kara_sums_spec:
  assumes len: "length T0 = 2 * n + 1" "length T1 = 2 * n + 1" "length T2 = 2 * n + 1" "l0 \<le> 2 * n" "l1 \<le> 2 * n"
    and val: "val (take l0 T0) = x" "val (take l1 T1) = y" "val (take l0 T2) = d"
    and b: "x \<le> DB ^ n * DB ^ n" "y \<le> DB ^ n * DB ^ n" "d \<le> DB ^ n * DB ^ n" "sg < 0 \<Longrightarrow> d \<le> x + y" "\<not> v \<Longrightarrow> y = 0"
  obtains R where "kara_sums n l0 l1 v sg (T0 @ T1 @ T2 @ replicate (4 * n + 2) 0) = Some (T0 @ T1 @ T2 @ R)"
    "length R = 4 * n + 2"
    "int (val R) = int x + int (DB ^ n) * (int x + int y + (if sg < 0 then - int d else int d)) + int (DB ^ n * DB ^ n) * int y"
proof -
  define B where "B = DB ^ n"
  let ?pre = "T0 @ T1 @ T2" and ?rl = "4 * n + 1"
  have pre: "length ?pre = 3 * (2 * n + 1)" using len by simp
  have B: "1 \<le> B" by (simp add: B_def Suc_le_eq)
  have B4: "5 * (B * B * (B * B)) < DB ^ ?rl"
  proof -
    have "DB ^ ?rl = DB * (B * B * (B * B))" 
    proof -
      have e: "?rl = Suc (n + n + (n + n))" by simp
      show ?thesis unfolding e B_def power_Suc by (simp only: power_add)
    qed
    moreover have "(5::nat) < DB" by (simp add: DB_def)
    ultimately show ?thesis using B by simp
  qed
  note kb = kara_bound[OF b(1-3)[folded B_def] B]
  have sum: "w < DB ^ ?rl" if "w \<le> x + B * x + B * y + B * B * y + B * d" for w using that kb B4 by linarith
  have T: "val (take l0 (drop 0 (?pre @ R))) = x" "l0 \<le> length (drop 0 (?pre @ R))"
    "val (take l1 (drop (2 * n + 1) (?pre @ R))) = y" "l1 \<le> length (drop (2 * n + 1) (?pre @ R))"
    "val (take l0 (drop (2 * (2 * n + 1)) (?pre @ R))) = d" "l0 \<le> length (drop (2 * (2 * n + 1)) (?pre @ R))" for R
    using len val by simp_all
  let ?R0 = "replicate (4 * n + 2) 0 :: mpdigit list"
  obtain R1 where R1: "at (3 * (2 * n + 1) + 0) (mpvecadd (drop (3 * (2 * n + 1) + 0) (?pre @ ?R0)) (?rl - 0) (drop 0 (?pre @ ?R0)) l0) (?pre @ ?R0) = Some (?pre @ R1)"
    "length R1 = ?rl + 1" "val R1 = val ?R0 + DB ^ 0 * val (take l0 (drop 0 (?pre @ ?R0)))"
    by (rule add_res[OF pre, of ?R0 ?rl 0 l0 "drop 0 (?pre @ ?R0)"]) (use len T(2) in simp_all)
  then have v1: "val R1 = x" using T(1) by simp
  obtain R2 where R2: "at (3 * (2 * n + 1) + n) (mpvecadd (drop (3 * (2 * n + 1) + n) (?pre @ R1)) (?rl - n) (drop 0 (?pre @ R1)) l0) (?pre @ R1) = Some (?pre @ R2)"
    "length R2 = ?rl + 1" "val R2 = val R1 + DB ^ n * val (take l0 (drop 0 (?pre @ R1)))"
    by (rule add_res[OF pre R1(2), of n l0 "drop 0 (?pre @ R1)"]) (use len T(2) v1 sum[of x] in simp_all)
  then have v2: "val R2 = x + B * x" using v1 T(1) by (simp add: B_def)
  obtain R4 where R4: "(if v then do {
         t \<leftarrow> at (3 * (2 * n + 1) + n) (mpvecadd (drop (3 * (2 * n + 1) + n) (?pre @ R2)) (?rl - n) (drop (2 * n + 1) (?pre @ R2)) l1) (?pre @ R2);
         at (3 * (2 * n + 1) + 2 * n) (mpvecadd (drop (3 * (2 * n + 1) + 2 * n) t) (?rl - 2 * n) (drop (2 * n + 1) t) l1) t }
       else Some (?pre @ R2)) = Some (?pre @ R4)" "length R4 = ?rl + 1" "val R4 = x + B * x + B * y + B * B * y"
  proof (cases v)
    case False
    then show ?thesis using that[of R2] R2(2) v2 b(5) by simp
  next
    case True
    obtain R3 where R3: "at (3 * (2 * n + 1) + n) (mpvecadd (drop (3 * (2 * n + 1) + n) (?pre @ R2)) (?rl - n) (drop (2 * n + 1) (?pre @ R2)) l1) (?pre @ R2) = Some (?pre @ R3)"
      "length R3 = ?rl + 1" "val R3 = val R2 + DB ^ n * val (take l1 (drop (2 * n + 1) (?pre @ R2)))"
      by (rule add_res[OF pre R2(2), of n l1 "drop (2 * n + 1) (?pre @ R2)"]) (use len T(4) v2 sum[of "x + B * x"] in simp_all)
    then have v3: "val R3 = x + B * x + B * y" using v2 T(3) by (simp add: B_def)
    obtain R4 where R4: "at (3 * (2 * n + 1) + 2 * n) (mpvecadd (drop (3 * (2 * n + 1) + 2 * n) (?pre @ R3)) (?rl - 2 * n) (drop (2 * n + 1) (?pre @ R3)) l1) (?pre @ R3) = Some (?pre @ R4)"
      "length R4 = ?rl + 1" "val R4 = val R3 + DB ^ (2 * n) * val (take l1 (drop (2 * n + 1) (?pre @ R3)))"
      by (rule add_res[OF pre R3(2), of "2 * n" l1 "drop (2 * n + 1) (?pre @ R3)"]) (use len T(4) v3 sum[of "x + B * x + B * y"] in simp_all)
    moreover have "DB ^ (2 * n) = B * B" by (simp add: B_def mult_2 power_add)
    ultimately show ?thesis using that[of R4] True R3(1) v3 T(3) by simp
  qed
  have lt4: "val R4 < DB ^ ?rl" using sum[of "val R4"] R4(3) by simp
  obtain R5 where R5: "(if sg < 0
      then at (3 * (2 * n + 1) + n) (mpvecsub (drop (3 * (2 * n + 1) + n) (?pre @ R4)) (?rl - n) (drop (2 * (2 * n + 1)) (?pre @ R4)) l0) (?pre @ R4)
      else at (3 * (2 * n + 1) + n) (mpvecadd (drop (3 * (2 * n + 1) + n) (?pre @ R4)) (?rl - n) (drop (2 * (2 * n + 1)) (?pre @ R4)) l0) (?pre @ R4)) = Some (?pre @ R5)"
    "length R5 = ?rl + 1" "int (val R5) = int (val R4) + (if sg < 0 then - int (B * d) else int (B * d))"
  proof (cases "sg < 0")
    case True
    have "B * d \<le> B * (x + y)" using b(4)[OF True] by (rule mult_le_mono2)
    then have le: "DB ^ n * val (take l0 (drop (2 * (2 * n + 1)) (?pre @ R4))) \<le> val R4"
      unfolding T(5) R4(3) B_def[symmetric] by (simp add: distrib_left)
    obtain R5 where "at (3 * (2 * n + 1) + n) (mpvecsub (drop (3 * (2 * n + 1) + n) (?pre @ R4)) (?rl - n) (drop (2 * (2 * n + 1)) (?pre @ R4)) l0) (?pre @ R4) = Some (?pre @ R5)"
      "length R5 = ?rl + 1" "val R5 = val R4 - DB ^ n * val (take l0 (drop (2 * (2 * n + 1)) (?pre @ R4)))"
      by (rule sub_res[OF pre R4(2) lt4 _ _ _ le]) (use len T(6) in simp_all)
    then show ?thesis using that[of R5] True le unfolding T(5) B_def[symmetric] by (simp add: of_nat_diff)
  next
    case False
    obtain R5 where "at (3 * (2 * n + 1) + n) (mpvecadd (drop (3 * (2 * n + 1) + n) (?pre @ R4)) (?rl - n) (drop (2 * (2 * n + 1)) (?pre @ R4)) l0) (?pre @ R4) = Some (?pre @ R5)"
      "length R5 = ?rl + 1" "val R5 = val R4 + DB ^ n * val (take l0 (drop (2 * (2 * n + 1)) (?pre @ R4)))"
      by (rule add_res[OF pre R4(2) lt4, of n l0 "drop (2 * (2 * n + 1)) (?pre @ R4)"]) (use len T(6) in simp_all)
    then show ?thesis using that[of R5] False unfolding T(5) B_def[symmetric] by simp
  qed
  have "kara_sums n l0 l1 v sg (?pre @ ?R0) = Some (?pre @ R5)"
    using R1(1) R2(1) R4(1) R5(1) unfolding kara_sums_def Let_def add_0_right diff_zero by (simp only: Option.bind.bind_lunit)
  moreover have "int (val R5) = int x + int B * (int x + int y + (if sg < 0 then - int d else int d)) + int (B * B) * int y"
    using R5(3) R4(3) by (simp add: distrib_left)
  ultimately show ?thesis using that[of R5] R5(2) unfolding B_def by simp
qed

text \<open>The sign of the product of the differences, and what it adds to the middle term.\<close>

lemma kara_sign:
  fixes u0 u1 v0 v1 :: nat
  assumes "du = (if u1 < u0 then u0 - u1 else u1 - u0)" "dv = (if v0 < v1 then v1 - v0 else v0 - v1)"
    "sg = (if v0 < v1 then (if u1 < u0 then - 1 else 1) * - 1 else if u1 < u0 then - 1 else 1 :: int)"
  shows "(if sg < 0 then - int (du * dv) else int (du * dv)) = (int u1 - int u0) * (int v0 - int v1)"
    and "sg < 0 \<Longrightarrow> du * dv \<le> u0 * v0 + u1 * v1"
proof -
  show e: "(if sg < 0 then - int (du * dv) else int (du * dv)) = (int u1 - int u0) * (int v0 - int v1)"
  proof -
    have "int du = (if u1 < u0 then int u0 - int u1 else int u1 - int u0)"
      "int dv = (if v0 < v1 then int v1 - int v0 else int v0 - int v1)" using assms(1,2) by auto
    note d = this
    show ?thesis unfolding of_nat_mult d assms(3)
      by (cases "u1 < u0"; cases "v0 < v1") (simp_all add: algebra_simps)
  qed
  have "(int u1 - int u0) * (int v0 - int v1) = int u1 * int v0 + int u0 * int v1 - int u1 * int v1 - int u0 * int v0"
    by (simp add: algebra_simps)
  then show "sg < 0 \<Longrightarrow> du * dv \<le> u0 * v0 + u1 * v1"
    using e by (simp flip: of_nat_mult of_nat_add)
qed

text \<open>The two differences and their product.\<close>

lemma kara_diffs:
  assumes "alen \<le> length a" "blen \<le> length b" "alen - n \<le> n" "n \<le> alen" "v1 \<le> v0" "v0 \<le> n" "v0 + v1 = blen"
    and U: "U0 = val (take n a)" "U1 = val (take (alen - n) (drop n a))"
    and V: "V0 = val (take v0 b)" "V1 = val (take v1 (drop v0 b))"
  obtains T0 T1 where
    "(if cmpz U1 U0 < 0 then at 0 (mpvecsub a n (drop n a) (alen - n)) (replicate (2 * n + 1) 0 @ replicate (2 * n + 1) 0 @ s)
      else at 0 (mpvecsub (drop n a) (alen - n) a (alen - n)) (replicate (2 * n + 1) 0 @ replicate (2 * n + 1) 0 @ s)) = Some (T0 @ replicate (2 * n + 1) 0 @ s)"
    "(if cmpz V0 V1 < 0 then at (2 * n + 1) (mpvecsub (drop v0 b) v1 b v1) (T0 @ replicate (2 * n + 1) 0 @ s)
      else at (2 * n + 1) (mpvecsub b v0 (drop v0 b) v1) (T0 @ replicate (2 * n + 1) 0 @ s)) = Some (T0 @ T1 @ s)"
    "length T0 = 2 * n + 1" "length T1 = 2 * n + 1"
    "val (take n T0) = (if U1 < U0 then U0 - U1 else U1 - U0)" "val (take v0 T1) = (if V0 < V1 then V1 - V0 else V0 - V1)"
proof -
  let ?Z = "replicate (2 * n + 1) 0"
  have c: "cmpz U1 U0 < 0 \<longleftrightarrow> U1 < U0" "cmpz V0 V1 < 0 \<longleftrightarrow> V0 < V1" by (auto simp: cmpz_def)
  obtain T0 where T0: "(if U1 < U0 then mpvecsub a n (drop n a) (alen - n) (?Z @ ?Z @ s)
      else mpvecsub (drop n a) (alen - n) a (alen - n) (?Z @ ?Z @ s)) = Some (T0 @ ?Z @ s)" "length T0 = 2 * n + 1"
    "val (take n T0) = (if U1 < U0 then U0 - U1 else U1 - U0)"
  proof (cases "U1 < U0")
    case True
    show ?thesis
      by (rule diff_long[of "alen - n" n "drop n a" a "2 * n + 1" "?Z @ s"]) (use assms True that in auto)
  next
    case False
    show ?thesis
      by (rule diff_short[of "alen - n" n "drop n a" a "2 * n + 1" "?Z @ s"]) (use assms False that in auto)
  qed
  obtain T1 where T1: "(if V0 < V1 then mpvecsub (drop v0 b) v1 b v1 (?Z @ s) else mpvecsub b v0 (drop v0 b) v1 (?Z @ s)) = Some (T1 @ s)"
    "length T1 = 2 * n + 1" "val (take v0 T1) = (if V0 < V1 then V1 - V0 else V0 - V1)"
  proof (cases "V0 < V1")
    case True
    show ?thesis
      by (rule diff_short[of v1 v0 "drop v0 b" b "2 * n + 1" s]) (use assms True that in auto)
  next
    case False
    show ?thesis
      by (rule diff_long[of v1 v0 "drop v0 b" b "2 * n + 1" s]) (use assms False that in auto)
  qed
  have a0: "at 0 f t = f t" for f :: "mpdigit list \<Rightarrow> mpdigit list option" and t by (cases "f t") (simp_all add: at_def)
  have a1: "at (2 * n + 1) f (T0 @ ?Z @ s) = map_option (\<lambda>r. T0 @ r) (f (?Z @ s))" for f :: "mpdigit list \<Rightarrow> mpdigit list option"
    using at_append[of T0 f "?Z @ s"] T0(2) by simp
  show ?thesis using that[of T0 T1] T0 T1 unfolding c a0 a1 by (simp split: if_splits)
qed

lemma kara_products:
  assumes "alen \<le> length a" "blen \<le> length b" "alen - n \<le> n" "n \<le> alen" "n < alen" "0 < n" "v1 \<le> alen - n" "v0 \<le> n" "v0 + v1 = blen"
    and mul: "is_mul mul (alen + blen)" and L: "L = 2 * n + 1"
  obtains T0 T1 where
    "(if v1 > 0 then at L (mul (drop n a) (alen - n) (drop v0 b) v1) (replicate L 0 @ replicate L 0 @ s)
      else Some (replicate L 0 @ replicate L 0 @ s)) = Some (replicate L 0 @ T1 @ s)"
    "at 0 (mul a n b v0) (replicate L 0 @ T1 @ s) = Some (T0 @ T1 @ s)" "length T0 = L" "length T1 = L"
    "val (take (n + v0) T0) = val (take n a) * val (take v0 b)"
    "val (take (alen - n + v1) T1) = val (take (alen - n) (drop n a)) * val (take v1 (drop v0 b))"
proof -
  obtain T1 where T1: "(if v1 > 0 then at L (mul (drop n a) (alen - n) (drop v0 b) v1) (replicate L 0 @ replicate L 0 @ s)
      else Some (replicate L 0 @ replicate L 0 @ s)) = Some (replicate L 0 @ T1 @ s)" "length T1 = L"
    "val (take (alen - n + v1) T1) = val (take (alen - n) (drop n a)) * val (take v1 (drop v0 b))"
  proof (cases "v1 > 0")
    case True
    show ?thesis
      by (rule is_mul_block[OF mul, of "alen - n" v1 "drop n a" "drop v0 b" L "replicate L 0" L s])
        (use assms True that in auto)
  next
    case False
    then show ?thesis using that[of "replicate L 0"] by simp
  qed
  obtain T0 where "at 0 (mul a n b v0) ([] @ replicate L 0 @ T1 @ s) = Some ([] @ T0 @ T1 @ s)" "length T0 = L"
    "val (take (n + v0) T0) = val (take n a) * val (take v0 b)"
    by (rule is_mul_block[OF mul, of n v0 a b L "[]" 0 "T1 @ s"]) (use assms in simp_all)
  then show ?thesis using that[of T1 T0] T1 by simp
qed

lemma val_lt_power: "n \<le> length a \<Longrightarrow> n \<le> m \<Longrightarrow> val (take n a) < DB ^ m"
  using val_take_bound[of n a] power_increasing[of n m DB] by (simp add: less_le_trans Suc_le_eq)

lemma wr_front: "length x = length z \<Longrightarrow> wr (x @ s) 0 z = Some (z @ s)"
  by (simp add: wr_def upd_def)

lemma mpkaratsuba_spec:
  assumes mul: "is_mul mul (alen + blen)" and lens: "2 \<le> alen" "blen \<le> alen" "0 < blen" "alen \<le> length a" "blen \<le> length b" "alen + blen \<le> length p"
  shows "\<exists>r. mpkaratsuba mul a alen b blen p = Some (r @ drop (alen + blen) p) \<and> length r = alen + blen \<and>
    val r = val (take alen a) * val (take blen b)"
proof -
  define n where "n = (if odd alen then alen div 2 + 1 else alen div 2)"
  define v0 where "v0 = (if blen > n then n else blen)"
  define v1 where "v1 = (if blen > n then blen - n else 0)"
  have n: "alen - n \<le> n" "n < alen" "0 < n" "n \<le> alen" using lens(1) unfolding n_def by (cases "odd alen"; presburger)+
  have vl: "v0 \<le> n" "v1 \<le> v0" "v1 \<le> alen - n" "v0 + v1 = blen" using n lens(2) by (auto simp: v0_def v1_def)
  define U0 U1 V0 V1 where "U0 = val (take n a)" "U1 = val (take (alen - n) (drop n a))"
    "V0 = val (take v0 b)" "V1 = val (take v1 (drop v0 b))"
  note UV = U0_U1_V0_V1_def
  let ?L = "2 * n + 1" let ?Z = "replicate ?L 0 :: mpdigit list" and ?R = "replicate (4 * n + 2) 0 :: mpdigit list"
  have t0: "replicate (5 * ?L) 0 = ?Z @ ?Z @ ?Z @ ?R"
  proof -
    have "5 * ?L = ?L + (?L + (?L + (4 * n + 2)))" by simp
    then show ?thesis by (simp only: replicate_add)
  qed
  have c1: "mpveccmp (drop n a) (alen - n) a n = Some (cmpz U1 U0)"
    using mpveccmp_spec[of "alen - n" "drop n a" n a] lens n by (simp add: UV)
  have c2: "mpveccmp b v0 (drop v0 b) v1 = Some (cmpz V0 V1)"
    using mpveccmp_spec[of v0 b v1 "drop v0 b"] lens vl by (simp add: UV)
  define sg where "sg = (if cmpz V0 V1 < 0 then (if cmpz U1 U0 < 0 then - 1 else 1) * - 1 else if cmpz U1 U0 < 0 then - 1 else 1 :: int)"
  have sg: "sg = (if V0 < V1 then (if U1 < U0 then - 1 else 1) * - 1 else if U1 < U0 then - 1 else 1 :: int)"
    by (simp add: sg_def cmpz_def)
  obtain T0 T1 where D: "(if cmpz U1 U0 < 0 then at 0 (mpvecsub a n (drop n a) (alen - n)) (?Z @ ?Z @ ?Z @ ?R)
      else at 0 (mpvecsub (drop n a) (alen - n) a (alen - n)) (?Z @ ?Z @ ?Z @ ?R)) = Some (T0 @ ?Z @ ?Z @ ?R)"
    "(if cmpz V0 V1 < 0 then at ?L (mpvecsub (drop v0 b) v1 b v1) (T0 @ ?Z @ ?Z @ ?R)
      else at ?L (mpvecsub b v0 (drop v0 b) v1) (T0 @ ?Z @ ?Z @ ?R)) = Some (T0 @ T1 @ ?Z @ ?R)"
    "length T0 = ?L" "length T1 = ?L"
    "val (take n T0) = (if U1 < U0 then U0 - U1 else U1 - U0)" "val (take v0 T1) = (if V0 < V1 then V1 - V0 else V0 - V1)"
    by (rule kara_diffs[OF lens(4,5) n(1,4) vl(2,1,4) UV]) 
  define t2 where "t2 = T0 @ T1 @ ?Z @ ?R"
  obtain T2 where T2: "at (2 * ?L) (mul (drop 0 t2) n (drop ?L t2) v0) ((T0 @ T1) @ ?Z @ ?R) = Some ((T0 @ T1) @ T2 @ ?R)" "length T2 = ?L"
    "val (take (n + v0) T2) = val (take n (drop 0 t2)) * val (take v0 (drop ?L t2))"
    by (rule is_mul_block[OF mul, of n v0 "drop 0 t2" "drop ?L t2" ?L "T0 @ T1" "2 * ?L" ?R])
      (use D(3,4) n vl lens in \<open>simp_all add: t2_def\<close>)
  have d: "val (take (n + v0) T2) = (if U1 < U0 then U0 - U1 else U1 - U0) * (if V0 < V1 then V1 - V0 else V0 - V1)"
  proof -
    have "take n (drop 0 t2) = take n T0" "take v0 (drop ?L t2) = take v0 T1" using D(3,4) vl by (simp_all add: t2_def)
    then show ?thesis unfolding T2(3) by (simp only: D(5,6))
  qed
  have w: "wr (T0 @ T1 @ T2 @ ?R) 0 (replicate (2 * ?L) 0) = Some (?Z @ ?Z @ T2 @ ?R)"
    using wr_front[of "T0 @ T1" "?Z @ ?Z" "T2 @ ?R"] D(3,4) by (simp only: mult_2 replicate_add) simp
  obtain P0 P1 where P: "(if v1 > 0 then at ?L (mul (drop n a) (alen - n) (drop v0 b) v1) (?Z @ ?Z @ T2 @ ?R) else Some (?Z @ ?Z @ T2 @ ?R)) = Some (?Z @ P1 @ T2 @ ?R)"
    "at 0 (mul a n b v0) (?Z @ P1 @ T2 @ ?R) = Some (P0 @ P1 @ T2 @ ?R)" "length P0 = ?L" "length P1 = ?L"
    "val (take (n + v0) P0) = U0 * V0" "val (take (alen - n + v1) P1) = U1 * V1"
    unfolding UV by (rule kara_products[OF lens(4,5) n(1,4,2,3) vl(3,1,4) mul refl])
  have lt: "U0 < DB ^ n" "U1 < DB ^ n" "V0 < DB ^ n" "V1 < DB ^ n" unfolding UV using lens n vl by (intro val_lt_power; simp)+
  let ?d = "(if U1 < U0 then U0 - U1 else U1 - U0) * (if V0 < V1 then V1 - V0 else V0 - V1)"
  note ks = kara_sign[OF refl refl sg]
  have le: "U0 * V0 \<le> DB ^ n * DB ^ n" "U1 * V1 \<le> DB ^ n * DB ^ n" "?d \<le> DB ^ n * DB ^ n"
    using lt by (intro mult_le_mono; auto)+
  have v: "\<not> v1 > 0 \<Longrightarrow> U1 * V1 = 0" by (simp add: UV)
  obtain R where R: "kara_sums n (n + v0) (alen - n + v1) (v1 > 0) sg (P0 @ P1 @ T2 @ ?R) = Some (P0 @ P1 @ T2 @ R)" "length R = 4 * n + 2"
    "int (val R) = int (U0 * V0) + int (DB ^ n) * (int (U0 * V0) + int (U1 * V1) + (if sg < 0 then - int ?d else int ?d)) + int (DB ^ n * DB ^ n) * int (U1 * V1)"
    by (rule kara_sums_spec[where v = "0 < v1", OF P(3,4) T2(2) _ _ P(5,6) d le ks(2)]) (use vl n v in auto)
  have A: "val (take alen a) = U0 + DB ^ n * U1" using val_take_add[of n "alen - n" a] lens n by (simp add: UV)
  have B: "val (take blen b) = V0 + DB ^ v0 * V1" using val_take_add[of v0 v1 b] lens vl by (simp add: UV)
  have B': "DB ^ v0 * V1 = DB ^ n * V1" by (cases "blen > n") (simp_all add: v0_def v1_def UV)
  have "int (val R) = (int U0 + int (DB ^ n) * int U1) * (int V0 + int (DB ^ n) * int V1)"
    unfolding R(3)[unfolded ks(1)] by (simp only: of_nat_mult algebra_simps)
  then have "int (val R) = int ((U0 + DB ^ n * U1) * (V0 + DB ^ n * V1))" by (simp only: of_nat_mult of_nat_add)
  then have vR: "val R = val (take alen a) * val (take blen b)" unfolding A B B' by (simp only: of_nat_eq_iff)
  have "val (take alen a) * val (take blen b) < DB ^ alen * DB ^ blen"
    using val_take_bound[of alen a] val_take_bound[of blen b] lens by (intro mult_strict_mono') simp_all
  then have "val (take (4 * n + 2) R) < DB ^ (alen + blen)" using vR R(2) by (simp add: power_add)
  then have tk: "val (take (alen + blen) R) = val R" using val_take_low[of "alen + blen" "4 * n + 2" R] R(2) n lens(2) by simp
  have rd: "rdn (P0 @ P1 @ T2 @ R) (3 * ?L) (alen + blen) = Some (take (alen + blen) R)"
    using P(3,4) T2(2) R(2) n lens(2) by (simp add: rdn_def)
  have "mpkaratsuba mul a alen b blen p = wr p 0 (take (alen + blen) R)"
    unfolding mpkaratsuba_def Let_def n_def[symmetric] v0_def[symmetric] v1_def[symmetric]
    by (simp only: t0 c1 c2 D(1,2) T2(1)[unfolded append_assoc t2_def] w P(1,2) sg_def[symmetric] R(1) rd Option.bind.bind_lunit)
  moreover have "wr p 0 (take (alen + blen) R) = Some (take (alen + blen) R @ drop (alen + blen) p)"
    using lens(2,6) n R(2) by (simp add: wr_def upd_def)
  ultimately show ?thesis using tk vR R(2) lens(2) n by (intro exI[of _ "take (alen + blen) R"]) simp
qed

lemma is_mul_mono: "is_mul mul m \<Longrightarrow> k \<le> m \<Longrightarrow> is_mul mul k"
  unfolding is_mul_def by (meson less_le_trans)

lemma vecmul_small:
  assumes "alen \<le> length a" "blen \<le> length b" "alen + blen \<le> length p" "val (take (alen + blen) p) = 0"
  shows "\<exists>r. do { ds \<leftarrow> rdn b 0 blen; vecmul_loop a alen ds 0 p } = Some (r @ drop (alen + blen) p) \<and>
    length r = alen + blen \<and> val r = val (take alen a) * val (take blen b)"
proof -
  have z: "p ! j = 0" if "j < alen + blen" for j using val_take_0[OF assms(4) that] assms(3) that by simp
  have "val (take alen p) = 0" using assms(3) z by (intro val_zeros) simp
  moreover obtain r where "vecmul_loop a alen (take blen b) 0 p = Some (r @ drop (alen + 0 + length (take blen b)) p)"
    "length r = alen + 0 + length (take blen b)"
    "val r = val (take (alen + 0) p) + DB ^ 0 * (val (take alen a) * val (take blen b))"
    by (rule vecmul_loop_spec[OF assms(1), of 0 "take blen b" p]) (use assms z in auto)
  ultimately show ?thesis using assms(2) by (auto simp: rdn_def)
qed

lemma vecmul_is_mul: "is_mul (vecmul k) k"
proof (induction k)
  case 0
  then show ?case by (simp add: is_mul_def)
next
  case (Suc k)
  have ordered: "\<exists>r. vecmul (Suc k) a alen b blen p = Some (r @ drop (alen + blen) p) \<and> length r = alen + blen \<and>
      val r = val (take alen a) * val (take blen b)"
    if l: "blen \<le> alen" "alen + blen < Suc k" "alen \<le> length a" "blen \<le> length b" "alen + blen \<le> length p" "val (take (alen + blen) p) = 0"
    for a alen b blen p
  proof -
    consider "blen = 0" | "KARATSUBAMIN \<le> alen \<and> 1 < blen" | "0 < blen" "\<not> (KARATSUBAMIN \<le> alen \<and> 1 < blen)" by linarith
    then show ?thesis
    proof cases
      case 1
      then show ?thesis using l by (intro exI[of _ "replicate alen 0"]) (simp add: wr_def upd_def)
    next
      case 2
      have "is_mul (vecmul k) (alen + blen)" using is_mul_mono[OF Suc] l(2) by simp
      then show ?thesis using mpkaratsuba_spec[of "vecmul k" alen blen a b p] l 2 by (simp add: KARATSUBAMIN_def)
    next
      case 3
      then show ?thesis using vecmul_small[OF l(3-6)] l(1) by auto
    qed
  qed
  show ?case unfolding is_mul_def
  proof (intro allI impI)
    fix a b p :: "mpdigit list" and alen blen :: nat
    assume l: "alen + blen < Suc k" "alen \<le> length a" "blen \<le> length b" "alen + blen \<le> length p" "val (take (alen + blen) p) = 0"
    show "\<exists>r. vecmul (Suc k) a alen b blen p = Some (r @ drop (alen + blen) p) \<and> length r = alen + blen \<and>
        val r = val (take alen a) * val (take blen b)"
    proof (cases "alen < blen")
      case True
      then have "vecmul (Suc k) a alen b blen p = vecmul (Suc k) b blen a alen p" by simp
      then show ?thesis using ordered[of alen blen b a p] l True by (simp add: add.commute mult.commute)
    next
      case False
      then show ?thesis using ordered[of blen alen a b p] l by simp
    qed
  qed
qed

lemma mpvecmul_spec:
  assumes "alen \<le> length a" "blen \<le> length b" "alen + blen \<le> length p" "val (take (alen + blen) p) = 0"
  obtains r where "mpvecmul a alen b blen p = Some (r @ drop (alen + blen) p)" "length r = alen + blen"
    "val r = val (take alen a) * val (take blen b)"
  using is_mulD[OF vecmul_is_mul _ assms, of "alen + blen + 1"] unfolding mpvecmul_def by auto



end
