(* ===== verification/MpInt.thy ===== *)
theory MpInt
  imports MpHeap MpMul
begin

text \<open>
  Arithmetic on multiple-precision integers in memory, src/libmp/port: \<^verbatim>\<open>mpcmp.c\<close>, \<^verbatim>\<open>mpadd.c\<close>, \<^verbatim>\<open>mpsub.c\<close>,
  \<^verbatim>\<open>mpmul.c\<close>. The operations compute sums, differences and products of
  the integers the objects stand for, for any choice of result object, and change no other object.
\<close>

section \<open>Comparison, addition and subtraction\<close>

definition mpmagcmp :: "nat \<Rightarrow> nat \<Rightarrow> mpheap \<Rightarrow> int outcome" where
  "mpmagcmp b1 b2 h =
    andthen (get b1 h) (\<lambda>x1.
    andthen (get b2 h) (\<lambda>x2.
    let i = int (mp_top x1) - int (mp_top x2) in
    if i \<noteq> 0 then Ok i
    else access (mpveccmp (mp_p x1) (mp_top x1) (mp_p x2) (mp_top x2))))"

definition mpcmp :: "nat \<Rightarrow> nat \<Rightarrow> mpheap \<Rightarrow> int outcome" where
  "mpcmp b1 b2 h =
    andthen (get b1 h) (\<lambda>x1.
    andthen (get b2 h) (\<lambda>x2.
    if mp_sign x1 \<noteq> mp_sign x2 then Ok (mp_sign x1 - mp_sign x2)
    else if mp_sign x1 < 0 then mpmagcmp b2 b1 h
    else mpmagcmp b1 b2 h))"

definition mpmagadd :: "nat \<Rightarrow> nat \<Rightarrow> nat \<Rightarrow> mpheap \<Rightarrow> mpheap outcome" where
  "mpmagadd b1 b2 sm h =
    andthen (get b1 h) (\<lambda>x1.
    andthen (get b2 h) (\<lambda>x2.
    let (b1, b2) = (if mp_top x2 > mp_top x1 then (b2, b1) else (b1, b2)) in
    andthen (get b1 h) (\<lambda>x1.
    andthen (get b2 h) (\<lambda>x2.
    let n = mp_top x1; m = mp_top x2 in
    if n = 0 then mpassign mpzero sm h
    else if m = 0 then mpassign b1 sm h
    else
      andthen (mpbits sm (int ((n + 1) * Dbits)) h) (\<lambda>h.
      andthen (modify sm (\<lambda>s. s\<lparr>mp_top := n + 1\<rparr>) h) (\<lambda>h.
      andthen (get b1 h) (\<lambda>x1.
      andthen (get b2 h) (\<lambda>x2.
      andthen (get sm h) (\<lambda>s.
      andthen (access (mpvecadd (mp_p x1) n (mp_p x2) m (mp_p s))) (\<lambda>p.
      mpnorm sm (put sm (s\<lparr>mp_p := p, mp_sign := 1\<rparr>) h)))))))))))"

text \<open>\<^verbatim>\<open>mpmagsub\<close> once the operands are in order: the larger magnitude minus the smaller, with a sign.\<close>

definition magsub_into :: "int \<Rightarrow> nat \<Rightarrow> nat \<Rightarrow> nat \<Rightarrow> mpheap \<Rightarrow> mpheap outcome" where
  "magsub_into sg b1 b2 d h =
    andthen (get b1 h) (\<lambda>x1.
    andthen (get b2 h) (\<lambda>x2.
    let n = mp_top x1; m = mp_top x2 in
    if m = 0 then
      andthen (mpassign b1 d h) (\<lambda>h.
      modify d (\<lambda>s. s\<lparr>mp_sign := sg\<rparr>) h)
    else
      andthen (mpbits d (int (n * Dbits)) h) (\<lambda>h.
      andthen (get b1 h) (\<lambda>x1.
      andthen (get b2 h) (\<lambda>x2.
      andthen (get d h) (\<lambda>s.
      andthen (access (mpvecsub (mp_p x1) n (mp_p x2) m (mp_p s))) (\<lambda>p.
      mpnorm d (put d (s\<lparr>mp_p := p, mp_sign := sg, mp_top := n\<rparr>) h))))))))"

definition mpmagsub :: "nat \<Rightarrow> nat \<Rightarrow> nat \<Rightarrow> mpheap \<Rightarrow> mpheap outcome" where
  "mpmagsub b1 b2 diff h =
    andthen (mpmagcmp b1 b2 h) (\<lambda>c.
    if c < 0 then magsub_into (- 1) b2 b1 diff h else magsub_into 1 b1 b2 diff h)"

definition mpadd :: "nat \<Rightarrow> nat \<Rightarrow> nat \<Rightarrow> mpheap \<Rightarrow> mpheap outcome" where
  "mpadd b1 b2 sm h =
    andthen (get b1 h) (\<lambda>x1.
    andthen (get b2 h) (\<lambda>x2.
    if mp_sign x1 \<noteq> mp_sign x2
    then if mp_sign x1 < 0 then mpmagsub b2 b1 sm h else mpmagsub b1 b2 sm h
    else
      let sign = mp_sign x1 in
      andthen (mpmagadd b1 b2 sm h) (\<lambda>h.
      modify sm (\<lambda>s. if mp_top s \<noteq> 0 then s\<lparr>mp_sign := sign\<rparr> else s) h)))"

definition mpsub :: "nat \<Rightarrow> nat \<Rightarrow> nat \<Rightarrow> mpheap \<Rightarrow> mpheap outcome" where
  "mpsub b1 b2 diff h =
    andthen (get b1 h) (\<lambda>x1.
    andthen (get b2 h) (\<lambda>x2.
    if mp_sign x1 \<noteq> mp_sign x2
    then
      let sign = mp_sign x1 in
      andthen (mpmagadd b1 b2 diff h) (\<lambda>h.
      modify diff (\<lambda>s. s\<lparr>mp_sign := sign\<rparr>) h)
    else
      let sign = mp_sign x1 in
      andthen (mpmagsub b1 b2 diff h) (\<lambda>h.
      modify diff (\<lambda>s. if mp_top s \<noteq> 0 then s\<lparr>mp_sign := mp_sign s * sign\<rparr> else s) h)))"

section \<open>Multiplication\<close>

text \<open>The product into an object that is neither operand.\<close>

definition mpmul_into :: "nat \<Rightarrow> nat \<Rightarrow> nat \<Rightarrow> mpheap \<Rightarrow> mpheap outcome" where
  "mpmul_into b1 b2 pr h =
    andthen (modify pr (\<lambda>s. s\<lparr>mp_top := 0\<rparr>) h) (\<lambda>h.
    andthen (get b1 h) (\<lambda>x1.
    andthen (get b2 h) (\<lambda>x2.
    andthen (mpbits pr (int ((mp_top x1 + mp_top x2 + 1) * Dbits)) h) (\<lambda>h.
    andthen (get pr h) (\<lambda>s.
    andthen (access (mpvecmul (mp_p x1) (mp_top x1) (mp_p x2) (mp_top x2) (mp_p s))) (\<lambda>p.
    mpnorm pr (put pr (s\<lparr>mp_p := p, mp_top := mp_top x1 + mp_top x2 + 1,
      mp_sign := mp_sign x1 * mp_sign x2\<rparr>) h)))))))"

definition mpmul :: "nat \<Rightarrow> nat \<Rightarrow> nat \<Rightarrow> mpheap \<Rightarrow> mpheap outcome" where
  "mpmul b1 b2 pr h =
    (if pr = b1 \<or> pr = b2
     then
       let oprod = pr in
       andthen (mpnew 0 h) (\<lambda>(pr, h).
       andthen (mpmul_into b1 b2 pr h) (\<lambda>h.
       andthen (mpassign pr oprod h) (\<lambda>h.
       mpfree (Some pr) h)))
     else mpmul_into b1 b2 pr h)"

lemma const_ok [simp]: "mp_ok mpzero_obj" "mp_ok mpone_obj" "mp_ok mptwo_obj"
  using const_can by blast+

section \<open>Comparison\<close>

lemma mpmagcmp_spec:
  assumes "mem h b1 = Some x1" "mem h b2 = Some x2" "mp_norm x1" "mp_norm x2"
  obtains c where "mpmagcmp b1 b2 h = Ok c" "sgn c = sgn (int (mag x1) - int (mag x2))"
proof (cases "mp_top x1 = mp_top x2")
  case True
  have "mpveccmp (mp_p x1) (mp_top x1) (mp_p x2) (mp_top x2) = Some (cmpz (mag x1) (mag x2))"
    unfolding mag_def using assms(3,4) by (intro mpveccmp_spec) (auto simp: mp_norm_def mp_ok_def)
  moreover have "sgn (cmpz (mag x1) (mag x2)) = sgn (int (mag x1) - int (mag x2))" by (auto simp: cmpz_def sgn_if)
  ultimately show ?thesis using that assms(1,2) True by (simp add: mpmagcmp_def)
next
  case False
  let ?c = "int (mp_top x1) - int (mp_top x2)"
  have less: "mag x < mag y" if "mp_norm x" "mp_norm y" "mp_top x < mp_top y" for x y
  proof -
    have "DB ^ mp_top x \<le> DB ^ (mp_top y - 1)" using that(3) by (intro power_increasing) (simp_all add: Suc_le_eq)
    then show ?thesis using mag_bound[of x] mag_ge[OF that(2)] that by fastforce
  qed
  have "mpmagcmp b1 b2 h = Ok ?c" using assms False by (simp add: mpmagcmp_def Let_def)
  moreover have "sgn ?c = sgn (int (mag x1) - int (mag x2))"
    using less[OF assms(3,4)] less[OF assms(4,3)] False by (cases "mp_top x1 < mp_top x2") (auto simp: sgn_if)
  ultimately show ?thesis using that by blast
qed

lemma mpval_cases:
  assumes "mp_can x"
  obtains "mp_sign x = 1" "mpval x = int (mag x)" | "mp_sign x = - 1" "mpval x = - int (mag x)" "0 < mag x"
  using assms mag_0_iff[of x] by (auto simp: mp_can_def mp_norm_def mp_ok_def mpval_def)

lemma mpcmp_spec:
  assumes "mem h b1 = Some x1" "mem h b2 = Some x2" "mp_can x1" "mp_can x2"
  obtains c where "mpcmp b1 b2 h = Ok c" "sgn c = sgn (mpval x1 - mpval x2)"
proof -
  obtain c where c: "mpmagcmp b1 b2 h = Ok c" "sgn c = sgn (int (mag x1) - int (mag x2))"
    by (rule mpmagcmp_spec[OF assms(1,2)]) (use assms in auto)
  obtain c' where c': "mpmagcmp b2 b1 h = Ok c'" "sgn c' = sgn (int (mag x2) - int (mag x1))"
    by (rule mpmagcmp_spec[OF assms(2,1)]) (use assms in auto)
  show ?thesis
    by (rule mpval_cases[OF assms(3)]; rule mpval_cases[OF assms(4)])
      (use assms(1,2) c c' that in \<open>auto simp: mpcmp_def sgn_if\<close>)
qed

section \<open>Addition and subtraction of magnitudes\<close>

lemma mag_take: "mp_top x = n \<Longrightarrow> val (take n (mp_p x)) = mag x"
  by (simp add: mag_def)

lemma take_room: "mp_ok x \<Longrightarrow> m \<le> mp_top x \<Longrightarrow> take m (mp_p (room n x)) = take m (mp_p x)"
  using room_ok(6)[of x n] by (metis min.absorb1 take_take)

text \<open>The operand seen after the result object has been given room, which may be the operand.\<close>

lemma operand_room:
  assumes "mem h b = Some x" "mem h d = Some s" "mp_ok x" "mp_ok s"
  obtains y where "mem (put d (room k s) h) b = Some y" "take (mp_top x) (mp_p y) = take (mp_top x) (mp_p x)"
    "mp_top x \<le> length (mp_p y)" "mp_sign y = mp_sign x"
proof (cases "b = d")
  case True
  then show ?thesis using that[of "room k x"] assms room_ok(4)[OF assms(3), of k] take_room[OF assms(3), of "mp_top x" k]
      room_ok(7)[OF assms(3), of k] room_ok(1)[OF assms(3), of k] by (auto simp: mp_ok_def)
next
  case False
  then show ?thesis using that[of x] assms by (auto simp: mp_ok_def)
qed

lemma mpmagadd_ge:
  assumes m: "mem h b1 = Some x1" "mem h b2 = Some x2" "mem h d = Some s" "mem h mpzero = Some mpzero_obj"
    and ok: "mp_norm x1" "mp_norm x2" "mp_ok s" and le: "mp_top x2 \<le> mp_top x1"
  obtains s' where "mpmagadd b1 b2 d h = Ok (put d s' h)" "mp_can s'" "mag s' = mag x1 + mag x2" "mp_flags s' = mp_flags s"
proof -
  have ok': "mp_ok x1" "mp_ok x2" using ok by auto
  consider "mp_top x1 = 0" | "mp_top x1 \<noteq> 0" "mp_top x2 = 0" | "mp_top x1 \<noteq> 0" "mp_top x2 \<noteq> 0" by blast
  then show ?thesis
  proof cases
    case 1
    obtain z where z: "mpassign mpzero d h = Ok (put d z h)" "mp_ok z" "mp_same mpzero_obj z" "mp_flags z = mp_flags s"
      by (rule mpassign_spec[OF m(4,3) _ ok(3)]) simp
    have "mag z = mag mpzero_obj" using mp_same_val(1)[OF z(3)] by simp
    then have "mag z = mag x1 + mag x2" using 1 le by (simp add: mag_def mpzero_obj_def)
    moreover have "mpmagadd b1 b2 d h = mpassign mpzero d h" using m 1 le by (simp add: mpmagadd_def Let_def)
    ultimately show ?thesis using that[of z] z mp_same_can(2)[OF z(3,2)] by simp
  next
    case 2
    obtain z where z: "mpassign b1 d h = Ok (put d z h)" "mp_ok z" "mp_same x1 z" "mp_flags z = mp_flags s"
      by (rule mpassign_spec[OF m(1,3) ok'(1) ok(3)])
    have "mag z = mag x1 + mag x2" using mp_same_val(1)[OF z(3)] 2 by (simp add: mag_def)
    moreover have "mp_can z" using mp_same_can(1)[OF z(3,2) ok(1)] z(3) 2 by (simp add: mp_can_def mp_same_def)
    moreover have "mpmagadd b1 b2 d h = mpassign b1 d h" using m 2 le by (simp add: mpmagadd_def Let_def)
    ultimately show ?thesis using that[of z] z by simp
  next
    case 3
    let ?n = "mp_top x1" let ?k = "?n + 1"
    define s1 where "s1 = (room ?k s)\<lparr>mp_top := ?k\<rparr>"
    have s1: "?k \<le> length (mp_p s1)" "mp_size s1 = length (mp_p s1)" "mp_sign s1 = mp_sign s" "mp_flags s1 = mp_flags s"
      using room_ok[OF ok(3), of ?k] by (auto simp: s1_def mp_ok_def)
    obtain y1 where y1: "mem (put d (room ?k s) h) b1 = Some y1" "take ?n (mp_p y1) = take ?n (mp_p x1)" "?n \<le> length (mp_p y1)"
      by (rule operand_room[OF m(1,3) ok'(1) ok(3)])
    obtain y2 where y2: "mem (put d (room ?k s) h) b2 = Some y2" "take (mp_top x2) (mp_p y2) = take (mp_top x2) (mp_p x2)"
        "mp_top x2 \<le> length (mp_p y2)"
      by (rule operand_room[OF m(2,3) ok'(2) ok(3)])
    have g: "get b1 (put d s1 h) = Ok (if b1 = d then s1 else y1)" "get b2 (put d s1 h) = Ok (if b2 = d then s1 else y2)"
      "b1 = d \<Longrightarrow> mp_p s1 = mp_p y1" "b2 = d \<Longrightarrow> mp_p s1 = mp_p y2"
      using y1(1) y2(1) by (auto simp: s1_def get_def)
    obtain r where r: "mpvecadd (mp_p y1) ?n (mp_p y2) (mp_top x2) (mp_p s1) = Some (r @ drop ?k (mp_p s1))" "length r = ?k"
      "val r = val (take ?n (mp_p y1)) + val (take (mp_top x2) (mp_p y2))"
      by (rule mpvecadd_spec[of "mp_top x2" ?n "mp_p y1" "mp_p y2" "mp_p s1"]) (use le y1 y2 s1 in auto)
    define z where "z = s1\<lparr>mp_p := r @ drop ?k (mp_p s1), mp_sign := 1\<rparr>"
    have z: "mp_ok z" "mag z = mag x1 + mag x2" "mp_flags z = mp_flags s"
      using s1 r(2,3) y1(2) y2(2) by (auto simp: z_def s1_def mp_ok_def mag_def)
    obtain s' where s': "mpnorm d (put d z h) = Ok (put d s' (put d z h))" "mp_can s'" "mag s' = mag z" "mp_flags s' = mp_flags z"
      by (rule mpnorm_spec[of "put d z h" d z]) (use z in auto)
    have mb: "mpbits d (int (?k * Dbits)) h = Ok (put d (room ?k s) h)"
      using mpbits_eq[OF m(3) ok(3), of "int (?k * Dbits)"] by (simp only: of_nat_mult DIGITS_mult nat_int)
    have md: "modify d (\<lambda>s. s\<lparr>mp_top := ?k\<rparr>) (put d (room ?k s) h) = Ok (put d s1 h)" by (simp add: s1_def)
    have "mpmagadd b1 b2 d h = mpnorm d (put d z h)"
      unfolding mpmagadd_def z_def using m 3 le mb md r(1) g(3,4)
      by (auto simp add: Let_def g(1,2) simp del: of_nat_mult mult_Suc of_nat_Suc of_nat_add)
    then show ?thesis using that[of s'] s' z by simp
  qed
qed

lemma mpmagadd_spec:
  assumes m: "mem h b1 = Some x1" "mem h b2 = Some x2" "mem h d = Some s" "mem h mpzero = Some mpzero_obj"
    and ok: "mp_norm x1" "mp_norm x2" "mp_ok s"
  obtains s' where "mpmagadd b1 b2 d h = Ok (put d s' h)" "mp_can s'" "mag s' = mag x1 + mag x2" "mp_flags s' = mp_flags s"
proof (cases "mp_top x2 \<le> mp_top x1")
  case True
  show ?thesis by (rule mpmagadd_ge[OF m ok True]) (rule that)
next
  case False
  then have "mpmagadd b1 b2 d h = mpmagadd b2 b1 d h" using m by (simp add: mpmagadd_def)
  moreover obtain s' where "mpmagadd b2 b1 d h = Ok (put d s' h)" "mp_can s'" "mag s' = mag x2 + mag x1" "mp_flags s' = mp_flags s"
    by (rule mpmagadd_ge[OF m(2,1,3,4) ok(2,1,3)]) (use False in auto)
  ultimately show ?thesis using that[of s'] by simp
qed

lemma magsub_into_spec:
  assumes m: "mem h b1 = Some x1" "mem h b2 = Some x2" "mem h d = Some s"
    and ok: "mp_norm x1" "mp_norm x2" "mp_ok s" and le: "mag x2 \<le> mag x1" and sg: "sg = 1 \<or> sg = - 1 \<and> mag x2 < mag x1"
  obtains s' where "magsub_into sg b1 b2 d h = Ok (put d s' h)" "mp_can s'" "mpval s' = sg * (int (mag x1) - int (mag x2))" "mp_flags s' = mp_flags s"
proof -
  have ok': "mp_ok x1" "mp_ok x2" using ok by auto
  show ?thesis
  proof (cases "mp_top x2 = 0")
    case True
    obtain z where z: "mpassign b1 d h = Ok (put d z h)" "mp_ok z" "mp_same x1 z" "mp_flags z = mp_flags s"
      by (rule mpassign_spec[OF m(1,3) ok'(1) ok(3)])
    let ?z = "z\<lparr>mp_sign := sg\<rparr>"
    have x2: "mag x2 = 0" using True by (simp add: mag_def)
    have "mag ?z = mag x1" using mp_same_val(1)[OF z(3)] by (simp add: mag_def)
    moreover have "mp_can ?z"
      using mp_same_can(1)[OF z(3,2) ok(1)] sg x2 mag_0_iff[OF ok(1)] z(3) by (auto simp: mp_can_def mp_norm_def mp_ok_def mp_same_def)
    moreover have "magsub_into sg b1 b2 d h = Ok (put d ?z h)" using m True z(1) by (simp add: magsub_into_def Let_def)
    ultimately show ?thesis using that[of ?z] z(4) x2 by (simp add: mpval_def)
  next
    case False
    have "\<not> mp_top x1 < mp_top x2"
    proof
      assume lt: "mp_top x1 < mp_top x2"
      have "DB ^ mp_top x1 \<le> DB ^ (mp_top x2 - 1)" using lt by (intro power_increasing) (simp_all add: Suc_le_eq)
      then show False using mag_bound[OF ok'(1)] mag_ge[OF ok(2)] lt le by simp
    qed
    then have nm: "mp_top x2 \<le> mp_top x1" by simp
    let ?n = "mp_top x1"
    define s1 where "s1 = room ?n s"
    have s1: "?n \<le> length (mp_p s1)" "mp_size s1 = length (mp_p s1)" "mp_flags s1 = mp_flags s"
      using room_ok[OF ok(3), of ?n] by (auto simp: s1_def mp_ok_def)
    obtain y1 where y1: "mem (put d s1 h) b1 = Some y1" "take ?n (mp_p y1) = take ?n (mp_p x1)" "?n \<le> length (mp_p y1)"
      unfolding s1_def by (rule operand_room[OF m(1,3) ok'(1) ok(3)])
    obtain y2 where y2: "mem (put d s1 h) b2 = Some y2" "take (mp_top x2) (mp_p y2) = take (mp_top x2) (mp_p x2)"
        "mp_top x2 \<le> length (mp_p y2)"
      unfolding s1_def by (rule operand_room[OF m(2,3) ok'(2) ok(3)])
    obtain r where r: "mpvecsub (mp_p y1) ?n (mp_p y2) (mp_top x2) (mp_p s1) = Some (r @ drop ?n (mp_p s1))" "length r = ?n"
      "val r = val (take ?n (mp_p y1)) - val (take (mp_top x2) (mp_p y2))"
      by (rule mpvecsub_spec[of "mp_top x2" ?n "mp_p y1" "mp_p y2" "mp_p s1"]) (use nm y1 y2 s1 le in \<open>auto simp: mag_def\<close>)
    define z where "z = s1\<lparr>mp_p := r @ drop ?n (mp_p s1), mp_sign := sg, mp_top := ?n\<rparr>"
    have z: "mp_ok z" "mag z = mag x1 - mag x2" "mp_flags z = mp_flags s" "mp_sign z = sg"
      using s1 r(2,3) y1(2) y2(2) sg by (auto simp: z_def mp_ok_def mag_def)
    obtain s' where s': "mpnorm d (put d z h) = Ok (put d s' (put d z h))" "mp_can s'" "mpval s' = mpval z" "mp_flags s' = mp_flags z"
      by (rule mpnorm_spec[of "put d z h" d z]) (use z in auto)
    have mb: "mpbits d (int (?n * Dbits)) h = Ok (put d s1 h)"
      using mpbits_eq[OF m(3) ok(3), of "int (?n * Dbits)"] unfolding s1_def by (simp only: of_nat_mult DIGITS_mult nat_int)
    have "magsub_into sg b1 b2 d h = mpnorm d (put d z h)"
      unfolding magsub_into_def z_def using m False mb r(1) y1(1) y2(1)
      by (simp add: Let_def del: of_nat_mult mem_put) (simp add: put_def)
    then show ?thesis using that[of s'] s' z le by (simp add: mpval_def of_nat_diff)
  qed
qed

lemma mpmagsub_spec:
  assumes m: "mem h b1 = Some x1" "mem h b2 = Some x2" "mem h d = Some s" and ok: "mp_norm x1" "mp_norm x2" "mp_ok s"
  obtains s' where "mpmagsub b1 b2 d h = Ok (put d s' h)" "mp_can s'" "mpval s' = int (mag x1) - int (mag x2)" "mp_flags s' = mp_flags s"
proof -
  obtain c where c: "mpmagcmp b1 b2 h = Ok c" "sgn c = sgn (int (mag x1) - int (mag x2))"
    by (rule mpmagcmp_spec[OF m(1,2) ok(1,2)])
  show ?thesis
  proof (cases "c < 0")
    case True
    then have "mag x1 < mag x2" using c(2) by (auto simp: sgn_if split: if_splits)
    then obtain s' where "magsub_into (- 1) b2 b1 d h = Ok (put d s' h)" "mp_can s'" "mpval s' = - 1 * (int (mag x2) - int (mag x1))" "mp_flags s' = mp_flags s"
      using magsub_into_spec[OF m(2,1,3) ok(2,1,3), of "- 1"] by auto
    then show ?thesis using that[of s'] c(1) True by (simp add: mpmagsub_def)
  next
    case False
    then have "mag x2 \<le> mag x1" using c(2) by (auto simp: sgn_if split: if_splits)
    then obtain s' where "magsub_into 1 b1 b2 d h = Ok (put d s' h)" "mp_can s'" "mpval s' = 1 * (int (mag x1) - int (mag x2))" "mp_flags s' = mp_flags s"
      using magsub_into_spec[OF m ok, of 1] by auto
    then show ?thesis using that[of s'] c(1) False by (simp add: mpmagsub_def)
  qed
qed

section \<open>Signed addition, subtraction and multiplication\<close>

lemma set_sign_can:
  assumes "mp_can s" "sg = 1 \<or> sg = - 1"
  shows "mp_can (if mp_top s \<noteq> 0 then s\<lparr>mp_sign := sg\<rparr> else s)"
    "mpval (if mp_top s \<noteq> 0 then s\<lparr>mp_sign := sg\<rparr> else s) = sg * int (mag s)"
  using assms mag_0_iff[of s] by (auto simp: mp_can_def mp_norm_def mp_ok_def mpval_def mag_def)

lemma mpadd_spec:
  assumes m: "mem h b1 = Some x1" "mem h b2 = Some x2" "mem h d = Some s" "mem h mpzero = Some mpzero_obj"
    and ok: "mp_can x1" "mp_can x2" "mp_ok s"
  obtains s' where "mpadd b1 b2 d h = Ok (put d s' h)" "mp_can s'" "mpval s' = mpval x1 + mpval x2" "mp_flags s' = mp_flags s"
proof -
  have n: "mp_norm x1" "mp_norm x2" using ok by auto
  obtain a where a: "mpmagadd b1 b2 d h = Ok (put d a h)" "mp_can a" "mag a = mag x1 + mag x2" "mp_flags a = mp_flags s"
    by (rule mpmagadd_spec[OF m n ok(3)])
  obtain u where u: "mpmagsub b1 b2 d h = Ok (put d u h)" "mp_can u" "mpval u = int (mag x1) - int (mag x2)" "mp_flags u = mp_flags s"
    by (rule mpmagsub_spec[OF m(1-3) n ok(3)])
  obtain w where w: "mpmagsub b2 b1 d h = Ok (put d w h)" "mp_can w" "mpval w = int (mag x2) - int (mag x1)" "mp_flags w = mp_flags s"
    by (rule mpmagsub_spec[OF m(2,1,3) n(2,1) ok(3)])
  show ?thesis
    by (rule mpval_cases[OF ok(1)]; rule mpval_cases[OF ok(2)])
      (use m a u w that[of "if mp_top a \<noteq> 0 then a\<lparr>mp_sign := mp_sign x1\<rparr> else a"] that[of u] that[of w] set_sign_can[OF a(2), of "mp_sign x1"]
        in \<open>simp_all add: mpadd_def Let_def\<close>)
qed

lemma mpsub_spec:
  assumes m: "mem h b1 = Some x1" "mem h b2 = Some x2" "mem h d = Some s" "mem h mpzero = Some mpzero_obj"
    and ok: "mp_can x1" "mp_can x2" "mp_ok s"
  obtains s' where "mpsub b1 b2 d h = Ok (put d s' h)" "mp_can s'" "mpval s' = mpval x1 - mpval x2" "mp_flags s' = mp_flags s"
proof -
  have n: "mp_norm x1" "mp_norm x2" using ok by auto
  obtain a where a: "mpmagadd b1 b2 d h = Ok (put d a h)" "mp_can a" "mag a = mag x1 + mag x2" "mp_flags a = mp_flags s"
    by (rule mpmagadd_spec[OF m n ok(3)])
  obtain u where u: "mpmagsub b1 b2 d h = Ok (put d u h)" "mp_can u" "mpval u = int (mag x1) - int (mag x2)" "mp_flags u = mp_flags s"
    by (rule mpmagsub_spec[OF m(1-3) n ok(3)])
  show ?thesis
  proof (cases "mp_sign x1 = mp_sign x2")
    case False
    let ?a = "a\<lparr>mp_sign := mp_sign x1\<rparr>"
    have sg: "mp_sign x1 = 1 \<or> mp_sign x1 = - 1" "mp_sign x2 = 1 \<or> mp_sign x2 = - 1" using ok by (auto simp: mp_can_def mp_norm_def mp_ok_def)
    have "0 < mag a" using False a(3) by (cases rule: mpval_cases[OF ok(1)]; cases rule: mpval_cases[OF ok(2)]) auto
    then have "mp_top a \<noteq> 0" using mag_0_iff[of a] a(2) by auto
    then have "mp_can ?a" "mpval ?a = mp_sign x1 * int (mag a)" using set_sign_can[OF a(2) sg(1)] by simp_all
    moreover have "mp_sign x1 * int (mag a) = mpval x1 - mpval x2" using sg False by (auto simp: a(3) mpval_def)
    moreover have "mpsub b1 b2 d h = Ok (put d ?a h)" using m a(1) False by (simp add: mpsub_def Let_def)
    ultimately show ?thesis using that[of ?a] a(4) by simp
  next
    case True
    let ?u = "if mp_top u \<noteq> 0 then u\<lparr>mp_sign := mp_sign u * mp_sign x1\<rparr> else u"
    have sg: "mp_sign x1 = 1 \<or> mp_sign x1 = - 1" "mp_sign u = 1 \<or> mp_sign u = - 1" using ok u(2) by (auto simp: mp_can_def mp_norm_def mp_ok_def)
    then have "mp_sign u * mp_sign x1 = 1 \<or> mp_sign u * mp_sign x1 = - 1" by auto
    note c = set_sign_can[OF u(2) this]
    have "mp_sign u * mp_sign x1 * int (mag u) = mp_sign x1 * mpval u" by (simp add: mpval_def)
    also have "\<dots> = mpval x1 - mpval x2" unfolding u(3) using True by (simp add: mpval_def algebra_simps)
    finally have "mpval ?u = mpval x1 - mpval x2" using c(2) by simp
    moreover have "mpsub b1 b2 d h = Ok (put d ?u h)" using m u(1) True by (simp add: mpsub_def Let_def)
    ultimately show ?thesis using that[of ?u] c(1) u(4) by simp
  qed
qed

lemma room_zero:
  assumes "mp_ok s" "mp_top s = 0" "0 < k"
  shows "take k (mp_p (room k s)) = replicate k 0" "mp_top (room k s) = k" "k \<le> length (mp_p (room k s))"
    "mp_size (room k s) = length (mp_p (room k s))"
  using assms by (auto simp: room_def mp_ok_def)

lemma mpmul_into_spec:
  assumes m: "mem h b1 = Some x1" "mem h b2 = Some x2" "mem h d = Some s" "d \<noteq> b1" "d \<noteq> b2"
    and ok: "mp_ok x1" "mp_ok x2" "mp_ok s"
  obtains s' where "mpmul_into b1 b2 d h = Ok (put d s' h)" "mp_can s'" "mpval s' = mpval x1 * mpval x2" "mp_flags s' = mp_flags s"
proof -
  let ?n = "mp_top x1 + mp_top x2" let ?k = "?n + 1"
  define s0 where "s0 = s\<lparr>mp_top := 0\<rparr>"
  have s0: "mp_ok s0" "mp_top s0 = 0" using ok(3) by (simp_all add: s0_def mp_ok_def)
  define s1 where "s1 = room ?k s0"
  note s1 = room_zero[OF s0, of ?k, folded s1_def]
  have "take ?n (take ?k (mp_p s1)) = take ?n (replicate ?k 0)" using s1(1) by simp
  then have "take ?n (mp_p s1) = replicate ?n 0" by (simp add: min_def del: replicate_Suc)
  then have z: "val (take ?n (mp_p s1)) = 0" by (simp only: val_replicate)
  obtain r where r: "mpvecmul (mp_p x1) (mp_top x1) (mp_p x2) (mp_top x2) (mp_p s1) = Some (r @ drop ?n (mp_p s1))" "length r = ?n"
    "val r = val (take (mp_top x1) (mp_p x1)) * val (take (mp_top x2) (mp_p x2))"
    by (rule mpvecmul_spec[OF _ _ _ z]) (use ok s1 in \<open>auto simp: mp_ok_def\<close>)
  define t where "t = s1\<lparr>mp_p := r @ drop ?n (mp_p s1), mp_top := ?k, mp_sign := mp_sign x1 * mp_sign x2\<rparr>"
  have "mp_p s1 ! ?n = take ?k (mp_p s1) ! ?n" by simp
  also have "\<dots> = 0" using s1(1) by (simp del: nth_take replicate_Suc)
  finally have "take 1 (drop ?n (mp_p s1)) = [0]" using s1(3) by (simp add: take_Suc_conv_app_nth)
  then have "take ?k (mp_p t) = r @ [0]" using r(2) by (simp add: t_def)
  then have mt: "mag t = mag x1 * mag x2" using r(3) by (simp add: mag_def t_def)
  have to: "mp_ok t" using ok r(2) s1 by (auto simp: t_def mp_ok_def)
  have tf: "mp_flags t = mp_flags s" "mp_sign t = mp_sign x1 * mp_sign x2"
    using room_ok(5)[OF s0(1), of ?k] by (simp_all add: t_def s1_def s0_def)
  obtain s' where s': "mpnorm d (put d t h) = Ok (put d s' (put d t h))" "mp_can s'" "mpval s' = mpval t" "mp_flags s' = mp_flags t"
    by (rule mpnorm_spec[of "put d t h" d t]) (use to in simp_all)
  have mb: "mpbits d (int (?k * Dbits)) (put d s0 h) = Ok (put d s1 h)"
    using mpbits_eq[of "put d s0 h" d s0 "int (?k * Dbits)"] s0(1) unfolding s1_def by (simp only: of_nat_mult DIGITS_mult nat_int mem_put simp_thms if_True put_put)
  have "mpmul_into b1 b2 d h = mpnorm d (put d t h)"
    unfolding mpmul_into_def using m mb[unfolded s0_def] r(1)
    by (simp add: t_def del: of_nat_mult mult_Suc of_nat_Suc of_nat_add)
  then show ?thesis using that[of s'] s' tf mt by (simp add: mpval_def)
qed

text \<open>A memory that differs in one object, apart from addresses that were not yet in use.\<close>

definition sets :: "mpheap \<Rightarrow> nat \<Rightarrow> mpint \<Rightarrow> mpheap \<Rightarrow> bool" where
  "sets h b s h' \<longleftrightarrow> mem h' = (mem h)(b \<mapsto> s) \<and> brk h \<le> brk h' \<and> mpmindigits h' = mpmindigits h"

lemma sets_put [simp]: "sets h b s (put b s h)"
  by (simp add: sets_def put_def)

lemma sets_ok: "heap_ok h \<Longrightarrow> sets h b s h' \<Longrightarrow> 3 \<le> b \<Longrightarrow> b < brk h \<Longrightarrow> heap_ok h'"
  by (auto simp: heap_ok_def sets_def mpzero_def mpone_def mptwo_def)

lemma mpmul_spec:
  assumes h: "heap_ok h" and m: "mem h b1 = Some x1" "mem h b2 = Some x2" "mem h d = Some s"
    and ok: "mp_ok x1" "mp_ok x2" "mp_ok s"
  obtains s' h' where "mpmul b1 b2 d h = Ok h'" "sets h d s' h'" "mp_can s'" "mpval s' = mpval x1 * mpval x2" "mp_flags s' = mp_flags s"
proof (cases "d = b1 \<or> d = b2")
  case False
  obtain s' where "mpmul_into b1 b2 d h = Ok (put d s' h)" "mp_can s'" "mpval s' = mpval x1 * mpval x2" "mp_flags s' = mp_flags s"
    by (rule mpmul_into_spec[OF m _ _ ok]) (use False in auto)
  then show ?thesis using that[of "put d s' h" s'] False by (simp add: mpmul_def)
next
  case True
  let ?q = "brk h"
  obtain x where x: "mpnew 0 h = Ok (?q, alloc x h)" "mp_zeroed x" using mpnew_spec[OF h, of 0] by auto
  have q: "?q \<noteq> b1" "?q \<noteq> b2" "?q \<noteq> d" using heap_ok_brk[OF h] m by fastforce+
  have mq: "mem (alloc x h) b1 = Some x1" "mem (alloc x h) b2 = Some x2" "mem (alloc x h) d = Some s" using m q by simp_all
  have xo: "mp_ok x" "mp_flags x = 0" using x(2) by (auto simp: mp_zeroed_def)
  obtain y where y: "mpmul_into b1 b2 ?q (alloc x h) = Ok (put ?q y (alloc x h))" "mp_can y" "mpval y = mpval x1 * mpval x2" "mp_flags y = mp_flags x"
    by (rule mpmul_into_spec[OF mq(1,2), of ?q x]) (use q ok xo in simp_all)
  have yo: "mp_ok y" using y(2) by auto
  obtain z where z: "mpassign ?q d (alloc y h) = Ok (put d z (alloc y h))" "mp_ok z" "mp_same y z" "mp_flags z = mp_flags s"
    by (rule mpassign_spec[of "alloc y h" ?q y d s]) (use q m yo ok in simp_all)
  let ?h = "release ?q (put d z (alloc y h))"
  have "mpfree (Some ?q) (put d z (alloc y h)) = Ok ?h"
    using mpfree_eq[of "put d z (alloc y h)" ?q y] q yo y(4) xo by simp
  then have "mpmul b1 b2 d h = Ok ?h" using True x(1) y(1) z(1) by (auto simp: mpmul_def Let_def)
  moreover have "sets h d z ?h" using h q by (auto simp: sets_def release_def put_def alloc_def heap_ok_def)
  ultimately show ?thesis
    using that[of ?h z] z(4) mp_same_can(2)[OF z(3,2) y(2)] mp_same_val(2)[OF z(3)] y(3) by simp
qed

end
