(* ===== verification/MpShift.thy ===== *)
theory MpShift
  imports MpInt
begin

text \<open>
  The shifts of src/libmp/port/mpleft.c and mpright.c, with the digits read from the operand while the
  result, which may be the same object, is written.
\<close>

section \<open>Shifts\<close>

text \<open>
  The loops read \<^verbatim>\<open>b->p[i]\<close>, which is the array being written when \<^verbatim>\<open>res\<close> is \<^verbatim>\<open>b\<close>: \<open>cur same src dst\<close> is the
  array read from.
\<close>

definition cur :: "bool \<Rightarrow> mpdigit list \<Rightarrow> mpdigit list \<Rightarrow> mpdigit list" where
  "cur same src dst = (if same then dst else src)"

fun left_digits :: "bool \<Rightarrow> mpdigit list \<Rightarrow> nat \<Rightarrow> nat \<Rightarrow> mpdigit list \<Rightarrow> mpdigit list option" where
  "left_digits same src d 0 dst = Some dst"
| "left_digits same src d (Suc i) dst = do {
     x \<leftarrow> rd (cur same src dst) i;
     dst \<leftarrow> wr dst (i + d) [x];
     left_digits same src d i dst }"

fun left_bits :: "bool \<Rightarrow> mpdigit list \<Rightarrow> nat \<Rightarrow> nat \<Rightarrow> nat \<Rightarrow> mpdigit \<Rightarrow> mpdigit list \<Rightarrow> mpdigit list option" where
  "left_bits same src d l 0 prev dst = wr dst d [push_bit l prev]"
| "left_bits same src d l (Suc i) prev dst = do {
     this \<leftarrow> rd (cur same src dst) i;
     dst \<leftarrow> wr dst (i + d + 1) [push_bit l prev OR drop_bit (Dbits - l) this];
     left_bits same src d l i this dst }"

definition mpleft_by :: "nat \<Rightarrow> nat \<Rightarrow> nat \<Rightarrow> mpheap \<Rightarrow> mpheap outcome" where
  "mpleft_by b shift res h =
    andthen (get b h) (\<lambda>x.
    let otop = mp_top x in
    andthen (mpbits res (int (otop * Dbits + shift)) h) (\<lambda>h.
    andthen (modify res (\<lambda>y. y\<lparr>mp_top := nat (DIGITS (int (otop * Dbits + shift)))\<rparr>) h) (\<lambda>h.
    let d = shift div Dbits; l = shift - d * Dbits in
    andthen (get b h) (\<lambda>x.
    andthen (get res h) (\<lambda>y.
    andthen (access (if l = 0 then left_digits (b = res) (mp_p x) d otop (mp_p y)
                     else left_bits (b = res) (mp_p x) d l otop 0 (mp_p y))) (\<lambda>p.
    andthen (access (wr p 0 (replicate d 0))) (\<lambda>p.
    andthen (access (norm_loop p (mp_top y))) (\<lambda>t.
    Ok (put res (y\<lparr>mp_p := p, mp_top := t\<rparr>) h)))))))))"

fun right_digits :: "bool \<Rightarrow> mpdigit list \<Rightarrow> nat \<Rightarrow> nat \<Rightarrow> nat \<Rightarrow> mpdigit list \<Rightarrow> mpdigit list option" where
  "right_digits same src d i 0 dst = Some dst"
| "right_digits same src d i (Suc k) dst = do {
     x \<leftarrow> rd (cur same src dst) (i + d);
     dst \<leftarrow> wr dst i [x];
     right_digits same src d (i + 1) k dst }"

fun right_bits :: "bool \<Rightarrow> mpdigit list \<Rightarrow> nat \<Rightarrow> nat \<Rightarrow> nat \<Rightarrow> nat \<Rightarrow> mpdigit \<Rightarrow> mpdigit list \<Rightarrow> mpdigit list option" where
  "right_bits same src d r i 0 prev dst = wr dst i [drop_bit r prev]"
| "right_bits same src d r i (Suc k) prev dst = do {
     this \<leftarrow> rd (cur same src dst) (i + d + 1);
     dst \<leftarrow> wr dst i [push_bit (Dbits - r) this OR drop_bit r prev];
     right_bits same src d r (i + 1) k this dst }"

definition mpright_by :: "nat \<Rightarrow> nat \<Rightarrow> nat \<Rightarrow> mpheap \<Rightarrow> mpheap outcome" where
  "mpright_by b shift res h =
    andthen (get b h) (\<lambda>x.
    andthen (if res \<noteq> b then mpbits res (int (mp_top x * Dbits) - int shift) h else Ok h) (\<lambda>h.
    let d = shift div Dbits; r = shift - d * Dbits in
    if d \<ge> mp_top x then modify res (\<lambda>y. y\<lparr>mp_top := 0\<rparr>) h
    else
      andthen (get res h) (\<lambda>y.
      andthen (access (if r = 0 then right_digits (b = res) (mp_p x) d 0 (mp_top x - d) (mp_p y)
                       else do {
                         prev \<leftarrow> rd (mp_p x) d;
                         right_bits (b = res) (mp_p x) d r 0 (mp_top x - d - 1) prev (mp_p y) })) (\<lambda>p.
      andthen (access (norm_loop p (mp_top x - d))) (\<lambda>i.
      let y = y\<lparr>mp_p := p, mp_top := i\<rparr>;
          y = (if i = 0 then y\<lparr>mp_sign := 1\<rparr> else y)
      in Ok (put res y h))))))"

function mpleft :: "nat \<Rightarrow> int \<Rightarrow> nat \<Rightarrow> mpheap \<Rightarrow> mpheap outcome"
  and mpright :: "nat \<Rightarrow> int \<Rightarrow> nat \<Rightarrow> mpheap \<Rightarrow> mpheap outcome" where
  "mpleft b shift res h =
    andthen (get b h) (\<lambda>x.
    andthen (modify res (\<lambda>y. y\<lparr>mp_sign := mp_sign x\<rparr>) h) (\<lambda>h.
    if mp_top x = 0 then modify res (\<lambda>y. y\<lparr>mp_top := 0\<rparr>) h
    else if shift < 0 then mpright b (- shift) res h
    else mpleft_by b (nat shift) res h))"
| "mpright b shift res h =
    andthen (get b h) (\<lambda>x.
    andthen (modify res (\<lambda>y. y\<lparr>mp_sign := mp_sign x\<rparr>) h) (\<lambda>h.
    if mp_top x = 0 then modify res (\<lambda>y. y\<lparr>mp_top := 0\<rparr>) h
    else if shift < 0 then mpleft b (- shift) res h
    else mpright_by b (nat shift) res h))"
  by pat_completeness auto
termination
  by (relation "measure (\<lambda>a. case a of Inl (b, s, res, h) \<Rightarrow> (if s < 0 then 1 else 0)
    | Inr (b, s, res, h) \<Rightarrow> (if s < 0 then 1 else 0))") auto

declare mpleft.simps [simp del] mpright.simps [simp del]

section \<open>The loops of the shifts\<close>

lemma wr1: "wr b p [x] = (if p < length b then Some (b[p := x]) else None)"
  by (simp add: wr_def upd_def upd_conv_take_nth_drop)

lemma cur_upd: "k \<noteq> j \<Longrightarrow> cur same src (dst[k := x]) ! j = cur same src dst ! j"
  by (simp add: cur_def)

lemma length_cur_upd [simp]: "length (cur same src (dst[k := x])) = length (cur same src dst)"
  by (simp add: cur_def)

lemma left_digits_eq:
  assumes "i + d \<le> length dst" "i \<le> length (cur same src dst)" "\<And>j. j < i \<Longrightarrow> cur same src dst ! j = X ! j" "i \<le> length X"
  shows "left_digits same src d i dst = Some (take d dst @ take i X @ drop (d + i) dst)"
  using assms
proof (induction i arbitrary: dst)
  case (Suc i)
  have r: "rd (cur same src dst) i = Some (X ! i)" using Suc.prems(2,3) by (simp add: rd_def)
  have "left_digits same src d i (dst[i + d := X ! i]) = Some (take d (dst[i + d := X ! i]) @ take i X @ drop (d + i) (dst[i + d := X ! i]))"
    using Suc.prems by (intro Suc.IH) (auto simp: cur_upd)
  moreover have "drop (d + i) (dst[i + d := X ! i]) = X ! i # drop (d + Suc i) dst"
    using Suc.prems(1) by (subst Cons_nth_drop_Suc[symmetric]) (simp_all add: add.commute drop_update_cancel)
  ultimately show ?case using r Suc.prems(1,4) by (simp add: wr1 take_Suc_conv_app_nth)
qed simp

text \<open>The digits \<^verbatim>\<open>left_bits\<close> writes.\<close>

fun shl_digits :: "nat \<Rightarrow> mpdigit list \<Rightarrow> nat \<Rightarrow> mpdigit \<Rightarrow> mpdigit list" where
  "shl_digits l X 0 prev = [push_bit l prev]"
| "shl_digits l X (Suc i) prev = shl_digits l X i (X ! i) @ [push_bit l prev OR drop_bit (Dbits - l) (X ! i)]"

lemma length_shl_digits [simp]: "length (shl_digits l X i prev) = i + 1"
  by (induction i arbitrary: prev) auto

lemma left_bits_eq:
  assumes "i + d < length dst" "i \<le> length (cur same src dst)" "\<And>j. j < i \<Longrightarrow> cur same src dst ! j = X ! j"
  shows "left_bits same src d l i prev dst = Some (take d dst @ shl_digits l X i prev @ drop (d + i + 1) dst)"
  using assms
proof (induction i arbitrary: dst prev)
  case 0
  then show ?case by (simp add: wr1 upd_conv_take_nth_drop)
next
  case (Suc i)
  let ?y = "push_bit l prev OR drop_bit (Dbits - l) (X ! i)"
  have r: "rd (cur same src dst) i = Some (X ! i)" using Suc.prems(2,3) by (simp add: rd_def)
  have "left_bits same src d l i (X ! i) (dst[i + d + 1 := ?y]) =
      Some (take d (dst[i + d + 1 := ?y]) @ shl_digits l X i (X ! i) @ drop (d + i + 1) (dst[i + d + 1 := ?y]))"
    using Suc.prems by (intro Suc.IH) (auto simp: cur_upd)
  moreover have "drop (d + i + 1) (dst[i + d + 1 := ?y]) = ?y # drop (d + Suc i + 1) dst"
    using Suc.prems(1) by (subst Cons_nth_drop_Suc[symmetric]) (simp_all add: add.commute drop_update_cancel)
  ultimately show ?case using r Suc.prems(1) by (simp add: wr1)
qed

lemma or_disjoint: "m < 2 ^ l \<Longrightarrow> (2 ^ l * k) OR m = 2 ^ l * k + (m::nat)"
proof -
  assume m: "m < 2 ^ l"
  have "\<not> bit (2 ^ l * k) n \<or> \<not> bit m n" for n
  proof (cases "n < l")
    case True
    then show ?thesis using bit_push_bit_iff_nat[of l k n] by (simp add: push_bit_eq_mult mult.commute)
  next
    case False
    then have "\<not> bit m n" using nat_ge_of_bit[of m n] m power_increasing[of l n "2::nat"] by linarith
    then show ?thesis by simp
  qed
  then show ?thesis by (rule disjunctive_add[symmetric])
qed

lemma DB_split: "l \<le> Dbits \<Longrightarrow> DB = 2 ^ l * 2 ^ (Dbits - l)"
  by (simp add: DB_def Dbits_def flip: power_add)

lemma unat_shr: "unat (drop_bit i (x::mpdigit)) = unat x div 2 ^ i"
  unfolding unsigned_drop_bit_eq using dig_lt[of x] by (simp add: DB_def drop_bit_eq_div take_bit_nat_eq_self)

lemma shl_mod: "l \<le> Dbits \<Longrightarrow> (x * 2 ^ l) mod DB = 2 ^ l * (x mod 2 ^ (Dbits - l))"
  using DB_split[of l] by (simp add: mult.commute[of x] mult_mod_right)

lemma shl_div: "l \<le> Dbits \<Longrightarrow> (x * 2 ^ l) div DB = x div 2 ^ (Dbits - l)"
proof -
  assume "l \<le> Dbits"
  then show ?thesis unfolding DB_split[OF \<open>l \<le> Dbits\<close>] mult.commute[of x] by (simp add: div_mult_mult1)
qed

lemma unat_shl_or:
  assumes "l \<le> Dbits"
  shows "unat (push_bit l a OR drop_bit (Dbits - l) b :: mpdigit) = (unat a * 2 ^ l) mod DB + unat b div 2 ^ (Dbits - l)"
proof -
  have "unat b < 2 ^ l * 2 ^ (Dbits - l)" using dig_lt[of b] DB_split[OF assms] by simp
  then have "unat b div 2 ^ (Dbits - l) < 2 ^ l" by (simp add: less_mult_imp_div_less)
  then show ?thesis unfolding unsigned_or_eq unat_shl unat_shr shl_mod[OF assms] by (rule or_disjoint)
qed

lemma val_shl_digits:
  assumes "l \<le> Dbits" "i \<le> length X"
  shows "val (shl_digits l X i prev) = val (take i X) * 2 ^ l + DB ^ i * ((unat prev * 2 ^ l) mod DB)"
  using assms(2)
proof (induction i arbitrary: prev)
  case 0
  then show ?case by (simp add: unat_shl)
next
  case (Suc i)
  let ?x = "unat (X ! i)"
  have "?x * 2 ^ l = (?x * 2 ^ l) mod DB + DB * (?x div 2 ^ (Dbits - l))"
    using mod_mult_div_eq[of "?x * 2 ^ l" DB] shl_div[OF assms(1), of ?x] by simp
  then have "DB ^ i * (?x * 2 ^ l) = DB ^ i * ((?x * 2 ^ l) mod DB) + DB ^ i * (DB * (?x div 2 ^ (Dbits - l)))"
    by (metis distrib_left)
  then show ?case using Suc unfolding shl_digits.simps val_snoc unat_shl_or[OF assms(1)]
    by (simp add: val_take_Suc distrib_left distrib_right mult.assoc)
qed

lemma take_drop_cons: "n < length X \<Longrightarrow> take (Suc k) (drop n X) = X ! n # take k (drop (Suc n) X)"
  by (subst Cons_nth_drop_Suc[symmetric]) simp_all

lemma right_digits_eq:
  assumes "i + k \<le> length dst" "i + d + k \<le> length (cur same src dst)"
    "\<And>j. i + d \<le> j \<Longrightarrow> j < i + d + k \<Longrightarrow> cur same src dst ! j = X ! j" "i + d + k \<le> length X"
  shows "right_digits same src d i k dst = Some (take i dst @ take k (drop (i + d) X) @ drop (i + k) dst)"
  using assms
proof (induction k arbitrary: i dst)
  case (Suc k)
  let ?y = "X ! (i + d)"
  have r: "rd (cur same src dst) (i + d) = Some ?y" using Suc.prems(2,3) by (simp add: rd_def)
  have "right_digits same src d (i + 1) k (dst[i := ?y]) =
      Some (take (i + 1) (dst[i := ?y]) @ take k (drop (i + 1 + d) X) @ drop (i + 1 + k) (dst[i := ?y]))"
    using Suc.prems by (intro Suc.IH) (auto simp: cur_upd)
  moreover have "take (i + 1) (dst[i := ?y]) = take i dst @ [?y]"
    using Suc.prems(1) by (simp add: take_Suc_conv_app_nth)
  moreover have "take (Suc k) (drop (i + d) X) = ?y # take k (drop (i + 1 + d) X)"
    using Suc.prems(4) by (simp add: take_drop_cons)
  ultimately show ?case using r Suc.prems(1) by (simp add: wr1)
qed simp

text \<open>The digits \<^verbatim>\<open>right_bits\<close> writes.\<close>

fun shr_digits :: "nat \<Rightarrow> mpdigit list \<Rightarrow> mpdigit list" where
  "shr_digits r [] = []"
| "shr_digits r [x] = [drop_bit r x]"
| "shr_digits r (x # y # X) = (push_bit (Dbits - r) y OR drop_bit r x) # shr_digits r (y # X)"

lemma right_bits_eq:
  assumes "i + k < length dst" "i + d + k < length (cur same src dst)"
    "\<And>j. i + d < j \<Longrightarrow> j \<le> i + d + k \<Longrightarrow> cur same src dst ! j = X ! j" "i + d + k < length X"
  shows "right_bits same src d r i k (X ! (i + d)) dst =
    Some (take i dst @ shr_digits r (take (k + 1) (drop (i + d) X)) @ drop (i + k + 1) dst)"
  using assms
proof (induction k arbitrary: i dst)
  case 0
  then have "take 1 (drop (i + d) X) = [X ! (i + d)]" by (simp add: take_drop_cons)
  then show ?case using 0 by (simp add: wr1 upd_conv_take_nth_drop)
next
  case (Suc k)
  let ?y = "push_bit (Dbits - r) (X ! (i + d + 1)) OR drop_bit r (X ! (i + d))"
  have q: "rd (cur same src dst) (i + d + 1) = Some (X ! (i + d + 1))" using Suc.prems(2,3) by (simp add: rd_def)
  have "right_bits same src d r (i + 1) k (X ! (i + 1 + d)) (dst[i := ?y]) =
      Some (take (i + 1) (dst[i := ?y]) @ shr_digits r (take (k + 1) (drop (i + 1 + d) X)) @ drop (i + 1 + k + 1) (dst[i := ?y]))"
    using Suc.prems by (intro Suc.IH) (auto simp: cur_upd)
  moreover have "take (i + 1) (dst[i := ?y]) = take i dst @ [?y]"
    using Suc.prems(1) by (simp add: take_Suc_conv_app_nth)
  moreover have "take (Suc k + 1) (drop (i + d) X) = X ! (i + d) # X ! (i + d + 1) # take k (drop (i + d + 2) X)"
    using Suc.prems(4) by (simp add: take_drop_cons)
  moreover have "take (k + 1) (drop (i + 1 + d) X) = X ! (i + d + 1) # take k (drop (i + d + 2) X)"
    using Suc.prems(4) by (simp add: take_drop_cons)
  ultimately show ?case using q Suc.prems(1) by (simp add: wr1)
qed

lemma unat_shr_or:
  assumes "r \<le> Dbits"
  shows "unat (push_bit (Dbits - r) a OR drop_bit r b :: mpdigit) = (unat a * 2 ^ (Dbits - r)) mod DB + unat b div 2 ^ r"
  using unat_shl_or[of "Dbits - r" a b] assms by simp

lemma shr_step:
  assumes "r \<le> Dbits"
  shows "(a + DB * v) div 2 ^ r = a div 2 ^ r + ((v mod DB) * 2 ^ (Dbits - r)) mod DB + DB * (v div 2 ^ r)"
proof -
  have D: "DB = 2 ^ r * 2 ^ (Dbits - r)" by (rule DB_split[OF assms])
  have "(a + DB * v) div 2 ^ r = a div 2 ^ r + 2 ^ (Dbits - r) * v"
    unfolding D by (simp add: mult.assoc)
  moreover have "2 ^ (Dbits - r) * v = 2 ^ (Dbits - r) * (v mod 2 ^ r) + DB * (v div 2 ^ r)"
    using arg_cong[OF mod_mult_div_eq[of v "2 ^ r"], of "(*) (2 ^ (Dbits - r))", symmetric]
    unfolding D distrib_left by (simp add: mult.assoc mult.left_commute)
  moreover have "((v mod DB) * 2 ^ (Dbits - r)) mod DB = 2 ^ (Dbits - r) * (v mod 2 ^ r)"
    using shl_mod[of "Dbits - r" v] assms by (simp add: mod_mult_left_eq)
  ultimately show ?thesis by simp
qed

lemma val_shr_digits: "r \<le> Dbits \<Longrightarrow> val (shr_digits r X) = val X div 2 ^ r"
proof (induction r X rule: shr_digits.induct)
  case (2 r x)
  then show ?case by (simp add: unat_shr)
next
  case (3 r x y X)
  have "val (y # X) mod DB = unat y" using dig_lt[of y] by simp
  then show ?case using 3 shr_step[of r "unat x" "val (y # X)"] by (simp add: unat_shr_or)
qed simp

lemma length_shr_digits [simp]: "length (shr_digits r X) = length X"
  by (induction r X rule: shr_digits.induct) auto

text \<open>The end of both shifts, which drops the leading zeros.\<close>

lemma strip_spec:
  assumes "n \<le> length p" "mp_size y = length p" "mp_sign y = 1 \<or> mp_sign y = - 1"
  obtains t where "norm_loop p n = Some t" "mp_norm (y\<lparr>mp_p := p, mp_top := t\<rparr>)" "mag (y\<lparr>mp_p := p, mp_top := t\<rparr>) = val (take n p)"
proof -
  obtain t where "norm_loop p n = Some t" "t \<le> n" "val (take t p) = val (take n p)" "0 < t \<Longrightarrow> p ! (t - 1) \<noteq> 0"
    by (rule norm_loop_spec[OF assms(1)]) (rule that)
  then show ?thesis using assms by (intro that[of t]) (auto simp: mp_norm_def mp_ok_def mag_def)
qed

lemma shift_split: "DB ^ (shift div Dbits) * 2 ^ (shift - shift div Dbits * Dbits) = (2::nat) ^ shift"
  by (simp add: DB_power)

lemma left_room:
  "nat (DIGITS (int (t * Dbits + shift))) = t + shift div Dbits + (if shift - shift div Dbits * Dbits = 0 then 0 else 1)"
proof -
  have "(t * 32 + (32 * q + r) + 31) div 32 = t + q + (if r = 0 then 0 else 1)" if "r < 32" for q r :: nat
  proof (cases "r = 0")
    case False
    then have "t * 32 + (32 * q + r) + 31 = (r - 1) + 32 * (t + q + 1)" by simp
    then have "(t * 32 + (32 * q + r) + 31) div 32 = ((r - 1) + 32 * (t + q + 1)) div 32" by (rule arg_cong)
    also have "\<dots> = t + q + 1" using that by (subst div_mult_self2) simp_all
    finally show ?thesis using False by simp
  qed simp
  from this[of "shift mod 32" "shift div 32"] show ?thesis
    unfolding DIGITS_nat nat_int Dbits_def minus_div_mult_eq_mod by simp
qed

lemma left_loop:
  fixes dst :: "mpdigit list"
  defines "loop \<equiv> \<lambda>same src d l i dst. if l = 0 then left_digits same src d i dst else left_bits same src d l i 0 dst"
  assumes "l \<le> Dbits" "i + d + (if l = 0 then 0 else 1) = K" "K \<le> length dst" "i \<le> length src" "same \<Longrightarrow> dst = src"
  obtains D where "loop same src d l i dst = Some (take d dst @ D @ drop K dst)" "length D = K - d" "val D = val (take i src) * 2 ^ l"
proof -
  have c: "cur same src dst = src" using assms(6) by (simp add: cur_def)
  show ?thesis
  proof (cases "l = 0")
    case True
    then show ?thesis using that[of "take i src"] left_digits_eq[of i d dst same src src] c assms
      by (simp add: add.commute[of d])
  next
    case False
    then have "loop same src d l i dst = Some (take d dst @ shl_digits l src i 0 @ drop K dst)"
      using left_bits_eq[of i d dst same src src l 0] c assms by (simp add: add.commute[of d])
    then show ?thesis using that[of "shl_digits l src i 0"] val_shl_digits[of l i src 0] assms False by simp
  qed
qed

lemma mpleft_by_spec:
  assumes m: "mem h b = Some x" "mem h res = Some s" and ok: "mp_norm x" "mp_ok s" and t: "0 < mp_top x" and sg: "mp_sign s = mp_sign x"
  obtains s' where "mpleft_by b shift res h = Ok (put res s' h)" "mp_can s'" "mag s' = mag x * 2 ^ shift" "mp_sign s' = mp_sign x" "mp_flags s' = mp_flags s"
proof -
  define d l K where "d = shift div Dbits" and "l = shift - d * Dbits" and "K = nat (DIGITS (int (mp_top x * Dbits + shift)))"
  have l: "l \<le> Dbits" by (simp add: l_def d_def Dbits_def)
  have K: "mp_top x + d + (if l = 0 then 0 else 1) = K" unfolding K_def left_room l_def d_def by (rule refl)
  define y where "y = (room K s)\<lparr>mp_top := K\<rparr>"
  have y: "mp_size y = length (mp_p y)" "K \<le> length (mp_p y)" "mp_sign y = mp_sign x" "mp_flags y = mp_flags s"
    using room_ok[OF ok(2), of K] sg by (auto simp: y_def mp_ok_def)
  obtain x1 where x1: "mem (put res (room K s) h) b = Some x1" "take (mp_top x) (mp_p x1) = take (mp_top x) (mp_p x)" "mp_top x \<le> length (mp_p x1)"
    by (rule operand_room[OF m mp_normD[OF ok(1)] ok(2), of K])
  define x2 where "x2 = (if b = res then y else x1)"
  have x2: "mem (put res y h) b = Some x2" "mp_p x2 = mp_p x1" using x1(1) by (auto simp: x2_def y_def)
  obtain D where D: "(if l = 0 then left_digits (b = res) (mp_p x2) d (mp_top x) (mp_p y) else left_bits (b = res) (mp_p x2) d l (mp_top x) 0 (mp_p y))
      = Some (take d (mp_p y) @ D @ drop K (mp_p y))" "length D = K - d" "val D = val (take (mp_top x) (mp_p x2)) * 2 ^ l"
    by (rule left_loop[OF l K y(2), of "mp_p x2" "b = res"]) (use x1(3) x2(2) in \<open>auto simp: x2_def\<close>)
  let ?p = "replicate d 0 @ D @ drop K (mp_p y)"
  have dK: "d \<le> K" using K by linarith
  have w: "wr (take d (mp_p y) @ D @ drop K (mp_p y)) 0 (replicate d 0) = Some ?p"
    using y(2) D(2) dK by (simp add: wr_def upd_def)
  have lp: "length ?p = length (mp_p y)" using y(2) D(2) dK by simp
  obtain z where z: "norm_loop ?p K = Some z" "mp_norm (y\<lparr>mp_p := ?p, mp_top := z\<rparr>)" "mag (y\<lparr>mp_p := ?p, mp_top := z\<rparr>) = val (take K ?p)"
    by (rule strip_spec[of K ?p y]) (use y lp ok(1) in \<open>auto simp: mp_norm_def mp_ok_def\<close>)
  have v: "val (take K ?p) = mag x * 2 ^ shift"
    using D(2,3) dK x1(2) x2(2) shift_split[of shift]
    by (simp add: val_append mag_def d_def[symmetric] l_def[symmetric] mult.left_commute mult.assoc)
  let ?s = "y\<lparr>mp_p := ?p, mp_top := z\<rparr>"
  have e: "modify res (\<lambda>y. y\<lparr>mp_top := K\<rparr>) (put res (room K s) h) = Ok (put res y h)"
    "get b (put res y h) = Ok x2" "get res (put res y h) = Ok y" "mp_top y = K"
    using get_Some[OF x2(1)] by (simp_all add: y_def)
  have "mpleft_by b shift res h = Ok (put res ?s h)"
    unfolding mpleft_by_def Let_def get_Some[OF m(1)] andthen.simps mpbits_eq[OF m(2) ok(2)] K_def[symmetric] e d_def[symmetric] l_def[symmetric]
    using D(1) w z(1) by simp
  moreover have "mp_top ?s \<noteq> 0" using mag_0_iff[OF z(2)] z(3) v mag_0_iff[OF ok(1)] t by auto
  then have "mp_can ?s" using z(2) by (simp add: mp_can_def)
  ultimately show ?thesis using that[of ?s] z(3) v y(3,4) by simp
qed

lemma right_loop:
  fixes dst :: "mpdigit list"
  defines "loop \<equiv> \<lambda>same src d r n dst. if r = 0 then right_digits same src d 0 n dst
    else do { prev \<leftarrow> rd src d; right_bits same src d r 0 (n - 1) prev dst }"
  assumes "r \<le> Dbits" "0 < n" "n \<le> length dst" "d + n \<le> length src" "same \<Longrightarrow> dst = src"
  obtains D where "loop same src d r n dst = Some (D @ drop n dst)" "length D = n" "val D = val (take n (drop d src)) div 2 ^ r"
proof -
  have c: "cur same src dst = src" using assms(6) by (simp add: cur_def)
  show ?thesis
  proof (cases "r = 0")
    case True
    then show ?thesis using that[of "take n (drop d src)"] right_digits_eq[of 0 n dst d same src src] c assms by simp
  next
    case False
    have "right_bits same src d r 0 (n - 1) (src ! (0 + d)) dst =
        Some (take 0 dst @ shr_digits r (take (n - 1 + 1) (drop (0 + d) src)) @ drop (0 + (n - 1) + 1) dst)"
      using c assms by (intro right_bits_eq) auto
    then have "loop same src d r n dst = Some (shr_digits r (take n (drop d src)) @ drop n dst)"
      using assms False by (simp add: rd_def)
    then show ?thesis using that[of "shr_digits r (take n (drop d src))"] val_shr_digits[of r] assms False by simp
  qed
qed

lemma val_drop: "d \<le> n \<Longrightarrow> n \<le> length p \<Longrightarrow> val (take (n - d) (drop d p)) = val (take n p) div DB ^ d"
proof -
  assume a: "d \<le> n" "n \<le> length p"
  have "take n p = take d p @ take (n - d) (drop d p)" using take_add[of d "n - d" p] a by simp
  then have "val (take n p) = val (take d p) + DB ^ d * val (take (n - d) (drop d p))"
    using a by (simp add: val_append)
  moreover have "val (take d p) < DB ^ d" using a by (intro val_take_bound) simp
  ultimately show ?thesis using DB_pos by simp
qed

lemma right_room: "shift div Dbits < t \<Longrightarrow> nat (DIGITS (int (t * Dbits) - int shift)) = t - shift div Dbits"
proof -
  assume a: "shift div Dbits < t"
  define q r where "q = shift div 32" and "r = shift mod 32"
  have s: "shift = 32 * q + r" "r < 32" "q < t" using a by (simp_all add: q_def r_def Dbits_def)
  obtain k where k: "t = q + k + 1" using s(3) less_imp_Suc_add by fastforce
  have "int (t * Dbits) - int shift = int (32 * k + (32 - r))" using s by (simp add: Dbits_def k)
  moreover have "(32 * k + (32 - r) + 31) div 32 = k + 1"
  proof -
    have "(32 * k + (32 - r) + 31) div 32 = ((31 - r) + 32 * (k + 1)) div 32" using s(2) by (intro arg_cong[where f = "\<lambda>z. z div 32"]) simp
    also have "\<dots> = k + 1" using s(2) by (subst div_mult_self2) simp_all
    finally show ?thesis .
  qed
  moreover have "t - shift div Dbits = k + 1" using k by (simp add: Dbits_def q_def)
  ultimately show ?thesis by (simp only: DIGITS_nat nat_int)
qed

lemma mag_shifted_out: "mp_ok x \<Longrightarrow> mp_top x \<le> shift div Dbits \<Longrightarrow> mag x div 2 ^ shift = 0"
proof -
  assume a: "mp_ok x" "mp_top x \<le> shift div Dbits"
  have "DB ^ (shift div Dbits) * 1 \<le> DB ^ (shift div Dbits) * 2 ^ (shift - shift div Dbits * Dbits)" by (intro mult_le_mono2) simp
  then have "DB ^ (shift div Dbits) \<le> 2 ^ shift" unfolding shift_split by simp
  moreover have "DB ^ mp_top x \<le> DB ^ (shift div Dbits)" using a(2) DB_pos by (intro power_increasing) simp_all
  ultimately show ?thesis using mag_bound[OF a(1)] by (simp add: div_eq_0_iff)
qed

lemma mpright_by_spec:
  assumes m: "mem h b = Some x" "mem h res = Some s" and ok: "mp_norm x" "mp_ok s" and sg: "mp_sign s = mp_sign x"
  obtains s' where "mpright_by b shift res h = Ok (put res s' h)" "mp_norm s'" "mag s' = mag x div 2 ^ shift"
    "mp_sign s' = (if mp_top s' = 0 \<and> shift div Dbits < mp_top x then 1 else mp_sign x)" "mp_flags s' = mp_flags s"
proof -
  define d r where "d = shift div Dbits" and "r = shift - d * Dbits"
  define K where "K = nat (DIGITS (int (mp_top x * Dbits) - int shift))"
  define y where "y = (if res \<noteq> b then room K s else s)"
  have okx: "mp_ok x" using ok(1) by blast
  have y: "mp_ok y" "mp_sign y = mp_sign x" "mp_flags y = mp_flags s"
    using room_ok[OF ok(2), of K] ok(2) sg by (auto simp: y_def)
  have e: "(if res \<noteq> b then mpbits res (int (mp_top x * Dbits) - int shift) h else Ok h) = Ok (put res y h)"
    unfolding mpbits_eq[OF m(2) ok(2)] K_def[symmetric] y_def using put_same[OF m(2)] by auto
  note un = mpright_by_def Let_def get_Some[OF m(1)] andthen.simps e d_def[symmetric] r_def[symmetric]
  show ?thesis
  proof (cases "mp_top x \<le> d")
    case True
    then have "mpright_by b shift res h = Ok (put res (y\<lparr>mp_top := 0\<rparr>) h)" unfolding un by simp
    then show ?thesis using that[of "y\<lparr>mp_top := 0\<rparr>"] y mag_shifted_out[OF okx, of shift] True
      by (simp add: mp_norm_def mp_ok_def mag_def d_def)
  next
    case False
    define n where "n = mp_top x - d"
    have n: "0 < n" "d + n = mp_top x" using False by (simp_all add: n_def)
    have ny: "n \<le> length (mp_p y)" "b = res \<Longrightarrow> mp_p y = mp_p x"
      using room_ok(2)[OF ok(2), of K] room_ok(1)[OF ok(2), of K] right_room[of shift "mp_top x"] False m okx
      by (auto simp: y_def n_def K_def d_def mp_ok_def)
    have r: "r \<le> Dbits" by (simp add: r_def d_def Dbits_def)
    have lx: "d + n \<le> length (mp_p x)" using n mp_okD(2)[OF okx] by simp
    obtain D where D: "(if r = 0 then right_digits (b = res) (mp_p x) d 0 n (mp_p y)
        else do { prev \<leftarrow> rd (mp_p x) d; right_bits (b = res) (mp_p x) d r 0 (n - 1) prev (mp_p y) }) = Some (D @ drop n (mp_p y))"
      "length D = n" "val D = val (take n (drop d (mp_p x))) div 2 ^ r"
      by (rule right_loop[OF r n(1) ny(1) lx, of "b = res"]) (use ny(2) in auto)
    have v: "val D = mag x div 2 ^ shift"
      using D(3) val_drop[of d "mp_top x" "mp_p x"] n mp_okD(2)[OF okx] shift_split[of shift]
      by (simp add: n_def mag_def d_def[symmetric] r_def[symmetric] flip: div_mult2_eq)
    let ?p = "D @ drop n (mp_p y)"
    have lp: "length ?p = length (mp_p y)" using ny(1) D(2) by simp
    obtain z where z: "norm_loop ?p n = Some z" "mp_norm (y\<lparr>mp_p := ?p, mp_top := z\<rparr>)" "mag (y\<lparr>mp_p := ?p, mp_top := z\<rparr>) = val (take n ?p)"
      by (rule strip_spec[of n ?p y]) (use y lp ny(1) in \<open>auto simp: mp_ok_def\<close>)
    let ?y = "y\<lparr>mp_p := ?p, mp_top := z\<rparr>" let ?s = "if z = 0 then ?y\<lparr>mp_sign := 1\<rparr> else ?y"
    have "mpright_by b shift res h = Ok (put res ?s h)"
      unfolding un n_def[symmetric] using False D(1) z(1) by simp
    moreover have "mp_norm ?s" using z(2) by (auto simp: mp_norm_def mp_ok_def)
    moreover have "mag ?s = mag x div 2 ^ shift" using z(3) v D(2) by (cases "z = 0") (simp_all add: mag_def)
    moreover have "mp_sign ?s = (if mp_top ?s = 0 \<and> shift div Dbits < mp_top x then 1 else mp_sign x)" "mp_flags ?s = mp_flags s"
      using y(2,3) False by (simp_all add: d_def)
    ultimately show ?thesis by (rule that)
  qed
qed

text \<open>
  Both shifts take the other direction for a negative amount. The right shift leaves a zero with the sign
  of the operand when it drops whole digits only.
\<close>

lemma shift_sign:
  assumes "mem h b = Some x" "mem h res = Some s" "mp_norm x" "mp_ok s" "h' = put res (s\<lparr>mp_sign := mp_sign x\<rparr>) h"
  obtains x' where "mem h' b = Some x'" "mem h' res = Some (s\<lparr>mp_sign := mp_sign x\<rparr>)" "mp_norm x'" "mp_ok (s\<lparr>mp_sign := mp_sign x\<rparr>)"
    "mag x' = mag x" "mp_top x' = mp_top x" "mp_sign x' = mp_sign x" "b = res \<Longrightarrow> h' = h"
proof (cases "b = res")
  case True
  then have "s\<lparr>mp_sign := mp_sign x\<rparr> = x" using assms by simp
  then show ?thesis using that[of x] assms True put_same[OF assms(1)] by auto
next
  case False
  then show ?thesis using that[of x] assms by (auto simp: mp_ok_def mp_norm_def)
qed

lemma mpleft_nonneg:
  assumes m: "mem h b = Some x" "mem h res = Some s" and ok: "mp_can x" "mp_ok s" and n: "0 \<le> shift"
  obtains s' where "mpleft b shift res h = Ok (put res s' h)" "mp_can s'" "mpval s' = mpval x * 2 ^ nat shift" "mp_flags s' = mp_flags s"
proof -
  have okx: "mp_norm x" using ok(1) by blast
  define h' where "h' = put res (s\<lparr>mp_sign := mp_sign x\<rparr>) h"
  obtain x' where x': "mem h' b = Some x'" "mem h' res = Some (s\<lparr>mp_sign := mp_sign x\<rparr>)" "mp_norm x'" "mp_ok (s\<lparr>mp_sign := mp_sign x\<rparr>)"
    "mag x' = mag x" "mp_top x' = mp_top x" "mp_sign x' = mp_sign x"
    by (rule shift_sign[OF m okx ok(2) h'_def])
  have e: "modify res (\<lambda>y. y\<lparr>mp_sign := mp_sign x\<rparr>) h = Ok h'" using m(2) by (simp add: h'_def)
  note un = mpleft.simps[of b shift res h] get_Some[OF m(1)] andthen.simps e
  show ?thesis
  proof (cases "mp_top x = 0")
    case True
    then have "mpleft b shift res h = Ok (put res (s\<lparr>mp_sign := mp_sign x, mp_top := 0\<rparr>) h)"
      unfolding un using x'(2) by (simp add: h'_def)
    then show ?thesis using that True ok by (simp add: mp_can_def mp_norm_def mp_ok_def mpval_def mag_def)
  next
    case False
    obtain s' where s': "mpleft_by b (nat shift) res h' = Ok (put res s' h')" "mp_can s'" "mag s' = mag x' * 2 ^ nat shift"
        "mp_sign s' = mp_sign x'" "mp_flags s' = mp_flags (s\<lparr>mp_sign := mp_sign x\<rparr>)"
      by (rule mpleft_by_spec[OF x'(1-4)]) (use False x' in simp_all)
    have "mpleft b shift res h = Ok (put res s' h)" unfolding un using False n s'(1) by (simp add: h'_def)
    then show ?thesis using that s' x' by (simp add: mpval_def)
  qed
qed

lemma mpright_nonneg:
  assumes m: "mem h b = Some x" "mem h res = Some s" and ok: "mp_can x" "mp_ok s" and n: "0 \<le> shift"
  obtains s' where "mpright b shift res h = Ok (put res s' h)" "mp_norm s'" "mag s' = mag x div 2 ^ nat shift"
    "mp_sign s' = (if mp_top s' = 0 \<and> nat shift div Dbits < mp_top x then 1 else mp_sign x)" "mp_flags s' = mp_flags s"
proof -
  have okx: "mp_norm x" using ok(1) by blast
  define h' where "h' = put res (s\<lparr>mp_sign := mp_sign x\<rparr>) h"
  obtain x' where x': "mem h' b = Some x'" "mem h' res = Some (s\<lparr>mp_sign := mp_sign x\<rparr>)" "mp_norm x'" "mp_ok (s\<lparr>mp_sign := mp_sign x\<rparr>)"
    "mag x' = mag x" "mp_top x' = mp_top x" "mp_sign x' = mp_sign x"
    by (rule shift_sign[OF m okx ok(2) h'_def])
  have e: "modify res (\<lambda>y. y\<lparr>mp_sign := mp_sign x\<rparr>) h = Ok h'" using m(2) by (simp add: h'_def)
  note un = mpright.simps[of b shift res h] get_Some[OF m(1)] andthen.simps e
  show ?thesis
  proof (cases "mp_top x = 0")
    case True
    then have "mpright b shift res h = Ok (put res (s\<lparr>mp_sign := mp_sign x, mp_top := 0\<rparr>) h)"
      unfolding un using x'(2) by (simp add: h'_def)
    then show ?thesis using that True ok by (simp add: mp_can_def mp_norm_def mp_ok_def mpval_def mag_def)
  next
    case False
    obtain s' where s': "mpright_by b (nat shift) res h' = Ok (put res s' h')" "mp_norm s'" "mag s' = mag x' div 2 ^ nat shift"
        "mp_sign s' = (if mp_top s' = 0 \<and> nat shift div Dbits < mp_top x' then 1 else mp_sign x')" "mp_flags s' = mp_flags (s\<lparr>mp_sign := mp_sign x\<rparr>)"
      by (rule mpright_by_spec[OF x'(1-4)]) (use x' in simp_all)
    have "mpright b shift res h = Ok (put res s' h)" unfolding un using False n s'(1) by (simp add: h'_def)
    then show ?thesis using that s' x' by simp
  qed
qed

lemma mpright_can:
  assumes "mem h b = Some x" "mem h res = Some s" "mp_can x" "mp_ok s" "0 \<le> shift" "mp_sign x = 1 \<or> nat shift div Dbits < mp_top x"
  obtains s' where "mpright b shift res h = Ok (put res s' h)" "mp_can s'" "mpval s' = mp_sign x * int (mag x div 2 ^ nat shift)" "mp_flags s' = mp_flags s"
proof -
  obtain s' where s': "mpright b shift res h = Ok (put res s' h)" "mp_norm s'" "mag s' = mag x div 2 ^ nat shift"
    "mp_sign s' = (if mp_top s' = 0 \<and> nat shift div Dbits < mp_top x then 1 else mp_sign x)" "mp_flags s' = mp_flags s"
    by (rule mpright_nonneg[OF assms(1-5)])
  moreover have "mp_can s'" using s'(2,4) assms(6) by (auto simp: mp_can_def)
  moreover have "mp_top s' = 0 \<Longrightarrow> mag s' = 0" by (simp add: mag_def)
  ultimately show ?thesis using that[of s'] by (auto simp: mpval_def)
qed

end
