(* ===== verification/MpStore.thy ===== *)
theory MpStore
  imports MpShift
begin

text \<open>
  What the operations of libmp compute, seen by a client: the memory refines a store of integers. An
  interface states what an operation promises on the memory; the operations of MpInt and MpShift satisfy
  it, and programs over them follow the store.
\<close>

section \<open>The abstract store\<close>

definition mp_static :: "mpint \<Rightarrow> bool" where
  "mp_static x \<longleftrightarrow> mp_flags x AND MPstatic \<noteq> 0"

lemma mp_static_const [simp]: "mp_static mpzero_obj" "mp_static mpone_obj" "mp_static mptwo_obj"
  by (simp_all add: mp_static_def mpzero_obj_def mpone_obj_def mptwo_obj_def MPstatic_def)

lemma mp_static_flags: "mp_flags x = mp_flags y \<Longrightarrow> mp_static x = mp_static y"
  by (simp add: mp_static_def)

definition mp_inv :: "mpheap \<Rightarrow> bool" where
  "mp_inv h \<longleftrightarrow> heap_ok h \<and> (\<forall>b x. mem h b = Some x \<longrightarrow> mp_can x \<and> (mp_static x \<longleftrightarrow> b < 3))"

definition mp_store :: "mpheap \<Rightarrow> nat \<Rightarrow> int option" where
  "mp_store h b = map_option mpval (mem h b)"

lemma mp_inv_init: "mp_inv mpinit"
  using heap_ok_init
  by (auto simp: mp_inv_def mpinit_def mpzero_def mpone_def mptwo_def split: if_splits)

lemma mp_invD: "mp_inv h \<Longrightarrow> heap_ok h" "mp_inv h \<Longrightarrow> mem h b = Some x \<Longrightarrow> mp_can x"
  by (auto simp: mp_inv_def)

lemma mp_inv_ok: "mp_inv h \<Longrightarrow> mem h b = Some x \<Longrightarrow> mp_ok x"
  using mp_invD(2) by blast

lemma mp_inv_zero: "mp_inv h \<Longrightarrow> mem h mpzero = Some mpzero_obj"
  by (simp add: mp_inv_def heap_ok_def)

lemma mp_store_Some: "mp_store h b = Some v \<longleftrightarrow> (\<exists>x. mem h b = Some x \<and> mpval x = v)"
  by (auto simp: mp_store_def)

lemma mp_inv_sets:
  assumes "mp_inv h" "sets h d s h'" "mp_can s" "mp_flags s = mp_flags x" "3 \<le> d" "mem h d = Some x"
  shows "mp_inv h'" "mp_store h' = (mp_store h)(d \<mapsto> mpval s)"
proof -
  have "heap_ok h'" using assms sets_ok heap_ok_brk mp_invD(1) by blast
  then show "mp_inv h'" using assms mp_static_flags[OF assms(4)] by (auto simp: mp_inv_def sets_def)
  show "mp_store h' = (mp_store h)(d \<mapsto> mpval s)" using assms(2) by (auto simp: sets_def mp_store_def)
qed

section \<open>Operations that compute a function of the store\<close>

text \<open>
  An operation writes its result, a function of the operands' values, to a destination that may be one of
  the operands.
\<close>

locale mp_binary =
  fixes f :: "nat \<Rightarrow> nat \<Rightarrow> nat \<Rightarrow> mpheap \<Rightarrow> mpheap outcome" and g :: "int \<Rightarrow> int \<Rightarrow> int" and p :: "int \<Rightarrow> int \<Rightarrow> bool"
  assumes computes: "mp_inv h \<Longrightarrow> mem h b1 = Some x1 \<Longrightarrow> mem h b2 = Some x2 \<Longrightarrow> mem h d = Some s \<Longrightarrow> p (mpval x1) (mpval x2) \<Longrightarrow>
    \<exists>s' h'. f b1 b2 d h = Ok h' \<and> sets h d s' h' \<and> mp_can s' \<and> mpval s' = g (mpval x1) (mpval x2) \<and> mp_flags s' = mp_flags s"
begin

lemma refines:
  assumes "mp_inv h" "mp_store h b1 = Some v1" "mp_store h b2 = Some v2" "mp_store h d = Some u" "3 \<le> d" "p v1 v2"
  shows "\<exists>h'. f b1 b2 d h = Ok h' \<and> mp_inv h' \<and> mp_store h' = (mp_store h)(d \<mapsto> g v1 v2)"
proof -
  obtain x1 x2 s where x: "mem h b1 = Some x1" "mem h b2 = Some x2" "mem h d = Some s" "mpval x1 = v1" "mpval x2 = v2"
    using assms(2-4) by (auto simp: mp_store_Some)
  obtain s' h' where "f b1 b2 d h = Ok h'" "sets h d s' h'" "mp_can s'" "mpval s' = g v1 v2" "mp_flags s' = mp_flags s"
    using computes[OF assms(1) x(1-3)] assms(6) x(4,5) by auto
  then show ?thesis using mp_inv_sets[OF assms(1) _ _ _ assms(5) x(3)] by metis
qed

end

interpretation add: mp_binary mpadd "(+)" "\<lambda>_ _. True"
proof
  fix h b1 x1 b2 x2 d s
  assume a: "mp_inv h" "mem h b1 = Some x1" "mem h b2 = Some x2" "mem h d = Some s"
  obtain s' where "mpadd b1 b2 d h = Ok (put d s' h)" "mp_can s'" "mpval s' = mpval x1 + mpval x2" "mp_flags s' = mp_flags s"
    by (rule mpadd_spec[OF a(2-4) mp_inv_zero[OF a(1)] mp_invD(2)[OF a(1,2)] mp_invD(2)[OF a(1,3)] mp_inv_ok[OF a(1,4)]])
  then show "\<exists>s' h'. mpadd b1 b2 d h = Ok h' \<and> sets h d s' h' \<and> mp_can s' \<and> mpval s' = mpval x1 + mpval x2 \<and> mp_flags s' = mp_flags s"
    using sets_put by blast
qed

interpretation sub: mp_binary mpsub "(-)" "\<lambda>_ _. True"
proof
  fix h b1 x1 b2 x2 d s
  assume a: "mp_inv h" "mem h b1 = Some x1" "mem h b2 = Some x2" "mem h d = Some s"
  obtain s' where "mpsub b1 b2 d h = Ok (put d s' h)" "mp_can s'" "mpval s' = mpval x1 - mpval x2" "mp_flags s' = mp_flags s"
    by (rule mpsub_spec[OF a(2-4) mp_inv_zero[OF a(1)] mp_invD(2)[OF a(1,2)] mp_invD(2)[OF a(1,3)] mp_inv_ok[OF a(1,4)]])
  then show "\<exists>s' h'. mpsub b1 b2 d h = Ok h' \<and> sets h d s' h' \<and> mp_can s' \<and> mpval s' = mpval x1 - mpval x2 \<and> mp_flags s' = mp_flags s"
    using sets_put by blast
qed

interpretation mul: mp_binary mpmul "(*)" "\<lambda>_ _. True"
proof
  fix h b1 x1 b2 x2 d s
  assume a: "mp_inv h" "mem h b1 = Some x1" "mem h b2 = Some x2" "mem h d = Some s"
  obtain s' h' where "mpmul b1 b2 d h = Ok h'" "sets h d s' h'" "mp_can s'" "mpval s' = mpval x1 * mpval x2" "mp_flags s' = mp_flags s"
    by (rule mpmul_spec[OF mp_invD(1)[OF a(1)] a(2-4) mp_inv_ok[OF a(1,2)] mp_inv_ok[OF a(1,3)] mp_inv_ok[OF a(1,4)]])
  then show "\<exists>s' h'. mpmul b1 b2 d h = Ok h' \<and> sets h d s' h' \<and> mp_can s' \<and> mpval s' = mpval x1 * mpval x2 \<and> mp_flags s' = mp_flags s"
    by blast
qed

locale mp_unary =
  fixes f :: "nat \<Rightarrow> nat \<Rightarrow> mpheap \<Rightarrow> mpheap outcome" and g :: "int \<Rightarrow> int" and p :: "int \<Rightarrow> bool"
  assumes computes1: "mp_inv h \<Longrightarrow> mem h b = Some x \<Longrightarrow> mem h d = Some s \<Longrightarrow> p (mpval x) \<Longrightarrow>
    \<exists>s'. f b d h = Ok (put d s' h) \<and> mp_can s' \<and> mpval s' = g (mpval x) \<and> mp_flags s' = mp_flags s"

sublocale mp_unary \<subseteq> mp_binary "\<lambda>b1 b2. f b1" "\<lambda>v1 v2. g v1" "\<lambda>v1 v2. p v1"
proof
  fix h b1 x1 b2 x2 d s
  assume "mp_inv h" "mem h b1 = Some x1" "mem h b2 = Some x2" "mem h d = Some s" "p (mpval x1)"
  then show "\<exists>s' h'. f b1 d h = Ok h' \<and> sets h d s' h' \<and> mp_can s' \<and> mpval s' = g (mpval x1) \<and> mp_flags s' = mp_flags s"
    using computes1 sets_put by blast
qed

interpretation asg: mp_unary mpassign "\<lambda>v. v" "\<lambda>_. True"
proof
  fix h b x d s
  assume a: "mp_inv h" "mem h b = Some x" "mem h d = Some s"
  obtain z where "mpassign b d h = Ok (put d z h)" "mp_ok z" "mp_same x z" "mp_flags z = mp_flags s"
    by (rule mpassign_spec[OF a(2,3) mp_inv_ok[OF a(1,2)] mp_inv_ok[OF a(1,3)]])
  then show "\<exists>s'. mpassign b d h = Ok (put d s' h) \<and> mp_can s' \<and> mpval s' = mpval x \<and> mp_flags s' = mp_flags s"
    using mp_same_can(2) mp_same_val(2) mp_invD(2)[OF a(1,2)] by metis
qed

interpretation left: mp_unary "\<lambda>b. mpleft b (int k)" "\<lambda>v. v * 2 ^ k" "\<lambda>_. True" for k
proof
  fix h b x d s
  assume a: "mp_inv h" "mem h b = Some x" "mem h d = Some s"
  obtain s' where "mpleft b (int k) d h = Ok (put d s' h)" "mp_can s'" "mpval s' = mpval x * 2 ^ nat (int k)" "mp_flags s' = mp_flags s"
    by (rule mpleft_nonneg[OF a(2,3) mp_invD(2)[OF a(1,2)] mp_inv_ok[OF a(1,3)], of "int k"]) simp_all
  then show "\<exists>s'. mpleft b (int k) d h = Ok (put d s' h) \<and> mp_can s' \<and> mpval s' = mpval x * 2 ^ k \<and> mp_flags s' = mp_flags s" by (intro exI[of _ s']) simp
qed

interpretation right: mp_unary "\<lambda>b. mpright b (int k)" "\<lambda>v. v div 2 ^ k" "\<lambda>v. 0 \<le> v" for k
proof
  fix h b x d s
  assume a: "mp_inv h" "mem h b = Some x" "mem h d = Some s" and n: "0 \<le> mpval x"
  have c: "mp_can x" using mp_invD(2)[OF a(1,2)] .
  have sg: "mp_sign x = 1" using mp_can_sign[OF c] n by simp
  obtain s' where "mpright b (int k) d h = Ok (put d s' h)" "mp_can s'" "mpval s' = mp_sign x * int (mag x div 2 ^ nat (int k))" "mp_flags s' = mp_flags s"
    by (rule mpright_can[OF a(2,3) c mp_inv_ok[OF a(1,3)], of "int k"]) (use sg in simp_all)
  moreover have "int (mag x div 2 ^ k) = mpval x div 2 ^ k" using sg by (simp add: mpval_def zdiv_int)
  ultimately show "\<exists>s'. mpright b (int k) d h = Ok (put d s' h) \<and> mp_can s' \<and> mpval s' = mpval x div 2 ^ k \<and> mp_flags s' = mp_flags s"
    using sg by (intro exI[of _ s']) simp
qed

section \<open>Programs\<close>

text \<open>
  A straight-line client of the library: the operations in the order in which it calls them, and what they
  are to compute on a store of integers. The store says which objects are live; the constants are read only,
  and only numbers that are not negative are shifted right.
\<close>

datatype mp_cmd =
    Assign nat nat
  | Add nat nat nat
  | Sub nat nat nat
  | Mul nat nat nat
  | Left nat nat nat
  | Right nat nat nat

primrec exec_cmd :: "mp_cmd \<Rightarrow> mpheap \<Rightarrow> mpheap outcome" where
  "exec_cmd (Assign b d) h = mpassign b d h"
| "exec_cmd (Add b1 b2 d) h = mpadd b1 b2 d h"
| "exec_cmd (Sub b1 b2 d) h = mpsub b1 b2 d h"
| "exec_cmd (Mul b1 b2 d) h = mpmul b1 b2 d h"
| "exec_cmd (Left b k d) h = mpleft b (int k) d h"
| "exec_cmd (Right b k d) h = mpright b (int k) d h"

fun exec_cmds :: "mp_cmd list \<Rightarrow> mpheap \<Rightarrow> mpheap outcome" where
  "exec_cmds [] h = Ok h"
| "exec_cmds (c # cs) h = andthen (exec_cmd c h) (exec_cmds cs)"

definition writes :: "nat \<Rightarrow> int \<Rightarrow> (nat \<Rightarrow> int option) \<Rightarrow> (nat \<Rightarrow> int option) option" where
  "writes d v m = (if 3 \<le> d \<and> m d \<noteq> None then Some (m(d \<mapsto> v)) else None)"

primrec spec_cmd :: "mp_cmd \<Rightarrow> (nat \<Rightarrow> int option) \<Rightarrow> (nat \<Rightarrow> int option) option" where
  "spec_cmd (Assign b d) m = do { v \<leftarrow> m b; writes d v m }"
| "spec_cmd (Add b1 b2 d) m = do { v1 \<leftarrow> m b1; v2 \<leftarrow> m b2; writes d (v1 + v2) m }"
| "spec_cmd (Sub b1 b2 d) m = do { v1 \<leftarrow> m b1; v2 \<leftarrow> m b2; writes d (v1 - v2) m }"
| "spec_cmd (Mul b1 b2 d) m = do { v1 \<leftarrow> m b1; v2 \<leftarrow> m b2; writes d (v1 * v2) m }"
| "spec_cmd (Left b k d) m = do { v \<leftarrow> m b; writes d (v * 2 ^ k) m }"
| "spec_cmd (Right b k d) m = do { v \<leftarrow> m b; if 0 \<le> v then writes d (v div 2 ^ k) m else None }"

fun spec_cmds :: "mp_cmd list \<Rightarrow> (nat \<Rightarrow> int option) \<Rightarrow> (nat \<Rightarrow> int option) option" where
  "spec_cmds [] m = Some m"
| "spec_cmds (c # cs) m = do { m \<leftarrow> spec_cmd c m; spec_cmds cs m }"

lemma writes_Some: "writes d v m = Some m' \<longleftrightarrow> 3 \<le> d \<and> (\<exists>u. m d = Some u) \<and> m' = m(d \<mapsto> v)"
  by (auto simp: writes_def)

lemmas mp_refines = add.refines sub.refines mul.refines asg.refines left.refines right.refines

lemma exec_cmd_refines:
  assumes "mp_inv h" "spec_cmd c (mp_store h) = Some m"
  shows "\<exists>h'. exec_cmd c h = Ok h' \<and> mp_inv h' \<and> mp_store h' = m"
  using assms mp_refines[OF assms(1)]
  by (cases c) (auto simp: writes_Some bind_eq_Some_conv split: if_splits)

lemma exec_cmds_refines:
  "mp_inv h \<Longrightarrow> spec_cmds cs (mp_store h) = Some m \<Longrightarrow> \<exists>h'. exec_cmds cs h = Ok h' \<and> mp_inv h' \<and> mp_store h' = m"
proof (induction cs arbitrary: h)
  case (Cons c cs)
  obtain m1 where m1: "spec_cmd c (mp_store h) = Some m1" "spec_cmds cs m1 = Some m"
    using Cons.prems(2) by (auto simp: bind_eq_Some_conv)
  obtain h1 where "exec_cmd c h = Ok h1" "mp_inv h1" "mp_store h1 = m1"
    using exec_cmd_refines[OF Cons.prems(1) m1(1)] by blast
  then show ?case using Cons.IH m1(2) by auto
qed auto

section \<open>Objects created and released\<close>

lemma mp_inv_alloc:
  assumes "mp_inv h" "mp_can x" "mp_flags x = 0"
  shows "mp_inv (alloc x h)" "mp_store (alloc x h) = (mp_store h)(brk h \<mapsto> mpval x)" "mp_store h (brk h) = None" "3 \<le> brk h"
proof -
  have "3 \<le> brk h" "mem h (brk h) = None" using mp_invD(1)[OF assms(1)] by (simp_all add: heap_ok_def)
  then show "mp_inv (alloc x h)" "mp_store (alloc x h) = (mp_store h)(brk h \<mapsto> mpval x)" "mp_store h (brk h) = None" "3 \<le> brk h"
    using assms heap_ok_alloc by (auto simp: mp_inv_def mp_store_def mp_static_def)
qed

lemma mp_inv_release: "mp_inv h \<Longrightarrow> 3 \<le> b \<Longrightarrow> mp_inv (release b h) \<and> mp_store (release b h) = (mp_store h)(b := None)"
  using heap_ok_release by (auto simp: mp_inv_def mp_store_def)

section \<open>Properties\<close>

text \<open>A memory with one number of its own, for the examples.\<close>

definition one_number :: "int \<Rightarrow> mpdigit \<Rightarrow> mpheap" where
  "one_number sg x = alloc \<lparr>mp_sign = sg, mp_size = 2, mp_top = (if x = 0 then 0 else 1), mp_p = [x, 0], mp_flags = 0\<rparr> mpinit"

lemma one_number:
  assumes "sg = 1 \<or> sg = - 1 \<and> x \<noteq> 0"
  shows "mp_inv (one_number sg x)" "mp_store (one_number sg x) 3 = Some (sg * int (unat x))"
    "mp_store (one_number sg x) mpone = Some 1" "mp_store (one_number sg x) mptwo = Some 2" "brk (one_number sg x) = 4"
proof -
  let ?x = "\<lparr>mp_sign = sg, mp_size = 2, mp_top = (if x = 0 then 0 else 1), mp_p = [x, 0], mp_flags = 0\<rparr>"
  have "mp_can ?x" using assms by (auto simp: mp_can_def mp_norm_def mp_ok_def)
  then have "mp_inv (alloc ?x mpinit)" by (intro mp_inv_alloc mp_inv_init) simp_all
  moreover have "mpval ?x = sg * int (unat x)" by (simp add: mpval_def mag_def)
  ultimately show "mp_inv (one_number sg x)" "mp_store (one_number sg x) 3 = Some (sg * int (unat x))"
    "mp_store (one_number sg x) mpone = Some 1" "mp_store (one_number sg x) mptwo = Some 2" "brk (one_number sg x) = 4"
    by (simp_all add: one_number_def mp_store_def mpinit_def mpzero_def mpone_def mptwo_def)
qed



text \<open>
  C31: \<^verbatim>\<open>mpnew\<close> and \<^verbatim>\<open>mpcopy\<close> return an object that was not live before, worth zero and the value copied, and keep
  the invariant of the memory and every other object; \<^verbatim>\<open>mpfree\<close> removes the object it is given and nothing
  else, and refuses the constants.
\<close>

theorem mp_lifecycle:
  assumes "mp_inv h" "mem h b = Some y"
  shows "(\<exists>h'. mpnew (int n) h = Ok (brk h, h') \<and> mp_inv h' \<and> mp_store h' = (mp_store h)(brk h \<mapsto> 0)) \<and>
    (\<exists>h'. mpcopy b h = Ok (brk h, h') \<and> mp_inv h' \<and> mp_store h' = (mp_store h)(brk h \<mapsto> mpval y)) \<and>
    mp_store h (brk h) = None \<and>
    (if b < 3 then mpfree (Some b) h = Abort ''freeing mp constant''
     else \<exists>h'. mpfree (Some b) h = Ok h' \<and> mp_inv h' \<and> mp_store h' = (mp_store h)(b := None))"
proof -
  have y: "mp_can y" "mp_ok y" "mp_static y \<longleftrightarrow> b < 3" using assms mp_inv_ok by (auto simp: mp_inv_def)
  obtain x where x: "mpnew (int n) h = Ok (brk h, alloc x h)" "mp_zeroed x" by (rule mpnew_spec[OF mp_invD(1)[OF assms(1)]])
  then have "mp_can x" "mp_flags x = 0" "mpval x = 0" by (auto simp: mp_zeroed_def mpval_def mag_def)
  note 1 = mp_inv_alloc[OF assms(1) this(1,2)] this(3)
  obtain z where z: "mpcopy b h = Ok (brk h, alloc z h)" "mp_ok z" "mp_same y z" "mp_flags z = 0"
    by (rule mpcopy_spec[OF mp_invD(1)[OF assms(1)] assms(2) y(2)])
  note 2 = mp_inv_alloc[OF assms(1) mp_same_can(2)[OF z(3,2) y(1)] z(4)] mp_same_val(2)[OF z(3)]
  show ?thesis
    using x(1) 1 z(1) 2 mpfree_eq[OF assms(2) y(2)] y(3) mp_inv_release[OF assms(1), of b]
    by (simp add: mp_static_def)
qed

theorem mp_lifecycle_witness:
  "mp_store (one_number 1 5) 4 = None \<and> mpfree (Some 1) mpinit = Abort ''freeing mp constant'' \<and>
    (\<exists>h'. mpfree (Some 3) (one_number 1 5) = Ok h' \<and> mp_inv h' \<and> mp_store h' 3 = None)"
proof -
  obtain y where "mem (one_number 1 5) 3 = Some y" by (simp add: one_number_def mpinit_def)
  from mp_lifecycle[OF one_number(1) this, where n = 0] have "mp_store (one_number 1 5) 4 = None"
    "\<exists>h'. mpfree (Some 3) (one_number 1 5) = Ok h' \<and> mp_inv h' \<and> mp_store h' 3 = None"
    by (auto simp: one_number(5))
  moreover have "mpfree (Some 1) mpinit = Abort ''freeing mp constant''"
    using mp_lifecycle[OF mp_inv_init, of 1 mpone_obj 0] by (simp add: mpinit_def mpzero_def mpone_def mptwo_def)
  ultimately show ?thesis by blast
qed



text \<open>
  C33: shifting a negative number right by its whole digits or more leaves no digits and the sign \<open>- 1\<close>, a zero
  that \<^verbatim>\<open>mpcmp\<close> takes to be below \<^verbatim>\<open>mpzero\<close>.
\<close>

theorem mpright_negative_zero:
  assumes "mp_inv h" "mem h b = Some x" "mem h d = Some s" "3 \<le> d" "mp_sign x = - 1" "mp_top x \<le> k div Dbits"
  shows "\<exists>s'. mpright b (int k) d h = Ok (put d s' h) \<and> mp_sign s' = - 1 \<and> mpval s' = 0 \<and> \<not> mp_can s' \<and>
    mpcmp d mpzero (put d s' h) = Ok (- 2)"
proof -
  obtain s' where s: "mpright b (int k) d h = Ok (put d s' h)" "mp_norm s'" "mag s' = mag x div 2 ^ nat (int k)"
    "mp_sign s' = (if mp_top s' = 0 \<and> nat (int k) div Dbits < mp_top x then 1 else mp_sign x)"
    by (rule mpright_nonneg[OF assms(2,3) mp_invD(2)[OF assms(1,2)] mp_inv_ok[OF assms(1,3)], of "int k"]) simp_all
  have z: "mag s' = 0" using s(3) mag_shifted_out[OF mp_inv_ok[OF assms(1,2)] assms(6)] by simp
  have "mp_top s' = 0" using z mag_0_iff[OF s(2)] by simp
  moreover have sg: "mp_sign s' = - 1" using s(4) assms(5,6) by simp
  moreover have "mpcmp d mpzero (put d s' h) = Ok (- 2)"
    using sg mp_inv_zero[OF assms(1)] assms(4) by (simp add: mpcmp_def mpzero_def mpzero_obj_def)
  ultimately show ?thesis using s(1) z by (intro exI[of _ s']) (simp add: mp_can_def mpval_def)
qed

theorem mpright_negative_zero_witness:
  "\<exists>s'. mpright 3 32 3 (one_number (- 1) 6) = Ok (put 3 s' (one_number (- 1) 6)) \<and> mpval s' = 0 \<and>
    mpcmp 3 mpzero (put 3 s' (one_number (- 1) 6)) = Ok (- 2)"
proof -
  let ?x = "\<lparr>mp_sign = - 1, mp_size = 2, mp_top = 1, mp_p = [6, 0], mp_flags = 0\<rparr>"
  have "mem (one_number (- 1) 6) 3 = Some ?x" by (simp add: one_number_def mpinit_def)
  from mpright_negative_zero[OF one_number(1) this this, of 32] show ?thesis by (auto simp: Dbits_def)
qed

end
