(* ===== verification/FileTree.thy ===== *)
theory FileTree
  imports DirStat Outcome
begin

text \<open>
  The file trees of lib9p, src/lib9p/file.c, and the permission check of src/lib9p/uid.c. Files are objects
  in memory with reference counts: an address is an index, and an object that went back to the free list is
  \<open>None\<close>. The locks are not part of the model: an operation runs as one step. A \<^verbatim>\<open>char*\<close> argument is the string
  it points to.
\<close>

section \<open>Constants\<close>

definition QTDIR :: byte where "QTDIR = 0x80"
definition QTAPPEND :: byte where "QTAPPEND = 0x40"
definition QTEXCL :: byte where "QTEXCL = 0x20"
definition DMDIR :: u64 where "DMDIR = 0x80000000"
definition DMAPPEND :: u64 where "DMAPPEND = 0x40000000"
definition DMEXCL :: u64 where "DMEXCL = 0x20000000"

section \<open>Strings\<close>

text \<open>
  The string a \<^verbatim>\<open>char*\<close> field points to, which may be in the buffer \<open>b\<close> of a message, and the copy \<^verbatim>\<open>estrdup9p\<close>
  makes of a string.
\<close>

definition cstr_at :: "byte list \<Rightarrow> cptr \<Rightarrow> byte list outcome" where
  "cstr_at b s = andthen (access (deref b s)) (\<lambda>t. andthen (access (strlen t)) (\<lambda>n. Ok (take n t)))"

definition cstr :: "cptr \<Rightarrow> byte list outcome" where
  "cstr s = cstr_at [] s"

definition estrdup9p :: "byte list \<Rightarrow> cptr" where
  "estrdup9p t = Str (t @ [0])"

section \<open>Files\<close>

text \<open>
  \<^verbatim>\<open>filelist\<close> is the chain of \<^verbatim>\<open>Filelist\<close> nodes, of which those with a nil \<^verbatim>\<open>f\<close> are free. \<^verbatim>\<open>aux\<close> belongs to the
  program that owns the tree.
\<close>

record File =
  fl_ref :: int
  fl_dir :: Dir
  fl_parent :: "nat option"
  fl_filelist :: "nat option list"
  fl_nchild :: int

text \<open>\<open>t_destroyed\<close> records the calls of the function \<^verbatim>\<open>destroy\<close> of the tree.\<close>

record Tree =
  t_files :: "File option list"
  t_root :: nat
  t_qidgen :: u64
  t_dirqidgen :: u64
  t_destroyed :: "nat list"

definition get_file :: "nat \<Rightarrow> Tree \<Rightarrow> File outcome" where
  "get_file a t = (case rd (t_files t) a of Some (Some f) \<Rightarrow> Ok f | _ \<Rightarrow> Undef)"

definition put_file :: "nat \<Rightarrow> File option \<Rightarrow> Tree \<Rightarrow> Tree" where
  "put_file a f t = t\<lparr>t_files := (t_files t)[a := f]\<rparr>"

definition modify_file :: "nat \<Rightarrow> (File \<Rightarrow> File) \<Rightarrow> Tree \<Rightarrow> Tree outcome" where
  "modify_file a g t = andthen (get_file a t) (\<lambda>f. Ok (put_file a (Some (g f)) t))"

definition zero_dir :: Dir where
  "zero_dir = \<lparr>type = 0, dev = 0, qid = \<lparr>path = 0, vers = 0, qtype = 0\<rparr>, mode = 0, atime = 0, mtime = 0, len = 0,
     name = Nil, uid = Nil, gid = Nil, muid = Nil, uidnum = 0, gidnum = 0, muidnum = 0, ext = Nil\<rparr>"

definition allocfile :: "Tree \<Rightarrow> nat \<times> Tree" where
  "allocfile t = (length (t_files t), t\<lparr>t_files := t_files t @
     [Some \<lparr>fl_ref = 0, fl_dir = zero_dir, fl_parent = None, fl_filelist = [], fl_nchild = 0\<rparr>]\<rparr>)"

definition freefile :: "nat \<Rightarrow> Tree \<Rightarrow> Tree outcome" where
  "freefile a t =
    andthen (get_file a t) (\<lambda>f.
    if \<not> list_all (\<lambda>x. x = None) (fl_filelist f) then Abort ''assert(fl->f == nil)''
    else if fl_ref f \<noteq> 0 then Abort ''assert(f->ref.ref == 0)''
    else Ok (put_file a None t))"

definition incfile :: "nat \<Rightarrow> Tree \<Rightarrow> Tree outcome" where
  "incfile a t = modify_file a (\<lambda>f. f\<lparr>fl_ref := fl_ref f + 1\<rparr>) t"

definition closefile :: "nat \<Rightarrow> Tree \<Rightarrow> Tree outcome" where
  "closefile a t =
    andthen (modify_file a (\<lambda>f. f\<lparr>fl_ref := fl_ref f - 1\<rparr>) t) (\<lambda>t.
    andthen (get_file a t) (\<lambda>f.
    if fl_ref f = 0 then freefile a (t\<lparr>t_destroyed := t_destroyed t @ [a]\<rparr>) else Ok t))"

section \<open>Removing and creating\<close>

text \<open>
  The error string is \<open>None\<close> when \<^verbatim>\<open>removefile\<close> returns 0. The parent cannot change between the two reads of it,
  so the error for that race does not arise.
\<close>

definition removefile :: "nat \<Rightarrow> Tree \<Rightarrow> (string option \<times> Tree) outcome" where
  "removefile a t =
    andthen (get_file a t) (\<lambda>f.
    case fl_parent f of
      None \<Rightarrow> andthen (closefile a t) (\<lambda>t. Ok (Some ''no parent'', t))
    | Some fp \<Rightarrow>
        if fp = a then andthen (closefile a t) (\<lambda>t. Ok (Some ''cannot remove root'', t))
        else if fl_nchild f \<noteq> 0 then andthen (closefile a t) (\<lambda>t. Ok (Some ''has children'', t))
        else
          andthen (get_file fp t) (\<lambda>p.
          if Some a \<notin> set (fl_filelist p) then Abort ''assert(fl != nil && fl->f == f)''
          else
            let i = length (takeWhile (\<lambda>x. x \<noteq> Some a) (fl_filelist p));
                t = put_file fp (Some (p\<lparr>fl_filelist := (fl_filelist p)[i := None], fl_nchild := fl_nchild p - 1\<rparr>)) t
            in
              andthen (modify_file a (\<lambda>f. f\<lparr>fl_parent := None\<rparr>) t) (\<lambda>t.
              andthen (closefile fp t) (\<lambda>t.
              andthen (closefile a t) (\<lambda>t.
              andthen (closefile a t) (\<lambda>t. Ok (None, t)))))))"

text \<open>
  The loop of \<^verbatim>\<open>createfile\<close> over the chain: whether a file has that name, and the last free node, if there
  is one.
\<close>

fun create_scan :: "nat option list \<Rightarrow> nat \<Rightarrow> nat option \<Rightarrow> byte list \<Rightarrow> Tree \<Rightarrow> (bool \<times> nat option) outcome" where
  "create_scan [] i freel nm t = Ok (False, freel)"
| "create_scan (None # l) i freel nm t = create_scan l (i + 1) (Some i) nm t"
| "create_scan (Some c # l) i freel nm t =
    andthen (get_file c t) (\<lambda>f.
    andthen (cstr (name (fl_dir f))) (\<lambda>n.
    if n = nm then Ok (True, freel) else create_scan l (i + 1) freel nm t))"

text \<open>\<^verbatim>\<open>time(0)\<close> is the argument \<open>now\<close>; the result is nil with an error string, or the new file.\<close>

definition createfile :: "u64 \<Rightarrow> nat \<Rightarrow> byte list \<Rightarrow> byte list option \<Rightarrow> u64 \<Rightarrow> Tree \<Rightarrow> ((string + nat) \<times> Tree) outcome" where
  "createfile now fp nm u pm t =
    andthen (get_file fp t) (\<lambda>p.
    if qtype (qid (fl_dir p)) AND QTDIR = 0 then Ok (Inl ''create in non-directory'', t)
    else
      andthen (create_scan (fl_filelist p) 0 None nm t) (\<lambda>(dup, freel).
      if dup then Ok (Inl ''file already exists'', t)
      else
        let (node, chain) = (case freel of None \<Rightarrow> (0, None # fl_filelist p) | Some i \<Rightarrow> (i, fl_filelist p)) in
        case allocfile t of (a, t) \<Rightarrow>
        andthen (case u of Some u \<Rightarrow> Ok u | None \<Rightarrow> cstr (uid (fl_dir p))) (\<lambda>own.
        andthen (cstr (gid (fl_dir p))) (\<lambda>grp.
        let d = zero_dir\<lparr>name := estrdup9p nm, uid := estrdup9p own, gid := estrdup9p grp,
                  muid := estrdup9p (case u of Some u \<Rightarrow> u | None \<Rightarrow> [117, 110, 107, 110, 111, 119, 110]), mode := pm,
                  qid := \<lparr>path = t_qidgen t, vers = 0, qtype =
                    (if pm AND DMDIR \<noteq> 0 then QTDIR else 0) OR (if pm AND DMAPPEND \<noteq> 0 then QTAPPEND else 0) OR
                    (if pm AND DMEXCL \<noteq> 0 then QTEXCL else 0)\<rparr>,
                  atime := now, mtime := now, len := 0\<rparr>;
            t = t\<lparr>t_qidgen := t_qidgen t + 1\<rparr>;
            t = put_file a (Some \<lparr>fl_ref = 2, fl_dir = d, fl_parent = Some fp, fl_filelist = [], fl_nchild = 0\<rparr>) t;
            t = put_file fp (Some (p\<lparr>fl_ref := fl_ref p + 1, fl_filelist := chain[node := Some a], fl_nchild := fl_nchild p + 1\<rparr>)) t
        in Ok (Inr a, t)))))"

section \<open>Walking\<close>

fun find_name :: "nat option list \<Rightarrow> byte list \<Rightarrow> Tree \<Rightarrow> nat option outcome" where
  "find_name [] nm t = Ok None"
| "find_name (None # l) nm t = find_name l nm t"
| "find_name (Some c # l) nm t =
    andthen (get_file c t) (\<lambda>f.
    andthen (cstr (name (fl_dir f))) (\<lambda>n.
    if n = nm then Ok (Some c) else find_name l nm t))"

definition walkfile1 :: "nat \<Rightarrow> byte list \<Rightarrow> Tree \<Rightarrow> (nat option \<times> Tree) outcome" where
  "walkfile1 a elem t =
    andthen (get_file a t) (\<lambda>f.
    if elem = [46, 46] then
      (case fl_parent f of
         None \<Rightarrow> Undef
       | Some fp \<Rightarrow> andthen (incfile fp t) (\<lambda>t. andthen (closefile a t) (\<lambda>t. Ok (Some fp, t))))
    else
      andthen (find_name (fl_filelist f) elem t) (\<lambda>r.
      case r of
        None \<Rightarrow> andthen (closefile a t) (\<lambda>t. Ok (None, t))
      | Some c \<Rightarrow> andthen (incfile c t) (\<lambda>t. andthen (closefile a t) (\<lambda>t. Ok (Some c, t)))))"

text \<open>The loop of \<^verbatim>\<open>walkfile\<close> over the elements between slashes.\<close>

function walk_path :: "nat \<Rightarrow> byte list \<Rightarrow> Tree \<Rightarrow> (nat option \<times> Tree) outcome" where
  "walk_path a s t =
    (if s = [] then Ok (Some a, t)
     else
       andthen (walkfile1 a (takeWhile (\<lambda>c. c \<noteq> 47) s) t) (\<lambda>(r, t).
       case r of None \<Rightarrow> Ok (None, t)
       | Some b \<Rightarrow> walk_path b (drop (Suc (length (takeWhile (\<lambda>c. c \<noteq> 47) s))) s) t))"
  by pat_completeness auto
termination
  by (relation "measure (\<lambda>(a, s, t). length s)") auto

declare walk_path.simps [simp del]

definition walkfile :: "nat \<Rightarrow> byte list \<Rightarrow> Tree \<Rightarrow> (nat option \<times> Tree) outcome" where
  "walkfile a s t = (if 47 \<notin> set s then walkfile1 a s t else walk_path a s t)"

section \<open>Whole trees\<close>

definition mkqid :: "u64 \<Rightarrow> u64 \<Rightarrow> byte \<Rightarrow> Qid" where
  "mkqid p v q = \<lparr>path = p, vers = v, qtype = q\<rparr>"

text \<open>\<^verbatim>\<open>getuser()\<close> is the argument \<open>user\<close>.\<close>

definition alloctree :: "byte list option \<Rightarrow> u64 \<Rightarrow> byte list option \<Rightarrow> byte list option \<Rightarrow> u64 \<Rightarrow> Tree" where
  "alloctree user now u g md =
    (let u = (case u of Some u \<Rightarrow> u | None \<Rightarrow> (case user of Some u \<Rightarrow> u | None \<Rightarrow> [110, 111, 110, 101]));
         g = (case g of Some g \<Rightarrow> g | None \<Rightarrow> u);
         d = zero_dir\<lparr>name := estrdup9p [47], qid := mkqid 0 0 QTDIR, len := 0, atime := now, mtime := now,
               mode := DMDIR OR md, uid := estrdup9p u, gid := estrdup9p g, muid := estrdup9p u\<rparr>
     in \<lparr>t_files = [Some \<lparr>fl_ref = 1, fl_dir = d, fl_parent = Some 0, fl_filelist = [], fl_nchild = 0\<rparr>],
          t_root = 0, t_qidgen = 0, t_dirqidgen = 1, t_destroyed = []\<rparr>)"

text \<open>
  \<^verbatim>\<open>_freefiles\<close> frees the nodes of the chain and then calls \<^verbatim>\<open>freefile\<close>, which follows the chain again: a chain
  with a node is read after it was freed. A free node is a nil pointer to the recursive call. \<open>n\<close> bounds the
  depth of the recursion.
\<close>

fun freefiles :: "nat \<Rightarrow> nat \<Rightarrow> Tree \<Rightarrow> Tree outcome"
  and freefiles_list :: "nat \<Rightarrow> nat option list \<Rightarrow> Tree \<Rightarrow> Tree outcome" where
  "freefiles 0 a t = Undef"
| "freefiles (Suc n) a t =
    andthen (get_file a t) (\<lambda>f.
    andthen (freefiles_list n (fl_filelist f) t) (\<lambda>t.
    let t = t\<lparr>t_destroyed := t_destroyed t @ [a]\<rparr> in
    if fl_filelist f \<noteq> [] then Undef else freefile a t))"
| "freefiles_list n [] t = Ok t"
| "freefiles_list n (None # l) t = Undef"
| "freefiles_list n (Some c # l) t = andthen (freefiles n c t) (\<lambda>t. freefiles_list n l t)"

definition freetree :: "Tree \<Rightarrow> Tree outcome" where
  "freetree t = freefiles (Suc (length (t_files t))) (t_root t) t"

section \<open>Reading directories\<close>

text \<open>
  A \<^verbatim>\<open>Readdir\<close> points to a node of the chain of a directory. New nodes go to the front of the chain, so the
  number of nodes from there to its end identifies the node.
\<close>

definition opendirfile :: "nat \<Rightarrow> Tree \<Rightarrow> (nat \<times> nat) option outcome" where
  "opendirfile a t = andthen (get_file a t) (\<lambda>f.
     if mode (fl_dir f) AND DMDIR = 0 then Ok None else Ok (Some (a, length (fl_filelist f))))"

text \<open>The loop of \<^verbatim>\<open>readdirfile\<close> on the nodes that are left: how many of them remain, and the bytes written.\<close>

fun readdir_loop :: "nat option list \<Rightarrow> byte list \<Rightarrow> nat \<Rightarrow> nat \<Rightarrow> Tree \<Rightarrow> (nat \<times> byte list \<times> nat) outcome" where
  "readdir_loop [] b m n t = Ok (0, b, m)"
| "readdir_loop (e # l) b m n t =
    (if m + 2 \<le> n then
       (case e of
          None \<Rightarrow> readdir_loop l b m n t
        | Some c \<Rightarrow>
            andthen (get_file c t) (\<lambda>f.
            andthen (access (convD2M [] (fl_dir f) (drop m b) (n - m))) (\<lambda>(b', x).
            let b = take m b @ b' in
            if x \<le> BIT16SZ then Ok (Suc (length l), b, m) else readdir_loop l b (m + x) n t)))
     else Ok (Suc (length l), b, m))"

definition readdirfile :: "nat \<times> nat \<Rightarrow> byte list \<Rightarrow> nat \<Rightarrow> Tree \<Rightarrow> ((nat \<times> nat) \<times> byte list \<times> nat) outcome" where
  "readdirfile r b n t =
    andthen (get_file (fst r) t) (\<lambda>f.
    andthen (readdir_loop (drop (length (fl_filelist f) - snd r) (fl_filelist f)) b 0 n t) (\<lambda>(k, b, m).
    Ok ((fst r, k), b, m)))"

section \<open>Permissions\<close>

definition perm_bits :: "u64 \<Rightarrow> nat \<Rightarrow> u32" where
  "perm_bits m k = ucast (drop_bit k m) AND 7"

definition hasperm :: "File \<Rightarrow> cptr \<Rightarrow> u32 \<Rightarrow> bool outcome" where
  "hasperm f u p =
    (let m = perm_bits (mode (fl_dir f)) 0 in
     if p AND m = p then Ok True
     else
       andthen (cstr (uid (fl_dir f))) (\<lambda>own.
       andthen (cstr u) (\<lambda>u.
       let m = (if own = u then m OR perm_bits (mode (fl_dir f)) 6 else m) in
       if own = u \<and> p AND m = p then Ok True
       else
         andthen (cstr (gid (fl_dir f))) (\<lambda>grp.
         let m = (if grp = u then m OR perm_bits (mode (fl_dir f)) 3 else m) in
         Ok (grp = u \<and> p AND m = p)))))"

end
