(* ===== verification/Intmap.thy ===== *)
theory Intmap
  imports Outcome
begin

text \<open>
  The map from \<^verbatim>\<open>ulong\<close>s to pointers of src/lib9p/intmap.c, a hash table of \<^verbatim>\<open>NHASH\<close> chains. Each operation runs
  under the lock of the map and is one step here. The interface \<open>int_map\<close> states what the pools of fids and
  requests rely on; the hash table satisfies it.
\<close>

section \<open>The table\<close>

definition NHASH :: nat where "NHASH = 128"

text \<open>A chain of \<^verbatim>\<open>Intlist\<close> nodes, each with its \<^verbatim>\<open>id\<close> and \<^verbatim>\<open>aux\<close>, in the order of the links.\<close>

type_synonym 'v Intlist = "(u64 \<times> 'v) list"

record 'v Intmap =
  im_hash :: "'v Intlist list"

definition hashid :: "u64 \<Rightarrow> nat" where
  "hashid k = unat (k mod of_nat NHASH)"

definition allocmap :: "'v Intmap" where
  "allocmap = \<lparr>im_hash = replicate NHASH []\<rparr>"

text \<open>\<^verbatim>\<open>freemap\<close> hands the values to \<^verbatim>\<open>destroy\<close> in this order.\<close>

definition freemap :: "'v Intmap \<Rightarrow> 'v list" where
  "freemap m = concat (map (map snd) (im_hash m))"

text \<open>
  The link \<^verbatim>\<open>llookup\<close> stops at: the chain and the position of the node with that \<^verbatim>\<open>id\<close>, or the end of the
  chain.
\<close>

fun chain_find :: "u64 \<Rightarrow> 'v Intlist \<Rightarrow> nat" where
  "chain_find k [] = 0"
| "chain_find k ((i, v) # l) = (if i = k then 0 else Suc (chain_find k l))"

definition llookup :: "'v Intmap \<Rightarrow> u64 \<Rightarrow> nat \<times> nat" where
  "llookup m k = (let h = hashid k in (h, chain_find k (im_hash m ! h)))"

text \<open>\<^verbatim>\<open>inc\<close> is the function \<^verbatim>\<open>allocmap\<close> was given; it acts on the objects the values point to.\<close>

definition lookupkey :: "('v \<Rightarrow> 's \<Rightarrow> 's outcome) \<Rightarrow> 'v Intmap \<Rightarrow> u64 \<Rightarrow> 's \<Rightarrow> ('v option \<times> 's) outcome" where
  "lookupkey inc m k s =
    (let (h, i) = llookup m k; c = im_hash m ! h in
     if i < length c then let v = snd (c ! i) in andthen (inc v s) (\<lambda>s. Ok (Some v, s))
     else Ok (None, s))"

definition insertkey :: "'v Intmap \<Rightarrow> u64 \<Rightarrow> 'v \<Rightarrow> 'v option \<times> 'v Intmap" where
  "insertkey m k v =
    (let (h, i) = llookup m k; c = im_hash m ! h in
     if i < length c then (Some (snd (c ! i)), m\<lparr>im_hash := (im_hash m)[h := c[i := (fst (c ! i), v)]]\<rparr>)
     else (None, m\<lparr>im_hash := (im_hash m)[h := (k, v) # c]\<rparr>))"

definition caninsertkey :: "'v Intmap \<Rightarrow> u64 \<Rightarrow> 'v \<Rightarrow> bool \<times> 'v Intmap" where
  "caninsertkey m k v =
    (let (h, i) = llookup m k; c = im_hash m ! h in
     if i < length c then (False, m)
     else (True, m\<lparr>im_hash := (im_hash m)[h := (k, v) # c]\<rparr>))"

definition deletekey :: "'v Intmap \<Rightarrow> u64 \<Rightarrow> 'v option \<times> 'v Intmap" where
  "deletekey m k =
    (let (h, i) = llookup m k; c = im_hash m ! h in
     if i < length c then (Some (snd (c ! i)), m\<lparr>im_hash := (im_hash m)[h := take i c @ drop (i + 1) c]\<rparr>)
     else (None, m))"

section \<open>The map it stands for\<close>

definition imap :: "'v Intmap \<Rightarrow> u64 \<Rightarrow> 'v option" where
  "imap m k = map_of (im_hash m ! hashid k) k"

text \<open>Every node is in the chain of its \<^verbatim>\<open>id\<close>, and no two nodes of a chain have the same \<^verbatim>\<open>id\<close>.\<close>

definition imap_ok :: "'v Intmap \<Rightarrow> bool" where
  "imap_ok m \<longleftrightarrow> length (im_hash m) = NHASH \<and>
     (\<forall>h < NHASH. distinct (map fst (im_hash m ! h)) \<and> (\<forall>k \<in> fst ` set (im_hash m ! h). hashid k = h))"

lemma hashid_less [simp]: "hashid k < NHASH"
  by (simp add: hashid_def NHASH_def unat_mod)

lemma chain_find_map_of:
  "map_of c k = (if chain_find k c < length c then Some (snd (c ! chain_find k c)) else None)"
  by (induction k c rule: chain_find.induct) auto

lemma chain_find_fst: "chain_find k c < length c \<Longrightarrow> fst (c ! chain_find k c) = k"
  by (induction k c rule: chain_find.induct) auto

lemma chain_update: "chain_find k c < length c \<Longrightarrow> map_of (c[chain_find k c := (k, v)]) = (map_of c)(k \<mapsto> v)"
  by (induction k c rule: chain_find.induct) auto

lemma chain_delete:
  assumes "distinct (map fst c)" "chain_find k c < length c"
  shows "map_of (take (chain_find k c) c @ drop (Suc (chain_find k c)) c) = (map_of c)(k := None)"
  using assms
proof (induction k c rule: chain_find.induct)
  case (2 k i v l)
  show ?case
  proof (cases "i = k")
    case True
    then have "map_of l k = None" using "2.prems"(1) by (simp add: map_of_eq_None_iff)
    then show ?thesis using True by auto
  next
    case False
    then show ?thesis using 2 by auto
  qed
qed simp

lemma chain_delete_sub: "set (take j c @ drop (Suc j) c) \<subseteq> set c" "distinct (map fst c) \<Longrightarrow> distinct (map fst (take j c @ drop (Suc j) c))"
  by (auto dest: in_set_takeD in_set_dropD simp: take_map[symmetric] drop_map[symmetric] set_take_disj_set_drop_if_distinct)

lemma imap_chain:
  assumes "imap_ok m"
  shows "imap (m\<lparr>im_hash := (im_hash m)[hashid k := c]\<rparr>) = (\<lambda>k2. if hashid k2 = hashid k then map_of c k2 else imap m k2)"
  using assms by (auto simp: imap_def imap_ok_def fun_eq_iff)

lemma imap_ok_chain:
  assumes "imap_ok m" "distinct (map fst c)" "\<forall>i \<in> fst ` set c. hashid i = hashid k"
  shows "imap_ok (m\<lparr>im_hash := (im_hash m)[hashid k := c]\<rparr>)"
  using assms by (auto simp: imap_ok_def nth_list_update)

lemma imap_ok_chainD:
  assumes "imap_ok m"
  shows "distinct (map fst (im_hash m ! hashid k))" "\<forall>i \<in> fst ` set (im_hash m ! hashid k). hashid i = hashid k"
  using assms by (simp_all add: imap_ok_def)

lemma imap_find: "imap m k = (let c = im_hash m ! hashid k; i = chain_find k c in if i < length c then Some (snd (c ! i)) else None)"
  by (simp add: imap_def chain_find_map_of Let_def)

lemma imap_alloc: "imap_ok allocmap" "imap allocmap = (\<lambda>k. None)"
  by (auto simp: imap_ok_def allocmap_def imap_def)

lemma lookupkey_eq:
  "lookupkey inc m k s = (case imap m k of None \<Rightarrow> Ok (None, s) | Some v \<Rightarrow> andthen (inc v s) (\<lambda>s. Ok (Some v, s)))"
  by (simp add: lookupkey_def llookup_def imap_find Let_def)

lemma add_chain:
  assumes "imap_ok m" "imap m k = None"
  shows "imap_ok (m\<lparr>im_hash := (im_hash m)[hashid k := (k, v) # im_hash m ! hashid k]\<rparr>)"
    "imap (m\<lparr>im_hash := (im_hash m)[hashid k := (k, v) # im_hash m ! hashid k]\<rparr>) = (imap m)(k \<mapsto> v)"
proof -
  have "k \<notin> fst ` set (im_hash m ! hashid k)" using assms(2) by (simp add: imap_def map_of_eq_None_iff)
  then have "distinct (map fst ((k, v) # im_hash m ! hashid k))" using imap_ok_chainD(1)[OF assms(1), of k] by simp
  moreover have "\<forall>i \<in> fst ` set ((k, v) # im_hash m ! hashid k). hashid i = hashid k"
    using imap_ok_chainD(2)[OF assms(1), of k] by (metis fst_conv image_insert insertE list.simps(15))
  ultimately show "imap_ok (m\<lparr>im_hash := (im_hash m)[hashid k := (k, v) # im_hash m ! hashid k]\<rparr>)"
    by (rule imap_ok_chain[OF assms(1)])
  show "imap (m\<lparr>im_hash := (im_hash m)[hashid k := (k, v) # im_hash m ! hashid k]\<rparr>) = (imap m)(k \<mapsto> v)"
    unfolding imap_chain[OF assms(1)] by (rule ext) (simp add: imap_def)
qed

lemma caninsertkey_eq:
  assumes "imap_ok m"
  shows "fst (caninsertkey m k v) \<longleftrightarrow> imap m k = None" "imap_ok (snd (caninsertkey m k v))"
    "imap (snd (caninsertkey m k v)) = (if imap m k = None then (imap m)(k \<mapsto> v) else imap m)"
  using assms add_chain[OF assms, of k v] by (auto simp: caninsertkey_def llookup_def imap_find Let_def split: if_splits)

lemma insertkey_eq:
  assumes "imap_ok m"
  shows "fst (insertkey m k v) = imap m k" "imap_ok (snd (insertkey m k v))" "imap (snd (insertkey m k v)) = (imap m)(k \<mapsto> v)"
proof -
  let ?c = "im_hash m ! hashid k" let ?i = "chain_find k ?c"
  show "fst (insertkey m k v) = imap m k" by (simp add: insertkey_def llookup_def imap_find Let_def)
  have "imap_ok (snd (insertkey m k v)) \<and> imap (snd (insertkey m k v)) = (imap m)(k \<mapsto> v)"
  proof (cases "?i < length ?c")
    case True
    have e: "snd (insertkey m k v) = m\<lparr>im_hash := (im_hash m)[hashid k := ?c[?i := (k, v)]]\<rparr>"
      using True chain_find_fst[OF True] by (simp add: insertkey_def llookup_def Let_def)
    have "map fst (?c[?i := (k, v)]) = map fst ?c"
      using True chain_find_fst[OF True] by (simp add: map_update list_update_same_conv del: map_eq_conv)
    then have "imap_ok (snd (insertkey m k v))"
      unfolding e using imap_ok_chainD[OF assms, of k] by (intro imap_ok_chain[OF assms]) (metis, metis set_map)
    then show ?thesis unfolding e imap_chain[OF assms] chain_update[OF True] by (simp add: fun_eq_iff imap_def)
  next
    case False
    then show ?thesis using add_chain[OF assms, of k v] by (simp add: insertkey_def llookup_def imap_find Let_def)
  qed
  then show "imap_ok (snd (insertkey m k v))" "imap (snd (insertkey m k v)) = (imap m)(k \<mapsto> v)" by auto
qed

lemma deletekey_eq:
  assumes "imap_ok m"
  shows "fst (deletekey m k) = imap m k" "imap_ok (snd (deletekey m k))" "imap (snd (deletekey m k)) = (imap m)(k := None)"
proof -
  let ?c = "im_hash m ! hashid k" let ?i = "chain_find k ?c"
  show "fst (deletekey m k) = imap m k" by (simp add: deletekey_def llookup_def imap_find Let_def)
  have "imap_ok (snd (deletekey m k)) \<and> imap (snd (deletekey m k)) = (imap m)(k := None)"
  proof (cases "?i < length ?c")
    case True
    have e: "snd (deletekey m k) = m\<lparr>im_hash := (im_hash m)[hashid k := take ?i ?c @ drop (Suc ?i) ?c]\<rparr>"
      using True by (simp add: deletekey_def llookup_def Let_def)
    have "imap_ok (snd (deletekey m k))"
      unfolding e using imap_ok_chainD[OF assms, of k] assms chain_delete_sub[where j = ?i and c = ?c] by (intro imap_ok_chain) blast+
    then show ?thesis unfolding e imap_chain[OF assms] chain_delete[OF imap_ok_chainD(1)[OF assms] True]
      by (simp add: fun_eq_iff imap_def)
  next
    case False
    then show ?thesis using assms by (auto simp: deletekey_def llookup_def imap_find Let_def fun_eq_iff)
  qed
  then show "imap_ok (snd (deletekey m k))" "imap (snd (deletekey m k)) = (imap m)(k := None)" by auto
qed

lemma caninsertkey_old: "imap m k \<noteq> None \<Longrightarrow> snd (caninsertkey m k v) = m"
  by (simp add: caninsertkey_def llookup_def imap_find Let_def split: if_splits)

lemma distinct_buckets:
  fixes hs :: "(u64 \<times> 'v) list list"
  assumes "\<And>h. h < length hs \<Longrightarrow> distinct (map fst (hs ! h))" "\<And>h x. h < length hs \<Longrightarrow> x \<in> set (hs ! h) \<Longrightarrow> g (fst x) = n + h"
  shows "distinct (map fst (concat hs)) \<and> (\<forall>x \<in> set (concat hs). n \<le> g (fst x))"
  using assms
proof (induction hs arbitrary: n)
  case (Cons c hs)
  have d: "distinct (map fst c)" using Cons.prems(1)[of 0] by simp
  have c: "g (fst x) = n" if "x \<in> set c" for x using Cons.prems(2)[of 0 x] that by simp
  have i: "distinct (map fst (concat hs)) \<and> (\<forall>x \<in> set (concat hs). Suc n \<le> g (fst x))"
    by (rule Cons.IH) (use Cons.prems(1)[of "Suc h" for h] Cons.prems(2)[of "Suc h" for h] in auto)
  have "fst x \<noteq> fst y" if "x \<in> set c" "y \<in> set (concat hs)" for x y
    using c[OF that(1)] i that(2) by (metis not_less_eq_eq order_refl)
  then have "fst ` set c \<inter> fst ` set (concat hs) = {}" by blast
  moreover have "n \<le> g (fst x)" if "x \<in> set (concat (c # hs))" for x
    using that c i by (metis Suc_leD Un_iff concat.simps(2) order_refl set_append)
  ultimately show ?case using d i by (simp del: set_concat)
qed simp

text \<open>\<^verbatim>\<open>freemap\<close> visits the node of every key once.\<close>

lemma freemap_values:
  assumes "imap_ok m"
  shows "\<exists>ks. distinct ks \<and> set ks = dom (imap m) \<and> freemap m = map (the \<circ> imap m) ks"
proof -
  let ?n = "concat (im_hash m)"
  have l: "length (im_hash m) = NHASH" using assms by (simp add: imap_ok_def)
  have at: "h = hashid k \<and> imap m k = Some v" if "h < NHASH" "(k, v) \<in> set (im_hash m ! h)" for h k v
  proof -
    have "k \<in> fst ` set (im_hash m ! h)" using that(2) by force
    then have "hashid k = h" using assms that(1) unfolding imap_ok_def by blast
    then show ?thesis using assms that by (auto simp: imap_ok_def imap_def)
  qed
  have node: "imap m k = Some v" if "(k, v) \<in> set ?n" for k v
    using that at l by (auto simp: in_set_conv_nth[of _ "im_hash m"])
  have "distinct (map fst ?n)"
    using distinct_buckets[of "im_hash m" hashid 0] assms by (simp add: imap_ok_def)
  moreover have "set (map fst ?n) = dom (imap m)"
  proof
    show "set (map fst ?n) \<subseteq> dom (imap m)" using node by fastforce
    show "dom (imap m) \<subseteq> set (map fst ?n)"
    proof
      fix k assume "k \<in> dom (imap m)"
      then obtain v where "imap m k = Some v" by blast
      then have "(k, v) \<in> set (im_hash m ! hashid k)" unfolding imap_def by (rule map_of_SomeD)
      moreover have "im_hash m ! hashid k \<in> set (im_hash m)" using l by simp
      ultimately show "k \<in> set (map fst ?n)" by (force simp: image_iff)
    qed
  qed
  moreover have "freemap m = map (the \<circ> imap m) (map fst ?n)"
    using node by (force simp: freemap_def map_concat[symmetric] comp_def intro!: map_cong)
  ultimately show ?thesis by blast
qed

section \<open>What clients rely on\<close>

locale int_map =
  fixes mok :: "'m \<Rightarrow> bool" and look :: "'m \<Rightarrow> u64 \<Rightarrow> 'v option"
    and can :: "'m \<Rightarrow> u64 \<Rightarrow> 'v \<Rightarrow> bool \<times> 'm" and del :: "'m \<Rightarrow> u64 \<Rightarrow> 'v option \<times> 'm"
  assumes can_iff: "mok m \<Longrightarrow> fst (can m k v) \<longleftrightarrow> look m k = None"
    and can_ok: "mok m \<Longrightarrow> mok (snd (can m k v))"
    and can_new: "mok m \<Longrightarrow> look m k = None \<Longrightarrow> look (snd (can m k v)) = (look m)(k \<mapsto> v)"
    and can_old: "mok m \<Longrightarrow> look m k \<noteq> None \<Longrightarrow> snd (can m k v) = m"
    and del_val: "mok m \<Longrightarrow> fst (del m k) = look m k"
    and del_ok: "mok m \<Longrightarrow> mok (snd (del m k))"
    and del_look: "mok m \<Longrightarrow> look (snd (del m k)) = (look m)(k := None)"
begin

lemma can_cases:
  assumes "mok m" "can m k v = (b, m')"
  obtains (new) "b" "look m k = None" "mok m'" "look m' = (look m)(k \<mapsto> v)" | (old) "\<not> b" "look m k \<noteq> None" "m' = m"
  using assms can_iff[of m k v] can_ok[of m k v] can_new[of m k v] can_old[of m k v] by (cases "look m k = None") auto

lemma delE:
  assumes "mok m" "del m k = (v, m')"
  obtains "v = look m k" "mok m'" "look m' = (look m)(k := None)"
  using assms del_val[of m k] del_ok[of m k] del_look[of m k] by auto

lemma can_del: "mok m \<Longrightarrow> fst (can m k v) \<Longrightarrow> fst (del (snd (can m k v)) k) = Some v"
  by (simp add: can_iff can_ok can_new del_val)

lemma del_can: "mok m \<Longrightarrow> fst (can (snd (del m k)) k v)"
  by (simp add: can_iff del_ok del_look)

text \<open>A pointer stored under one key only stays so.\<close>

lemma can_inj: "mok m \<Longrightarrow> inj_on (look m) (dom (look m)) \<Longrightarrow> v \<notin> ran (look m) \<Longrightarrow>
    inj_on (look (snd (can m k v))) (dom (look (snd (can m k v))))"
  by (cases "look m k = None") (auto simp: can_new can_old inj_on_def ran_def dom_def split: if_splits)

end

interpretation im: int_map imap_ok imap caninsertkey deletekey
  by unfold_locales (auto simp: caninsertkey_eq caninsertkey_old deletekey_eq)

section \<open>Property\<close>

text \<open>
  C5: the hash table implements a finite map: a new table is empty, every operation keeps the table
  well-formed, \<^verbatim>\<open>lookupkey\<close>, \<^verbatim>\<open>insertkey\<close>, \<^verbatim>\<open>caninsertkey\<close> and \<^verbatim>\<open>deletekey\<close> are lookup, update, update of an unused key
  and removal, returning the previous value, and \<^verbatim>\<open>freemap\<close> visits every value exactly once.
\<close>

theorem intmap_refines:
  assumes "imap_ok m"
  shows "imap_ok (allocmap :: 'v Intmap) \<and> imap (allocmap :: 'v Intmap) = (\<lambda>k. None) \<and>
    lookupkey (\<lambda>v s. Ok (v # s)) m k s = Ok (imap m k, (case imap m k of None \<Rightarrow> s | Some v \<Rightarrow> v # s)) \<and>
    (\<exists>m'. insertkey m k v = (imap m k, m') \<and> imap_ok m' \<and> imap m' = (imap m)(k \<mapsto> v)) \<and>
    (\<exists>m'. caninsertkey m k v = (imap m k = None, m') \<and> imap_ok m' \<and> imap m' = (if imap m k = None then (imap m)(k \<mapsto> v) else imap m)) \<and>
    (\<exists>m'. deletekey m k = (imap m k, m') \<and> imap_ok m' \<and> imap m' = (imap m)(k := None)) \<and>
    (\<exists>ks. distinct ks \<and> set ks = dom (imap m) \<and> freemap m = map (the \<circ> imap m) ks)"
  using lookupkey_eq[of "\<lambda>v s. Ok (v # s)" m k s] insertkey_eq[OF assms, of k v] caninsertkey_eq[OF assms, of k v]
    deletekey_eq[OF assms, of k] freemap_values[OF assms]
  by (cases "imap m k") (simp_all add: prod_eq_iff imap_alloc)

theorem intmap_refines_witness:
  "\<exists>m'. deletekey (snd (insertkey (snd (insertkey allocmap 1 ''a'')) 129 ''b'')) 1 = (Some ''a'', m') \<and> imap m' = [129 \<mapsto> ''b'']"
proof -
  have 1: "imap_ok (snd (insertkey allocmap 1 ''a''))" "imap (snd (insertkey allocmap 1 ''a'')) = [1 \<mapsto> ''a'']"
    using intmap_refines[OF imap_alloc(1), of 1 "[]" "''a''"] by (auto simp: imap_alloc(2))
  have 2: "imap_ok (snd (insertkey (snd (insertkey allocmap 1 ''a'')) 129 ''b''))"
    "imap (snd (insertkey (snd (insertkey allocmap 1 ''a'')) 129 ''b'')) = [1 \<mapsto> ''a'', 129 \<mapsto> ''b'']"
    using intmap_refines[OF 1(1), of 129 "[]" "''b''"] by (auto simp: 1(2))
  show ?thesis using intmap_refines[OF 2(1), of 1 "[]" "''b''"] by (auto simp: 2(2) fun_eq_iff)
qed

end
