(* ===== verification/NineSrv.thy ===== *)
theory NineSrv
  imports Fcall9P FileTree Intmap
begin

text \<open>
  The 9P server library: the pools of fids and requests (src/lib9p/fid.c, req.c) and the service loop with
  its handlers and \<^verbatim>\<open>respond\<close> (src/lib9p/srv.c), on 64-bit machines, where \<^verbatim>\<open>ulong\<close> has 64 bits. Fids and requests
  are objects in memory: an address is an index, a freed object is \<open>None\<close>. A function the file server supplies
  and that answers through \<^verbatim>\<open>respond\<close> takes the request over: it is \<open>pending\<close> until the file server responds,
  at once or after other requests. \<^verbatim>\<open>walk1\<close> and \<^verbatim>\<open>clone\<close> return their result and are functions here. Locks,
  diagnostic output and the \<^verbatim>\<open>aux\<close> fields are not part of the model; memory allocation and writes to the
  connection succeed.
\<close>

section \<open>Constants\<close>

definition OREAD :: int where "OREAD = 0"
definition OWRITE :: int where "OWRITE = 1"
definition ORDWR :: int where "ORDWR = 2"
definition OEXEC :: int where "OEXEC = 3"
definition OTRUNC :: byte where "OTRUNC = 16"
definition ORCLOSE :: byte where "ORCLOSE = 64"
definition AEXEC :: u32 where "AEXEC = 1"
definition AWRITE :: u32 where "AWRITE = 2"
definition AREAD :: u32 where "AREAD = 4"
definition NOFID :: u32 where "NOFID = - 1"
definition IOHDRSZ :: u32 where "IOHDRSZ = 24"
definition ERRMAX :: nat where "ERRMAX = 128"

definition bytes_of :: "string \<Rightarrow> byte list" where
  "bytes_of s = map of_char s"

definition lit :: "string \<Rightarrow> cptr" where
  "lit s = Str (bytes_of s @ [0])"

definition Ebadoffset :: cptr where "Ebadoffset = lit ''bad offset''"
definition Ebotch :: cptr where "Ebotch = lit ''9P protocol botch''"
definition Ecreatenondir :: cptr where "Ecreatenondir = lit ''create in non-directory''"
definition Edupfid :: cptr where "Edupfid = lit ''duplicate fid''"
definition Eduptag :: cptr where "Eduptag = lit ''duplicate tag''"
definition Eisdir :: cptr where "Eisdir = lit ''is a directory''"
definition Enocreate :: cptr where "Enocreate = lit ''create prohibited''"
definition Enoremove :: cptr where "Enoremove = lit ''remove prohibited''"
definition Enostat :: cptr where "Enostat = lit ''stat prohibited''"
definition Enotfound :: cptr where "Enotfound = lit ''file not found''"
definition Enowstat :: cptr where "Enowstat = lit ''wstat prohibited''"
definition Eperm :: cptr where "Eperm = lit ''permission denied''"
definition Eunknownfid :: cptr where "Eunknownfid = lit ''unknown fid''"
definition Ebaddir :: cptr where "Ebaddir = lit ''bad directory in wstat''"
definition Ewalknodir :: cptr where "Ewalknodir = lit ''walk in non-directory''"

section \<open>State\<close>

record Fid =
  f_fid :: u64
  f_omode :: int
  f_file :: "nat option"
  f_uid :: cptr
  f_qid :: Qid
  f_rdir :: "(nat \<times> nat) option"
  f_ref :: int
  f_diroffset :: u64

text \<open>
  \<open>r_flush\<close> is the array \<^verbatim>\<open>flush\<close> of \<^verbatim>\<open>nflush\<close> requests, \<open>r_pool\<close> is false for the fake request of a duplicate tag,
  \<open>r_statfreed\<close> says that the object \<^verbatim>\<open>ofcall.stat\<close> points to was freed, and \<open>r_buf\<close> is the object that \<open>Buf\<close>
  pointers of \<^verbatim>\<open>ifcall\<close> refer to.
\<close>

record Req =
  r_tag :: u64
  r_ifcall :: Fcall
  r_ofcall :: Fcall
  r_d :: Dir
  r_oldreq :: "nat option"
  r_fid :: "nat option"
  r_afid :: "nat option"
  r_newfid :: "nat option"
  r_ref :: int
  r_pool :: bool
  r_buf :: "byte list"
  r_type :: byte
  r_responded :: bool
  r_error :: cptr
  r_flush :: "nat list"
  r_statfreed :: bool

text \<open>The functions a file server supplies, most of them only by whether they are there.\<close>

record Srv =
  has_tree :: bool
  has_destroyfid :: bool
  has_destroyreq :: bool
  has_attach :: bool
  has_auth :: bool
  has_open :: bool
  has_create :: bool
  has_read :: bool
  has_write :: bool
  has_remove :: bool
  has_flush :: bool
  has_stat :: bool
  has_wstat :: bool
  has_walk :: bool
  cb_clone :: "(Fid \<Rightarrow> Fid \<Rightarrow> cptr) option"
  cb_walk1 :: "(Fid \<Rightarrow> byte list \<Rightarrow> cptr \<times> Qid) option"
  fake :: bool
  argv0 :: string

text \<open>What happens at the interfaces of the library.\<close>

datatype event =
    Received u16
  | Sent "byte list"
  | Destroyfid nat
  | Destroyreq nat

record Srvst =
  fids :: "Fid option list"
  reqs :: "Req option list"
  s_tree :: Tree
  fpool :: "nat Intmap"
  rpool :: "nat Intmap"
  s_msize :: u32
  s_rbuf :: "byte list"
  s_wbuf :: "byte list"
  pending :: "nat list"
  log :: "event list"

definition getf :: "nat \<Rightarrow> Srvst \<Rightarrow> Fid outcome" where
  "getf a s = (case rd (fids s) a of Some (Some f) \<Rightarrow> Ok f | _ \<Rightarrow> Undef)"

definition putf :: "nat \<Rightarrow> Fid option \<Rightarrow> Srvst \<Rightarrow> Srvst" where
  "putf a f s = s\<lparr>fids := (fids s)[a := f]\<rparr>"

definition modf :: "nat \<Rightarrow> (Fid \<Rightarrow> Fid) \<Rightarrow> Srvst \<Rightarrow> Srvst outcome" where
  "modf a g s = andthen (getf a s) (\<lambda>f. Ok (putf a (Some (g f)) s))"

definition getr :: "nat \<Rightarrow> Srvst \<Rightarrow> Req outcome" where
  "getr a s = (case rd (reqs s) a of Some (Some r) \<Rightarrow> Ok r | _ \<Rightarrow> Undef)"

definition putr :: "nat \<Rightarrow> Req option \<Rightarrow> Srvst \<Rightarrow> Srvst" where
  "putr a r s = s\<lparr>reqs := (reqs s)[a := r]\<rparr>"

definition modr :: "nat \<Rightarrow> (Req \<Rightarrow> Req) \<Rightarrow> Srvst \<Rightarrow> Srvst outcome" where
  "modr a g s = andthen (getr a s) (\<lambda>r. Ok (putr a (Some (g r)) s))"

text \<open>A pointer that is dereferenced.\<close>

definition ptr :: "nat option \<Rightarrow> nat outcome" where
  "ptr a = access a"

definition on_tree :: "(Tree \<Rightarrow> Tree outcome) \<Rightarrow> Srvst \<Rightarrow> Srvst outcome" where
  "on_tree g s = andthen (g (s_tree s)) (\<lambda>t. Ok (s\<lparr>s_tree := t\<rparr>))"

definition emit :: "event \<Rightarrow> Srvst \<Rightarrow> Srvst" where
  "emit e s = s\<lparr>log := log s @ [e]\<rparr>"

section \<open>The pool of fids\<close>

definition incfidref :: "nat \<Rightarrow> Srvst \<Rightarrow> Srvst outcome" where
  "incfidref a s = modf a (\<lambda>f. f\<lparr>f_ref := f_ref f + 1\<rparr>) s"

definition closefid :: "Srv \<Rightarrow> nat option \<Rightarrow> Srvst \<Rightarrow> Srvst outcome" where
  "closefid srv a s =
    andthen (ptr a) (\<lambda>a.
    andthen (modf a (\<lambda>f. f\<lparr>f_ref := f_ref f - 1\<rparr>) s) (\<lambda>s.
    andthen (getf a s) (\<lambda>f.
    if f_ref f = 0 then
      let s = (if has_destroyfid srv then emit (Destroyfid a) s else s) in
      andthen (case f_file f of None \<Rightarrow> Ok s | Some x \<Rightarrow> on_tree (closefile x) s) (\<lambda>s.
      Ok (putf a None s))
    else Ok s)))"

definition allocfid :: "Srv \<Rightarrow> u64 \<Rightarrow> Srvst \<Rightarrow> (nat option \<times> Srvst) outcome" where
  "allocfid srv n s =
    (let a = length (fids s);
         s = s\<lparr>fids := fids s @ [Some \<lparr>f_fid = n, f_omode = - 1, f_file = None, f_uid = Nil,
               f_qid = mkqid 0 0 0, f_rdir = None, f_ref = 0, f_diroffset = 0\<rparr>]\<rparr>
     in
     andthen (incfidref a s) (\<lambda>s.
     andthen (incfidref a s) (\<lambda>s.
     case caninsertkey (fpool s) n a of (ok, m) \<Rightarrow>
       if \<not> ok then
         andthen (closefid srv (Some a) s) (\<lambda>s.
         andthen (closefid srv (Some a) s) (\<lambda>s.
         Ok (None, s)))
       else Ok (Some a, s\<lparr>fpool := m\<rparr>))))"

definition lookupfid :: "u64 \<Rightarrow> Srvst \<Rightarrow> (nat option \<times> Srvst) outcome" where
  "lookupfid n s = lookupkey incfidref (fpool s) n s"

definition removefid :: "u64 \<Rightarrow> Srvst \<Rightarrow> nat option \<times> Srvst" where
  "removefid n s = (case deletekey (fpool s) n of (r, m) \<Rightarrow> (r, s\<lparr>fpool := m\<rparr>))"

section \<open>The pool of requests\<close>

definition zero_fcall :: Fcall where
  "zero_fcall = \<lparr>Fcall.type = 0, fid = 0, tag = 0, msize = 0, version = Nil, oldtag = 0, ename = Nil, Fcall.qid = mkqid 0 0 0,
     iounit = 0, aqid = mkqid 0 0 0, afid = 0, uname = Nil, aname = Nil, perm = 0, Fcall.name = Nil, Fcall.mode = 0, newfid = 0,
     nwname = 0, wname = replicate MAXWELEM Nil, nwqid = 0, wqid = replicate MAXWELEM (mkqid 0 0 0), offset = 0,
     count = 0, data = Nil, nstat = 0, stat = Nil, unixfd = 0, errornum = 0, Fcall.uidnum = 0, extension = Nil\<rparr>"

definition zero_req :: Req where
  "zero_req = \<lparr>r_tag = 0, r_ifcall = zero_fcall, r_ofcall = zero_fcall, r_d = zero_dir, r_oldreq = None,
     r_fid = None, r_afid = None, r_newfid = None, r_ref = 0, r_pool = False, r_buf = [], r_type = 0,
     r_responded = False, r_error = Nil, r_flush = [], r_statfreed = False\<rparr>"

definition increqref :: "nat \<Rightarrow> Srvst \<Rightarrow> Srvst outcome" where
  "increqref a s = modr a (\<lambda>r. r\<lparr>r_ref := r_ref r + 1\<rparr>) s"

text \<open>\<^verbatim>\<open>closereq\<close> follows the chain of \<^verbatim>\<open>oldreq\<close> pointers, whose length \<open>n\<close> bounds.\<close>

fun closereq_n :: "nat \<Rightarrow> Srv \<Rightarrow> nat option \<Rightarrow> Srvst \<Rightarrow> Srvst outcome" where
  "closereq_n n srv None s = Ok s"
| "closereq_n 0 srv (Some a) s = Undef"
| "closereq_n (Suc n) srv (Some a) s =
    andthen (modr a (\<lambda>r. r\<lparr>r_ref := r_ref r - 1\<rparr>) s) (\<lambda>s.
    andthen (getr a s) (\<lambda>r.
    if r_ref r = 0 then
      andthen (if r_fid r \<noteq> None then closefid srv (r_fid r) s else Ok s) (\<lambda>s.
      andthen (if r_newfid r \<noteq> None then closefid srv (r_newfid r) s else Ok s) (\<lambda>s.
      andthen (if r_afid r \<noteq> None then closefid srv (r_afid r) s else Ok s) (\<lambda>s.
      andthen (closereq_n n srv (r_oldreq r) s) (\<lambda>s.
      if Fcall.type (r_ifcall r) = Tstat \<and> r_statfreed r then Undef
      else if \<not> r_pool r then Undef
      else
        let s = (if has_destroyreq srv then emit (Destroyreq a) s else s) in
        Ok (putr a None s)))))
    else Ok s))"

definition closereq :: "Srv \<Rightarrow> nat option \<Rightarrow> Srvst \<Rightarrow> Srvst outcome" where
  "closereq srv a s = closereq_n (Suc (length (reqs s))) srv a s"

definition allocreq :: "Srv \<Rightarrow> u64 \<Rightarrow> Srvst \<Rightarrow> (nat option \<times> Srvst) outcome" where
  "allocreq srv t s =
    (let a = length (reqs s);
         s = s\<lparr>reqs := reqs s @ [Some (zero_req\<lparr>r_tag := t, r_pool := True\<rparr>)]\<rparr>
     in
     andthen (increqref a s) (\<lambda>s.
     andthen (increqref a s) (\<lambda>s.
     case caninsertkey (rpool s) t a of (ok, m) \<Rightarrow>
       if \<not> ok then
         andthen (closereq srv (Some a) s) (\<lambda>s.
         andthen (closereq srv (Some a) s) (\<lambda>s.
         Ok (None, s)))
       else Ok (Some a, s\<lparr>rpool := m\<rparr>))))"

definition lookupreq :: "u64 \<Rightarrow> Srvst \<Rightarrow> (nat option \<times> Srvst) outcome" where
  "lookupreq t s = lookupkey increqref (rpool s) t s"

definition removereq :: "u64 \<Rightarrow> Srvst \<Rightarrow> nat option \<times> Srvst" where
  "removereq t s = (case deletekey (rpool s) t of (r, m) \<Rightarrow> (r, s\<lparr>rpool := m\<rparr>))"

section \<open>After the file server has answered\<close>

definition setfcallerror :: "cptr \<Rightarrow> Fcall \<Rightarrow> Fcall" where
  "setfcallerror err f = f\<lparr>ename := err, Fcall.type := Rerror\<rparr>"

text \<open>The argument is an \<^verbatim>\<open>int\<close>: a negative size is a request for more memory than there is.\<close>

definition changemsize :: "u32 \<Rightarrow> Srvst \<Rightarrow> Srvst outcome" where
  "changemsize m s =
    (if s_msize s = m then Ok s
     else if sint m < 0 then Abort ''out of memory''
     else Ok (s\<lparr>s_msize := m, s_rbuf := replicate (unat m) 0, s_wbuf := replicate (unat m) 0\<rparr>))"

definition rversion :: "nat \<Rightarrow> cptr \<Rightarrow> Srvst \<Rightarrow> Srvst outcome" where
  "rversion a err s =
    (if err \<noteq> Nil then Abort ''assert(error == nil)''
     else andthen (getr a s) (\<lambda>r. changemsize (msize (r_ofcall r)) s))"

definition rauth :: "Srv \<Rightarrow> nat \<Rightarrow> cptr \<Rightarrow> Srvst \<Rightarrow> Srvst outcome" where
  "rauth srv a err s =
    andthen (getr a s) (\<lambda>r.
    if err \<noteq> Nil \<and> r_afid r \<noteq> None then
      andthen (andthen (ptr (r_afid r)) (\<lambda>x. getf x s)) (\<lambda>f.
      case removefid (f_fid f) s of (x, s) \<Rightarrow> closefid srv x s)
    else Ok s)"

definition rattach :: "Srv \<Rightarrow> nat \<Rightarrow> cptr \<Rightarrow> Srvst \<Rightarrow> Srvst outcome" where
  "rattach srv a err s =
    andthen (getr a s) (\<lambda>r.
    if err \<noteq> Nil \<and> r_fid r \<noteq> None then
      andthen (andthen (ptr (r_fid r)) (\<lambda>x. getf x s)) (\<lambda>f.
      case removefid (f_fid f) s of (x, s) \<Rightarrow> closefid srv x s)
    else Ok s)"

text \<open>\<^verbatim>\<open>rflush\<close> returns -1, here false, when the response has to wait for that of the old request.\<close>

definition rflush :: "Srv \<Rightarrow> nat \<Rightarrow> cptr \<Rightarrow> Srvst \<Rightarrow> (bool \<times> Srvst) outcome" where
  "rflush srv a err s =
    (if err \<noteq> Nil then Abort ''assert(error == nil)''
     else
       andthen (getr a s) (\<lambda>r.
       case r_oldreq r of
         None \<Rightarrow> Ok (True, s)
       | Some o1 \<Rightarrow>
           andthen (getr o1 s) (\<lambda>old.
           if \<not> r_responded old then
             andthen (modr o1 (\<lambda>old. old\<lparr>r_flush := r_flush old @ [a]\<rparr>) s) (\<lambda>s. Ok (False, s))
           else
             andthen (closereq srv (Some o1) s) (\<lambda>s.
             andthen (modr a (\<lambda>r. r\<lparr>r_oldreq := None\<rparr>) s) (\<lambda>s. Ok (True, s))))))"

definition rwalk :: "Srv \<Rightarrow> nat \<Rightarrow> cptr \<Rightarrow> Srvst \<Rightarrow> Srvst outcome" where
  "rwalk srv a err s =
    andthen (getr a s) (\<lambda>r.
    let i = r_ifcall r; o1 = r_ofcall r in
    if err \<noteq> Nil \<or> nwqid o1 < nwname i then
      andthen (if fid i \<noteq> newfid i \<and> r_newfid r \<noteq> None then
                 andthen (andthen (ptr (r_newfid r)) (\<lambda>x. getf x s)) (\<lambda>f.
                 case removefid (f_fid f) s of (x, s) \<Rightarrow> closefid srv x s)
               else Ok s) (\<lambda>s.
      if nwqid o1 = 0 then
        if err = Nil \<and> nwname i \<noteq> 0 then modr a (\<lambda>r. r\<lparr>r_error := Enotfound\<rparr>) s else Ok s
      else modr a (\<lambda>r. r\<lparr>r_error := Nil\<rparr>) s)
    else
      andthen (ptr (r_newfid r)) (\<lambda>nf.
      if nwqid o1 = 0 then
        andthen (andthen (ptr (r_fid r)) (\<lambda>x. getf x s)) (\<lambda>f. modf nf (\<lambda>g. g\<lparr>f_qid := f_qid f\<rparr>) s)
      else
        andthen (access (rd (wqid o1) (unat (nwqid o1) - 1))) (\<lambda>q. modf nf (\<lambda>g. g\<lparr>f_qid := q\<rparr>) s)))"

definition ropen :: "nat \<Rightarrow> cptr \<Rightarrow> Srvst \<Rightarrow> Srvst outcome" where
  "ropen a err s =
    (if err \<noteq> Nil then Ok s
     else
       andthen (getr a s) (\<lambda>r.
       andthen (ptr (r_fid r)) (\<lambda>x.
       modf x (\<lambda>f. f\<lparr>f_omode := uint (Fcall.mode (r_ifcall r)), f_qid := Fcall.qid (r_ofcall r),
          f_diroffset := (if qtype (Fcall.qid (r_ofcall r)) AND QTDIR \<noteq> 0 then 0 else f_diroffset f)\<rparr>) s)))"

definition rcreate :: "nat \<Rightarrow> cptr \<Rightarrow> Srvst \<Rightarrow> Srvst outcome" where
  "rcreate a err s =
    (if err \<noteq> Nil then Ok s
     else
       andthen (getr a s) (\<lambda>r.
       andthen (ptr (r_fid r)) (\<lambda>x.
       modf x (\<lambda>f. f\<lparr>f_omode := uint (Fcall.mode (r_ifcall r)), f_qid := Fcall.qid (r_ofcall r)\<rparr>) s)))"

definition rread :: "nat \<Rightarrow> cptr \<Rightarrow> Srvst \<Rightarrow> Srvst outcome" where
  "rread a err s =
    (if err \<noteq> Nil then Ok s
     else
       andthen (getr a s) (\<lambda>r.
       andthen (ptr (r_fid r)) (\<lambda>x.
       andthen (getf x s) (\<lambda>f.
       if qtype (f_qid f) AND QTDIR \<noteq> 0 then
         modf x (\<lambda>f. f\<lparr>f_diroffset := offset (r_ifcall r) + ucast (count (r_ofcall r))\<rparr>) s
       else Ok s))))"

definition rwrite :: "nat \<Rightarrow> cptr \<Rightarrow> Srvst \<Rightarrow> Srvst outcome" where
  "rwrite a err s =
    (if err \<noteq> Nil then Ok s
     else
       andthen (getr a s) (\<lambda>r.
       andthen (ptr (r_fid r)) (\<lambda>x.
       andthen (getf x s) (\<lambda>f.
       case f_file f of
         None \<Rightarrow> Ok s
       | Some y \<Rightarrow> on_tree (modify_file y (\<lambda>f. f\<lparr>fl_dir := (fl_dir f)\<lparr>Dir.qid := (Dir.qid (fl_dir f))\<lparr>vers := vers (Dir.qid (fl_dir f)) + 1\<rparr>\<rparr>\<rparr>)) s))))"

definition rclunk :: "Srvst \<Rightarrow> Srvst outcome" where
  "rclunk s = Ok s"

text \<open>The message is cut off at \<^verbatim>\<open>ERRMAX\<close> bytes.\<close>

definition errbuf :: "byte list \<Rightarrow> cptr" where
  "errbuf t = Str (take (ERRMAX - 1) t @ [0])"

definition rremove :: "nat \<Rightarrow> cptr \<Rightarrow> Srvst \<Rightarrow> Srvst outcome" where
  "rremove a err s =
    (if err \<noteq> Nil then Ok s
     else
       andthen (getr a s) (\<lambda>r.
       andthen (ptr (r_fid r)) (\<lambda>x.
       andthen (getf x s) (\<lambda>f.
       case f_file f of
         None \<Rightarrow> Ok s
       | Some y \<Rightarrow>
           andthen (removefile y (s_tree s)) (\<lambda>(e, t).
           let s = s\<lparr>s_tree := t\<rparr> in
           andthen (case e of
               None \<Rightarrow> Ok s
             | Some e \<Rightarrow>
                 andthen (get_file y t) (\<lambda>fl.
                 andthen (cstr (Dir.name (fl_dir fl))) (\<lambda>nm.
                 modr a (\<lambda>r. r\<lparr>r_error := errbuf (bytes_of ''remove '' @ nm @ bytes_of '': '' @ bytes_of e)\<rparr>) s))) (\<lambda>s.
           modf x (\<lambda>f. f\<lparr>f_file := None\<rparr>) s))))))"

definition rstat :: "nat \<Rightarrow> cptr \<Rightarrow> Srvst \<Rightarrow> Srvst outcome" where
  "rstat a err s =
    (if err \<noteq> Nil then Ok s
     else
       andthen (getr a s) (\<lambda>r.
       andthen (access (convD2M [] (r_d r) (replicate BIT16SZ 0) BIT16SZ)) (\<lambda>(tmp, n).
       if n \<noteq> BIT16SZ then modr a (\<lambda>r. r\<lparr>r_error := lit ''convD2M(_,_,BIT16SZ) did not return BIT16SZ''\<rparr>) s
       else
         andthen (access (GBIT16 tmp 0)) (\<lambda>sz.
         let n = unat sz + BIT16SZ in
         andthen (access (convD2M [] (r_d r) (replicate n 0) n)) (\<lambda>(statbuf, k).
         let ns = (of_nat k :: u16) in
         andthen (modr a (\<lambda>r. r\<lparr>r_ofcall := (r_ofcall r)\<lparr>nstat := ns, stat := Str statbuf\<rparr>\<rparr>) s) (\<lambda>s.
         if unat ns \<le> BIT16SZ then modr a (\<lambda>r. r\<lparr>r_error := lit ''convD2M fails'', r_statfreed := True\<rparr>) s
         else Ok s))))))"

definition rwstat :: "Srvst \<Rightarrow> Srvst outcome" where
  "rwstat s = Ok s"

text \<open>The switch of \<^verbatim>\<open>respond\<close>; only the handler of \<^verbatim>\<open>Tflush\<close> may stop the response.\<close>

definition rswitch :: "Srv \<Rightarrow> nat \<Rightarrow> cptr \<Rightarrow> Srvst \<Rightarrow> (bool \<times> Srvst) outcome" where
  "rswitch srv a err s =
    andthen (getr a s) (\<lambda>r.
    let t = Fcall.type (r_ifcall r) in
    if t = Tflush then rflush srv a err s
    else
      andthen (if t = Tversion then rversion a err s
        else if t = Tauth then rauth srv a err s
        else if t = Tattach then rattach srv a err s
        else if t = Twalk then rwalk srv a err s
        else if t = Topen then ropen a err s
        else if t = Tcreate then rcreate a err s
        else if t = Tread then rread a err s
        else if t = Twrite then rwrite a err s
        else if t = Tclunk then rclunk s
        else if t = Tremove then rremove a err s
        else if t = Tstat then rstat a err s
        else if t = Twstat then rwstat s
        else Abort ''assert(0)'') (\<lambda>s. Ok (True, s)))"

section \<open>Responding\<close>

text \<open>From the encoding of the reply to its transmission.\<close>

definition transmit :: "Srv \<Rightarrow> nat \<Rightarrow> Srvst \<Rightarrow> Srvst outcome" where
  "transmit srv a s =
    andthen (getr a s) (\<lambda>r.
    andthen (access (convS2M (r_buf r) (r_ofcall r) (s_wbuf s) (unat (s_msize s)))) (\<lambda>(b, n).
    if sint n \<le> 0 then Abort ''abort()''
    else if sint n \<le> 2 then Abort ''assert(n > 2)''
    else
      let s = s\<lparr>s_wbuf := b\<rparr> in
      andthen (if r_pool r then (case removereq (ucast (tag (r_ifcall r))) s of (x, s) \<Rightarrow> closereq srv x s) else Ok s) (\<lambda>s.
      andthen (modr a (\<lambda>r. r\<lparr>r_responded := True\<rparr>) s) (\<lambda>s.
      andthen (getr a s) (\<lambda>r.
      andthen (if r_pool r \<and> r_ref r = 1 + int (length (r_flush r)) \<and> r_fid r \<noteq> None then
                 andthen (closefid srv (r_fid r) s) (\<lambda>s. modr a (\<lambda>r. r\<lparr>r_fid := None\<rparr>) s)
               else Ok s) (\<lambda>s.
      Ok (emit (Sent (take (unat n) (s_wbuf s))) s)))))))"

text \<open>
  \<^verbatim>\<open>respond\<close> calls itself for the requests waiting to flush this one. These arrived later, so their addresses
  are larger; \<open>n\<close> bounds the depth of the recursion.
\<close>

fun respond_n :: "nat \<Rightarrow> Srv \<Rightarrow> nat \<Rightarrow> cptr \<Rightarrow> Srvst \<Rightarrow> Srvst outcome"
  and flushes_n :: "nat \<Rightarrow> Srv \<Rightarrow> nat list \<Rightarrow> Srvst \<Rightarrow> Srvst outcome" where
  "respond_n 0 srv a err s = Undef"
| "respond_n (Suc n) srv a err s =
    andthen (getr a s) (\<lambda>r.
    let finish = (\<lambda>s.
      andthen (getr a s) (\<lambda>r.
      andthen (flushes_n n srv (r_flush r) s) (\<lambda>s.
      andthen (modr a (\<lambda>r. r\<lparr>r_flush := []\<rparr>) s) (\<lambda>s.
      if r_pool r then closereq srv (Some a) s else Ok (putr a None s)))))
    in
    if r_responded r then (if r_pool r then finish s else Abort ''assert(r->pool)'')
    else
      andthen (modr a (\<lambda>r. r\<lparr>r_error := err\<rparr>) s) (\<lambda>s.
      andthen (rswitch srv a err s) (\<lambda>(go, s).
      if \<not> go then Ok s
      else
        andthen (modr a (\<lambda>r.
          let f = (r_ofcall r)\<lparr>tag := tag (r_ifcall r), Fcall.type := Fcall.type (r_ifcall r) + 1\<rparr>
          in r\<lparr>r_ofcall := (if r_error r \<noteq> Nil then setfcallerror (r_error r) f else f)\<rparr>) s) (\<lambda>s.
        if fake srv then Ok s
        else andthen (transmit srv a s) finish))))"
| "flushes_n n srv [] s = Ok s"
| "flushes_n n srv (x # l) s =
    andthen (modr x (\<lambda>r. r\<lparr>r_oldreq := None\<rparr>) s) (\<lambda>s.
    andthen (respond_n n srv x Nil s) (\<lambda>s. flushes_n n srv l s))"

definition respond :: "Srv \<Rightarrow> nat \<Rightarrow> cptr \<Rightarrow> Srvst \<Rightarrow> Srvst outcome" where
  "respond srv a err s = respond_n (Suc (length (reqs s))) srv a err s"

section \<open>Requests arriving\<close>

text \<open>Handing a request to a function of the file server, which is to answer with \<^verbatim>\<open>respond\<close>.\<close>

definition call :: "nat \<Rightarrow> Srvst \<Rightarrow> Srvst outcome" where
  "call a s = Ok (s\<lparr>pending := pending s @ [a]\<rparr>)"

definition sversion :: "Srv \<Rightarrow> nat \<Rightarrow> Srvst \<Rightarrow> Srvst outcome" where
  "sversion srv a s =
    andthen (getr a s) (\<lambda>r.
    andthen (cstr_at (r_buf r) (version (r_ifcall r))) (\<lambda>v.
    if take 6 v \<noteq> bytes_of ''9P2000'' then
      andthen (modr a (\<lambda>r. r\<lparr>r_ofcall := (r_ofcall r)\<lparr>version := lit ''unknown''\<rparr>\<rparr>) s) (\<lambda>s. respond srv a Nil s)
    else
      andthen (modr a (\<lambda>r. r\<lparr>r_ofcall := (r_ofcall r)\<lparr>version := lit ''9P2000'', msize := msize (r_ifcall r)\<rparr>\<rparr>) s) (\<lambda>s.
      respond srv a Nil s)))"

definition sauth :: "Srv \<Rightarrow> nat \<Rightarrow> Srvst \<Rightarrow> Srvst outcome" where
  "sauth srv a s =
    andthen (getr a s) (\<lambda>r.
    andthen (allocfid srv (ucast (afid (r_ifcall r))) s) (\<lambda>(x, s).
    andthen (modr a (\<lambda>r. r\<lparr>r_afid := x\<rparr>) s) (\<lambda>s.
    if x = None then respond srv a Edupfid s
    else if has_auth srv then call a s
    else respond srv a (errbuf (bytes_of (argv0 srv) @ bytes_of '': authentication not required'')) s)))"

definition sattach :: "Srv \<Rightarrow> nat \<Rightarrow> Srvst \<Rightarrow> Srvst outcome" where
  "sattach srv a s =
    andthen (getr a s) (\<lambda>r.
    andthen (allocfid srv (ucast (fid (r_ifcall r))) s) (\<lambda>(x, s).
    andthen (modr a (\<lambda>r. r\<lparr>r_fid := x\<rparr>) s) (\<lambda>s.
    case x of
      None \<Rightarrow> respond srv a Edupfid s
    | Some x \<Rightarrow>
        andthen (modr a (\<lambda>r. r\<lparr>r_afid := None\<rparr>) s) (\<lambda>s.
        andthen (if afid (r_ifcall r) \<noteq> NOFID then lookupfid (ucast (afid (r_ifcall r))) s else Ok (None, s)) (\<lambda>(y, s).
        andthen (modr a (\<lambda>r. r\<lparr>r_afid := y\<rparr>) s) (\<lambda>s.
        if afid (r_ifcall r) \<noteq> NOFID \<and> y = None then respond srv a Eunknownfid s
        else
          andthen (cstr_at (r_buf r) (uname (r_ifcall r))) (\<lambda>u.
          andthen (modf x (\<lambda>f. f\<lparr>f_uid := estrdup9p u\<rparr>) s) (\<lambda>s.
          andthen (if has_tree srv then
              let root = t_root (s_tree s) in
              andthen (modf x (\<lambda>f. f\<lparr>f_file := Some root\<rparr>) s) (\<lambda>s.
              andthen (on_tree (incfile root) s) (\<lambda>s.
              andthen (get_file root (s_tree s)) (\<lambda>fl.
              andthen (modr a (\<lambda>r. r\<lparr>r_ofcall := (r_ofcall r)\<lparr>Fcall.qid := Dir.qid (fl_dir fl)\<rparr>\<rparr>) s) (\<lambda>s.
              modf x (\<lambda>f. f\<lparr>f_qid := Dir.qid (fl_dir fl)\<rparr>) s))))
            else Ok s) (\<lambda>s.
          if has_attach srv then call a s else respond srv a Nil s))))))))) "

definition sflush :: "Srv \<Rightarrow> nat \<Rightarrow> Srvst \<Rightarrow> Srvst outcome" where
  "sflush srv a s =
    andthen (getr a s) (\<lambda>r.
    andthen (lookupreq (ucast (oldtag (r_ifcall r))) s) (\<lambda>(x, s).
    andthen (modr a (\<lambda>r. r\<lparr>r_oldreq := x\<rparr>) s) (\<lambda>s.
    if x = None \<or> x = Some a then respond srv a Nil s
    else if has_flush srv then call a s
    else respond srv a Nil s)))"

text \<open>
  The loop of \<^verbatim>\<open>filewalk\<close> over the names, with the qids in \<^verbatim>\<open>ofcall.wqid\<close>: the file reached and the number of
  steps. \<^verbatim>\<open>walkfile\<close> gives up the reference to the file it starts from.
\<close>

fun filewalk_loop :: "nat \<Rightarrow> nat \<Rightarrow> nat \<Rightarrow> nat \<Rightarrow> Srvst \<Rightarrow> (nat option \<times> nat \<times> Srvst) outcome" where
  "filewalk_loop 0 i f a s = Ok (Some f, i, s)"
| "filewalk_loop (Suc k) i f a s =
    andthen (getr a s) (\<lambda>r.
    andthen (access (rd (wname (r_ifcall r)) i)) (\<lambda>w.
    andthen (cstr_at (r_buf r) w) (\<lambda>nm.
    andthen (walkfile f nm (s_tree s)) (\<lambda>(x, t).
    let s = s\<lparr>s_tree := t\<rparr> in
    case x of
      None \<Rightarrow> Ok (None, i, s)
    | Some f \<Rightarrow>
        andthen (get_file f t) (\<lambda>fl.
        if i < MAXWELEM then
          andthen (modr a (\<lambda>r. r\<lparr>r_ofcall := (r_ofcall r)\<lparr>wqid := (wqid (r_ofcall r))[i := Dir.qid (fl_dir fl)]\<rparr>\<rparr>) s) (\<lambda>s.
          filewalk_loop k (i + 1) f a s)
        else Undef)))))"

definition filewalk :: "Srv \<Rightarrow> nat \<Rightarrow> Srvst \<Rightarrow> Srvst outcome" where
  "filewalk srv a s =
    andthen (getr a s) (\<lambda>r.
    andthen (andthen (ptr (r_fid r)) (\<lambda>x. getf x s)) (\<lambda>fd.
    case f_file fd of
      None \<Rightarrow> Abort ''assert(f != nil)''
    | Some f \<Rightarrow>
        andthen (on_tree (incfile f) s) (\<lambda>s.
        andthen (filewalk_loop (unat (nwname (r_ifcall r))) 0 f a s) (\<lambda>(x, i, s).
        andthen (modr a (\<lambda>r. r\<lparr>r_ofcall := (r_ofcall r)\<lparr>nwqid := of_nat i\<rparr>\<rparr>) s) (\<lambda>s.
        andthen (case x of
            None \<Rightarrow> Ok s
          | Some f \<Rightarrow>
              andthen (get_file f (s_tree s)) (\<lambda>fl.
              andthen (ptr (r_newfid r)) (\<lambda>nf.
              modf nf (\<lambda>g. g\<lparr>f_file := Some f, f_qid := Dir.qid (fl_dir fl)\<rparr>) s))) (\<lambda>s.
        respond srv a Nil s)))))) "

text \<open>
  \<^verbatim>\<open>walk1\<close> and \<^verbatim>\<open>clone\<close> of \<^verbatim>\<open>walkandclone\<close> act on fids; they return an error or nil. The loop gives the number of
  names walked and the error.
\<close>

fun walkandclone_loop :: "(nat \<Rightarrow> byte list \<Rightarrow> Srvst \<Rightarrow> (cptr \<times> Srvst) outcome) \<Rightarrow> nat \<Rightarrow> nat \<Rightarrow> nat \<Rightarrow> nat \<Rightarrow> Srvst \<Rightarrow>
    (nat \<times> cptr \<times> Srvst) outcome" where
  "walkandclone_loop walk1 0 i nf a s = Ok (i, Nil, s)"
| "walkandclone_loop walk1 (Suc k) i nf a s =
    andthen (getr a s) (\<lambda>r.
    andthen (access (rd (wname (r_ifcall r)) i)) (\<lambda>w.
    andthen (cstr_at (r_buf r) w) (\<lambda>nm.
    andthen (walk1 nf nm s) (\<lambda>(e, s).
    if e \<noteq> Nil then Ok (i, e, s)
    else
      andthen (getf nf s) (\<lambda>g.
      if i < MAXWELEM then
        andthen (modr a (\<lambda>r. r\<lparr>r_ofcall := (r_ofcall r)\<lparr>wqid := (wqid (r_ofcall r))[i := f_qid g]\<rparr>\<rparr>) s) (\<lambda>s.
        walkandclone_loop walk1 k (i + 1) nf a s)
      else Undef)))))"

definition walkandclone :: "Srv \<Rightarrow> nat \<Rightarrow> (nat \<Rightarrow> byte list \<Rightarrow> Srvst \<Rightarrow> (cptr \<times> Srvst) outcome) \<Rightarrow>
    (nat \<Rightarrow> nat \<Rightarrow> Srvst \<Rightarrow> cptr outcome) option \<Rightarrow> Srvst \<Rightarrow> Srvst outcome" where
  "walkandclone srv a walk1 clone s =
    andthen (getr a s) (\<lambda>r.
    if r_fid r = r_newfid r \<and> 1 < nwname (r_ifcall r) then
      respond srv a (lit ''lib9p: unused documented feature not implemented'') s
    else
      andthen (ptr (r_fid r)) (\<lambda>x.
      andthen (ptr (r_newfid r)) (\<lambda>nf.
      andthen (if r_fid r \<noteq> r_newfid r then
          andthen (getf x s) (\<lambda>f.
          andthen (modf nf (\<lambda>g. g\<lparr>f_qid := f_qid f\<rparr>) s) (\<lambda>s.
          case clone of None \<Rightarrow> Ok (Nil, s) | Some c \<Rightarrow> andthen (c x nf s) (\<lambda>e. Ok (e, s))))
        else Ok (Nil, s)) (\<lambda>(e, s).
      if e \<noteq> Nil then respond srv a e s
      else
        andthen (walkandclone_loop walk1 (unat (nwname (r_ifcall r))) 0 nf a s) (\<lambda>(i, e, s).
        andthen (modr a (\<lambda>r. r\<lparr>r_ofcall := (r_ofcall r)\<lparr>nwqid := of_nat i\<rparr>\<rparr>) s) (\<lambda>s.
        if e \<noteq> Nil \<and> i = 0 then respond srv a e s else respond srv a Nil s))))))"

definition oldwalk1 :: "(Fid \<Rightarrow> byte list \<Rightarrow> cptr \<times> Qid) \<Rightarrow> nat \<Rightarrow> byte list \<Rightarrow> Srvst \<Rightarrow> (cptr \<times> Srvst) outcome" where
  "oldwalk1 walk1 x nm s =
    andthen (getf x s) (\<lambda>f.
    case walk1 f nm of (e, q) \<Rightarrow>
      if e \<noteq> Nil then Ok (e, s)
      else andthen (modf x (\<lambda>f. f\<lparr>f_qid := q\<rparr>) s) (\<lambda>s. Ok (Nil, s)))"

definition oldclone :: "Srv \<Rightarrow> nat \<Rightarrow> nat \<Rightarrow> Srvst \<Rightarrow> cptr outcome" where
  "oldclone srv x nf s =
    (case cb_clone srv of
       None \<Rightarrow> Ok Nil
     | Some c \<Rightarrow> andthen (getf x s) (\<lambda>f. andthen (getf nf s) (\<lambda>g. Ok (c f g))))"

definition swalk :: "Srv \<Rightarrow> nat \<Rightarrow> Srvst \<Rightarrow> Srvst outcome" where
  "swalk srv a s =
    andthen (getr a s) (\<lambda>r.
    let i = r_ifcall r in
    andthen (lookupfid (ucast (fid i)) s) (\<lambda>(x, s).
    andthen (modr a (\<lambda>r. r\<lparr>r_fid := x\<rparr>) s) (\<lambda>s.
    case x of
      None \<Rightarrow> respond srv a Eunknownfid s
    | Some x \<Rightarrow>
        andthen (getf x s) (\<lambda>f.
        if f_omode f \<noteq> - 1 then respond srv a (lit ''cannot clone open fid'') s
        else if nwname i \<noteq> 0 \<and> qtype (f_qid f) AND QTDIR = 0 then respond srv a Ewalknodir s
        else
          andthen (if fid i \<noteq> newfid i then
              andthen (allocfid srv (ucast (newfid i)) s) (\<lambda>(y, s).
              andthen (modr a (\<lambda>r. r\<lparr>r_newfid := y\<rparr>) s) (\<lambda>s.
              case y of
                None \<Rightarrow> Ok (False, s)
              | Some y \<Rightarrow>
                  andthen (getf x s) (\<lambda>f.
                  andthen (cstr (f_uid f)) (\<lambda>u.
                  andthen (modf y (\<lambda>g. g\<lparr>f_uid := estrdup9p u\<rparr>) s) (\<lambda>s. Ok (True, s))))))
            else
              andthen (incfidref x s) (\<lambda>s.
              andthen (modr a (\<lambda>r. r\<lparr>r_newfid := Some x\<rparr>) s) (\<lambda>s. Ok (True, s)))) (\<lambda>(ok, s).
          if \<not> ok then respond srv a Edupfid s
          else
            andthen (getf x s) (\<lambda>f.
            if f_file f \<noteq> None then filewalk srv a s
            else
              (case cb_walk1 srv of
                 Some w \<Rightarrow> walkandclone srv a (oldwalk1 w) (Some (oldclone srv)) s
               | None \<Rightarrow>
                   if has_walk srv then call a s else Abort ''no walk function, no file trees'')))))))"

text \<open>The access a mode asks for, and whether the fid may be opened with it.\<close>

definition open_access :: "byte \<Rightarrow> u32" where
  "open_access m =
    (let o1 = uint m mod 4;
         p = (if o1 = OREAD then AREAD else if o1 = OWRITE then AWRITE else if o1 = ORDWR then AREAD OR AWRITE else AEXEC)
     in if m AND OTRUNC \<noteq> 0 then p OR AWRITE else p)"

definition sopen :: "Srv \<Rightarrow> nat \<Rightarrow> Srvst \<Rightarrow> Srvst outcome" where
  "sopen srv a s =
    andthen (getr a s) (\<lambda>r.
    let i = r_ifcall r in
    andthen (lookupfid (ucast (fid i)) s) (\<lambda>(x, s).
    andthen (modr a (\<lambda>r. r\<lparr>r_fid := x\<rparr>) s) (\<lambda>s.
    case x of
      None \<Rightarrow> respond srv a Eunknownfid s
    | Some x \<Rightarrow>
        andthen (getf x s) (\<lambda>f.
        if f_omode f \<noteq> - 1 then respond srv a Ebotch s
        else if qtype (f_qid f) AND QTDIR \<noteq> 0 \<and> uint (Fcall.mode i AND NOT ORCLOSE) \<noteq> OREAD then respond srv a Eisdir s
        else
          let p = open_access (Fcall.mode i) in
          andthen (modr a (\<lambda>r. r\<lparr>r_ofcall := (r_ofcall r)\<lparr>Fcall.qid := f_qid f\<rparr>\<rparr>) s) (\<lambda>s.
          if qtype (f_qid f) AND QTDIR \<noteq> 0 \<and> p \<noteq> AREAD then respond srv a Eperm s
          else
            case f_file f of
              None \<Rightarrow> if has_open srv then call a s else respond srv a Nil s
            | Some y \<Rightarrow>
                andthen (get_file y (s_tree s)) (\<lambda>fl.
                andthen (hasperm fl (f_uid f) p) (\<lambda>ok.
                if \<not> ok then respond srv a Eperm s
                else
                  andthen (if Fcall.mode i AND ORCLOSE \<noteq> 0 then
                      andthen (access (fl_parent fl)) (\<lambda>z. andthen (get_file z (s_tree s)) (\<lambda>pf. hasperm pf (f_uid f) AWRITE))
                    else Ok True) (\<lambda>ok.
                  if \<not> ok then respond srv a Eperm s
                  else
                    andthen (modr a (\<lambda>r. r\<lparr>r_ofcall := (r_ofcall r)\<lparr>Fcall.qid := Dir.qid (fl_dir fl)\<rparr>\<rparr>) s) (\<lambda>s.
                    if qtype (Dir.qid (fl_dir fl)) AND QTDIR \<noteq> 0 then
                      andthen (opendirfile y (s_tree s)) (\<lambda>d.
                      andthen (modf x (\<lambda>f. f\<lparr>f_rdir := d\<rparr>) s) (\<lambda>s.
                      if d = None then respond srv a (lit ''opendirfile failed'') s
                      else if has_open srv then call a s else respond srv a Nil s))
                    else if has_open srv then call a s else respond srv a Nil s)))))))))"

definition screate :: "Srv \<Rightarrow> nat \<Rightarrow> Srvst \<Rightarrow> Srvst outcome" where
  "screate srv a s =
    andthen (getr a s) (\<lambda>r.
    andthen (lookupfid (ucast (fid (r_ifcall r))) s) (\<lambda>(x, s).
    andthen (modr a (\<lambda>r. r\<lparr>r_fid := x\<rparr>) s) (\<lambda>s.
    case x of
      None \<Rightarrow> respond srv a Eunknownfid s
    | Some x \<Rightarrow>
        andthen (getf x s) (\<lambda>f.
        if f_omode f \<noteq> - 1 then respond srv a Ebotch s
        else if qtype (f_qid f) AND QTDIR = 0 then respond srv a Ecreatenondir s
        else
          andthen (case f_file f of
              None \<Rightarrow> Ok True
            | Some y \<Rightarrow>
                andthen (get_file y (s_tree s)) (\<lambda>fl. hasperm fl (f_uid f) AWRITE)) (\<lambda>ok.
          if \<not> ok then respond srv a Eperm s
          else if has_create srv then call a s
          else respond srv a Enocreate s)))))"

definition sread :: "Srv \<Rightarrow> nat \<Rightarrow> Srvst \<Rightarrow> Srvst outcome" where
  "sread srv a s =
    andthen (getr a s) (\<lambda>r.
    let i = r_ifcall r in
    andthen (lookupfid (ucast (fid i)) s) (\<lambda>(x, s).
    andthen (modr a (\<lambda>r. r\<lparr>r_fid := x\<rparr>) s) (\<lambda>s.
    case x of
      None \<Rightarrow> respond srv a Eunknownfid s
    | Some x \<Rightarrow>
        andthen (getf x s) (\<lambda>f.
        if sint (count i) < 0 then respond srv a Ebotch s
        else if sint (offset i) < 0 \<or> qtype (f_qid f) AND QTDIR \<noteq> 0 \<and> offset i \<noteq> 0 \<and> offset i \<noteq> f_diroffset f then
          respond srv a Ebadoffset s
        else
          let n = (if count i > s_msize s - IOHDRSZ then s_msize s - IOHDRSZ else count i) in
          andthen (modr a (\<lambda>r. r\<lparr>r_ifcall := (r_ifcall r)\<lparr>count := n\<rparr>,
            r_ofcall := (r_ofcall r)\<lparr>data := Str (replicate (unat n) 0)\<rparr>\<rparr>) s) (\<lambda>s.
          let o1 = f_omode f mod 4 in
          if o1 \<noteq> OREAD \<and> o1 \<noteq> ORDWR \<and> o1 \<noteq> OEXEC then respond srv a Ebotch s
          else if qtype (f_qid f) AND QTDIR \<noteq> 0 \<and> f_file f \<noteq> None then
            andthen (access (f_rdir f)) (\<lambda>d.
            andthen (readdirfile d (replicate (unat n) 0) (unat n) (s_tree s)) (\<lambda>(d, b, m).
            andthen (modf x (\<lambda>f. f\<lparr>f_rdir := Some d\<rparr>) s) (\<lambda>s.
            andthen (modr a (\<lambda>r. r\<lparr>r_ofcall := (r_ofcall r)\<lparr>data := Str b, count := of_nat m\<rparr>\<rparr>) s) (\<lambda>s.
            respond srv a Nil s))))
          else if has_read srv then call a s
          else respond srv a (lit ''no srv->read'') s)))))"

fun hex_digits :: "nat \<Rightarrow> nat \<Rightarrow> byte list" where
  "hex_digits 0 n = []"
| "hex_digits (Suc k) n =
    (let d = n mod 16; c = of_nat (if d < 10 then 48 + d else 87 + d) in
     if n < 16 then [c] else hex_digits k (n div 16) @ [c])"

text \<open>\<^verbatim>\<open>%ux\<close> of an \<^verbatim>\<open>int\<close> of 32 bits has at most 8 digits.\<close>

definition write_error :: "int \<Rightarrow> cptr" where
  "write_error om = errbuf (bytes_of ''write on fid with open mode 0x'' @ hex_digits 8 (unat (of_int om :: u32)))"

definition swrite :: "Srv \<Rightarrow> nat \<Rightarrow> Srvst \<Rightarrow> Srvst outcome" where
  "swrite srv a s =
    andthen (getr a s) (\<lambda>r.
    let i = r_ifcall r in
    andthen (lookupfid (ucast (fid i)) s) (\<lambda>(x, s).
    andthen (modr a (\<lambda>r. r\<lparr>r_fid := x\<rparr>) s) (\<lambda>s.
    case x of
      None \<Rightarrow> respond srv a Eunknownfid s
    | Some x \<Rightarrow>
        andthen (getf x s) (\<lambda>f.
        if sint (count i) < 0 then respond srv a Ebotch s
        else if sint (offset i) < 0 then respond srv a Ebotch s
        else
          let n = (if count i > s_msize s - IOHDRSZ then s_msize s - IOHDRSZ else count i) in
          andthen (modr a (\<lambda>r. r\<lparr>r_ifcall := (r_ifcall r)\<lparr>count := n\<rparr>\<rparr>) s) (\<lambda>s.
          let o1 = f_omode f mod 4 in
          if o1 \<noteq> OWRITE \<and> o1 \<noteq> ORDWR then respond srv a (write_error (f_omode f)) s
          else if has_write srv then
            (case data i of
               Buf k \<Rightarrow>
                 andthen (access (wr (r_buf r) (k + unat n) [0])) (\<lambda>b.
                 andthen (modr a (\<lambda>r. r\<lparr>r_buf := b\<rparr>) s) (\<lambda>s. call a s))
             | _ \<Rightarrow> Undef)
          else respond srv a (lit ''no srv->write'') s)))))"

definition sclunk :: "Srv \<Rightarrow> nat \<Rightarrow> Srvst \<Rightarrow> Srvst outcome" where
  "sclunk srv a s =
    andthen (getr a s) (\<lambda>r.
    case removefid (ucast (fid (r_ifcall r))) s of (x, s) \<Rightarrow>
    andthen (modr a (\<lambda>r. r\<lparr>r_fid := x\<rparr>) s) (\<lambda>s.
    if x = None then respond srv a Eunknownfid s else respond srv a Nil s))"

definition sremove :: "Srv \<Rightarrow> nat \<Rightarrow> Srvst \<Rightarrow> Srvst outcome" where
  "sremove srv a s =
    andthen (getr a s) (\<lambda>r.
    case removefid (ucast (fid (r_ifcall r))) s of (x, s) \<Rightarrow>
    andthen (modr a (\<lambda>r. r\<lparr>r_fid := x\<rparr>) s) (\<lambda>s.
    case x of
      None \<Rightarrow> respond srv a Eunknownfid s
    | Some x \<Rightarrow>
        andthen (getf x s) (\<lambda>f.
        andthen (case f_file f of
            None \<Rightarrow> Ok True
          | Some y \<Rightarrow>
              andthen (get_file y (s_tree s)) (\<lambda>fl.
              andthen (access (fl_parent fl)) (\<lambda>z.
              andthen (get_file z (s_tree s)) (\<lambda>pf. hasperm pf (f_uid f) AWRITE)))) (\<lambda>ok.
        if \<not> ok then respond srv a Eperm s
        else if has_remove srv then call a s
        else respond srv a (if f_file f \<noteq> None then Nil else Enoremove) s))))"

definition dup_name :: "cptr \<Rightarrow> cptr outcome" where
  "dup_name s = (if s = Nil then Ok Nil else andthen (cstr s) (\<lambda>t. Ok (estrdup9p t)))"

definition sstat :: "Srv \<Rightarrow> nat \<Rightarrow> Srvst \<Rightarrow> Srvst outcome" where
  "sstat srv a s =
    andthen (getr a s) (\<lambda>r.
    andthen (lookupfid (ucast (fid (r_ifcall r))) s) (\<lambda>(x, s).
    andthen (modr a (\<lambda>r. r\<lparr>r_fid := x\<rparr>) s) (\<lambda>s.
    case x of
      None \<Rightarrow> respond srv a Eunknownfid s
    | Some x \<Rightarrow>
        andthen (getf x s) (\<lambda>f.
        andthen (case f_file f of
            None \<Rightarrow> Ok s
          | Some y \<Rightarrow>
              andthen (get_file y (s_tree s)) (\<lambda>fl.
              let d = fl_dir fl in
              andthen (dup_name (Dir.name d)) (\<lambda>s1.
              andthen (dup_name (uid d)) (\<lambda>s2.
              andthen (dup_name (gid d)) (\<lambda>s3.
              andthen (dup_name (muid d)) (\<lambda>s4.
              modr a (\<lambda>r. r\<lparr>r_d := d\<lparr>Dir.name := s1, uid := s2, gid := s3, muid := s4\<rparr>\<rparr>) s)))))) (\<lambda>s.
        if has_stat srv then call a s
        else if f_file f \<noteq> None then respond srv a Nil s
        else respond srv a Enostat s)))))"

text \<open>
  \<^verbatim>\<open>convM2D\<close> converts in place: it copies the strings to the start of the entry it reads, always to bytes
  before those still to be read, so that it reads what it would read from an unchanged copy.
\<close>

definition swstat :: "Srv \<Rightarrow> nat \<Rightarrow> Srvst \<Rightarrow> Srvst outcome" where
  "swstat srv a s =
    andthen (getr a s) (\<lambda>r.
    let i = r_ifcall r in
    andthen (lookupfid (ucast (fid i)) s) (\<lambda>(x, s).
    andthen (modr a (\<lambda>r. r\<lparr>r_fid := x\<rparr>) s) (\<lambda>s.
    case x of
      None \<Rightarrow> respond srv a Eunknownfid s
    | Some x \<Rightarrow>
        if \<not> has_wstat srv then respond srv a Enowstat s
        else
          (case stat i of
             Buf k \<Rightarrow>
               andthen (access (convM2D (drop k (r_buf r)) (unat (nstat i)) (r_d r) (Some (drop k (r_buf r))))) (\<lambda>(d, st, n).
               let st = (case st of Some st \<Rightarrow> st | None \<Rightarrow> []) in
               andthen (modr a (\<lambda>r. r\<lparr>r_d := d, r_buf := take k (r_buf r) @ st\<rparr>) s) (\<lambda>s.
               if n \<noteq> unat (nstat i) then respond srv a Ebaddir s
               else if NOT (Dir.type d) \<noteq> 0 then respond srv a (lit ''wstat -- attempt to change type'') s
               else if NOT (dev d) \<noteq> 0 then respond srv a (lit ''wstat -- attempt to change dev'') s
               else if NOT (qtype (Dir.qid d)) \<noteq> 0 \<or> NOT (vers (Dir.qid d)) \<noteq> 0 \<or> NOT (path (Dir.qid d)) \<noteq> 0 then
                 respond srv a (lit ''wstat -- attempt to change qid'') s
               else
                 andthen (if muid d = Nil then Ok [] else cstr_at st (muid d)) (\<lambda>m.
                 if m \<noteq> [] then respond srv a (lit ''wstat -- attempt to change muid'') s
                 else
                   andthen (getf x s) (\<lambda>f.
                   if NOT (Dir.mode d) \<noteq> 0 \<and> drop_bit 24 (Dir.mode d AND DMDIR) \<noteq> ucast (qtype (f_qid f) AND QTDIR) then
                     respond srv a (lit ''wstat -- attempt to change DMDIR bit'') s
                   else call a s))))
           | _ \<Rightarrow> Undef))))"

section \<open>The service loop\<close>

text \<open>
  \<^verbatim>\<open>read9pmsg\<close> on the bytes the connection has still to deliver, into \<^verbatim>\<open>rbuf\<close>: the result, the buffer and the
  bytes left. A length that is negative as an \<^verbatim>\<open>int\<close> is too small.
\<close>

definition read9pmsg :: "byte list \<Rightarrow> byte list \<Rightarrow> u32 \<Rightarrow> (int \<times> byte list \<times> byte list) outcome" where
  "read9pmsg inp b n =
    andthen (access (wr b 0 (take BIT32SZ inp))) (\<lambda>b.
    if length inp < BIT32SZ then Ok (0, b, [])
    else
      andthen (access (GBIT32 b 0)) (\<lambda>len.
      if sint len \<le> int BIT32SZ \<or> len > n then Ok (- 1, b, drop BIT32SZ inp)
      else
        let k = unat len - BIT32SZ; inp = drop BIT32SZ inp in
        andthen (access (wr b BIT32SZ (take k inp))) (\<lambda>b.
        if length inp < k then Ok (0, b, []) else Ok (sint len, b, drop k inp))))"

text \<open>\<open>junk\<close> is what the variable \<^verbatim>\<open>f\<close> holds before \<^verbatim>\<open>convM2S\<close> fills it.\<close>

definition getreq :: "Srv \<Rightarrow> Fcall \<Rightarrow> byte list \<Rightarrow> Srvst \<Rightarrow> (nat option \<times> byte list \<times> Srvst) outcome" where
  "getreq srv junk inp s =
    andthen (read9pmsg inp (s_rbuf s) (s_msize s)) (\<lambda>(n, rb, inp).
    let s = s\<lparr>s_rbuf := rb\<rparr> in
    if n \<le> 0 then Ok (None, inp, s)
    else
      andthen (access (rdn rb 0 (nat n))) (\<lambda>msg.
      andthen (access (convM2S (msg @ [0]) (nat n) junk)) (\<lambda>(b, f, k).
      if uint k \<noteq> n then Ok (None, inp, s)
      else
        let s = emit (Received (tag f)) s in
        andthen (allocreq srv (ucast (tag f)) s) (\<lambda>(x, s).
        case x of
          None \<Rightarrow>
            let a = length (reqs s) in
            Ok (Some a, inp, s\<lparr>reqs := reqs s @ [Some (zero_req\<lparr>r_ref := 1, r_tag := ucast (tag f), r_ifcall := f,
              r_error := Eduptag, r_buf := b\<rparr>)]\<rparr>)
        | Some a \<Rightarrow>
            andthen (modr a (\<lambda>r. r\<lparr>r_responded := False, r_buf := b, r_ifcall := f, r_ofcall := zero_fcall, r_type := Fcall.type f\<rparr>) s) (\<lambda>s.
            Ok (Some a, inp, s))))))"

definition dispatch :: "Srv \<Rightarrow> nat \<Rightarrow> Srvst \<Rightarrow> Srvst outcome" where
  "dispatch srv a s =
    andthen (getr a s) (\<lambda>r.
    if r_error r \<noteq> Nil then respond srv a (r_error r) s
    else
      let t = Fcall.type (r_ifcall r) in
      if t = Tversion then sversion srv a s
      else if t = Tauth then sauth srv a s
      else if t = Tattach then sattach srv a s
      else if t = Tflush then sflush srv a s
      else if t = Twalk then swalk srv a s
      else if t = Topen then sopen srv a s
      else if t = Tcreate then screate srv a s
      else if t = Tread then sread srv a s
      else if t = Twrite then swrite srv a s
      else if t = Tclunk then sclunk srv a s
      else if t = Tremove then sremove srv a s
      else if t = Tstat then sstat srv a s
      else if t = Twstat then swstat srv a s
      else respond srv a (lit ''unknown message'') s)"

text \<open>The state in which the loop starts, and one turn of it, which ends the loop when there is no request.\<close>

definition srv_init :: "Tree \<Rightarrow> u32 \<Rightarrow> Srvst" where
  "srv_init t m =
    (let m = (if m = 0 then 8192 + IOHDRSZ else m)
     in \<lparr>fids = [], reqs = [], s_tree = t, fpool = allocmap, rpool = allocmap, s_msize = m,
          s_rbuf = replicate (unat m) 0, s_wbuf = replicate (unat m) 0, pending = [], log = []\<rparr>)"

definition srv_turn :: "Srv \<Rightarrow> Fcall \<Rightarrow> byte list \<Rightarrow> Srvst \<Rightarrow> (bool \<times> byte list \<times> Srvst) outcome" where
  "srv_turn srv junk inp s =
    andthen (getreq srv junk inp s) (\<lambda>(x, inp, s).
    case x of
      None \<Rightarrow> Ok (False, inp, s)
    | Some a \<Rightarrow> andthen (dispatch srv a s) (\<lambda>s. Ok (True, inp, s)))"

end
