(* ===== verification/NineRef.thy ===== *)
theory NineRef
  imports NineSrv NinePSpec
begin

text \<open>
  References in the state of the 9P server: the counts of fids and requests against the references that exist,
  and what the operations on the pools and \<^verbatim>\<open>closereq\<close> do to them.
\<close>

section \<open>Objects and references\<close>

definition fidat :: "Srvst \<Rightarrow> nat \<Rightarrow> Fid option" where
  "fidat s a = (case rd (fids s) a of Some x \<Rightarrow> x | None \<Rightarrow> None)"

definition reqat :: "Srvst \<Rightarrow> nat \<Rightarrow> Req option" where
  "reqat s a = (case rd (reqs s) a of Some x \<Rightarrow> x | None \<Rightarrow> None)"

text \<open>The sum of a weight over the requests: references to a fid or request, unanswered tags.\<close>

definition tot :: "(Req option \<Rightarrow> nat) \<Rightarrow> Srvst \<Rightarrow> nat" where
  "tot w s = sum_list (map w (reqs s))"

definition wfid :: "nat \<Rightarrow> Req option \<Rightarrow> nat" where
  "wfid x q = (case q of None \<Rightarrow> 0
     | Some r \<Rightarrow> of_bool (r_fid r = Some x) + of_bool (r_newfid r = Some x) + of_bool (r_afid r = Some x))"

definition wold :: "nat \<Rightarrow> Req option \<Rightarrow> nat" where
  "wold a q = (case q of None \<Rightarrow> 0 | Some r \<Rightarrow> of_bool (r_oldreq r = Some a))"

definition wout :: "u16 \<Rightarrow> Req option \<Rightarrow> nat" where
  "wout t q = (case q of None \<Rightarrow> 0 | Some r \<Rightarrow> of_bool (\<not> r_responded r \<and> tag (r_ifcall r) = t))"

lemma w_None [simp]: "wfid x None = 0" "wold a None = 0" "wout t None = 0"
  by (simp_all add: wfid_def wold_def wout_def)

lemma getf_eq: "getf a s = access (fidat s a)"
  by (simp add: getf_def fidat_def access_def split: option.splits)

lemma getr_eq: "getr a s = access (reqat s a)"
  by (simp add: getr_def reqat_def access_def split: option.splits)

lemma getf_Some [simp]: "fidat s a = Some f \<Longrightarrow> getf a s = Ok f"
  by (simp add: getf_eq)

lemma getr_Some [simp]: "reqat s a = Some r \<Longrightarrow> getr a s = Ok r"
  by (simp add: getr_eq)

lemma modf_Some [simp]: "fidat s a = Some f \<Longrightarrow> modf a g s = Ok (putf a (Some (g f)) s)"
  by (simp add: modf_def)

lemma modr_Some [simp]: "reqat s a = Some r \<Longrightarrow> modr a g s = Ok (putr a (Some (g r)) s)"
  by (simp add: modr_def)

lemma fidat_less: "fidat s a \<noteq> None \<Longrightarrow> a < length (fids s)"
  by (auto simp: fidat_def rd_def split: if_splits)

lemma reqat_less: "reqat s a \<noteq> None \<Longrightarrow> a < length (reqs s)"
  by (auto simp: reqat_def rd_def split: if_splits)

lemma reqat_nth: "a < length (reqs s) \<Longrightarrow> reqs s ! a = reqat s a"
  by (simp add: reqat_def rd_def)

text \<open>Which parts of the state the writers change.\<close>

lemma fidat_putf: "a < length (fids s) \<Longrightarrow> fidat (putf a x s) b = (if b = a then x else fidat s b)"
  by (auto simp: fidat_def putf_def rd_def)

lemma reqat_putr: "a < length (reqs s) \<Longrightarrow> reqat (putr a x s) b = (if b = a then x else reqat s b)"
  by (auto simp: reqat_def putr_def rd_def)

lemma putf_other [simp]:
  "reqat (putf a x s) = reqat s" "reqs (putf a x s) = reqs s" "fpool (putf a x s) = fpool s" "rpool (putf a x s) = rpool s"
  "s_tree (putf a x s) = s_tree s" "s_msize (putf a x s) = s_msize s" "s_rbuf (putf a x s) = s_rbuf s"
  "s_wbuf (putf a x s) = s_wbuf s" "pending (putf a x s) = pending s" "log (putf a x s) = log s" "tot w (putf a x s) = tot w s"
  "length (fids (putf a x s)) = length (fids s)"
  by (simp_all add: putf_def reqat_def tot_def fun_eq_iff)

lemma putr_other [simp]:
  "fidat (putr a x s) = fidat s" "fids (putr a x s) = fids s" "fpool (putr a x s) = fpool s" "rpool (putr a x s) = rpool s"
  "s_tree (putr a x s) = s_tree s" "s_msize (putr a x s) = s_msize s" "s_rbuf (putr a x s) = s_rbuf s"
  "s_wbuf (putr a x s) = s_wbuf s" "pending (putr a x s) = pending s" "log (putr a x s) = log s"
  "length (reqs (putr a x s)) = length (reqs s)"
  by (simp_all add: putr_def fidat_def fun_eq_iff)

lemma emit_other [simp]:
  "fidat (emit e s) = fidat s" "reqat (emit e s) = reqat s" "fids (emit e s) = fids s" "reqs (emit e s) = reqs s"
  "fpool (emit e s) = fpool s" "rpool (emit e s) = rpool s" "s_tree (emit e s) = s_tree s" "s_msize (emit e s) = s_msize s"
  "s_rbuf (emit e s) = s_rbuf s" "s_wbuf (emit e s) = s_wbuf s" "pending (emit e s) = pending s" "tot w (emit e s) = tot w s"
  by (simp_all add: emit_def fidat_def reqat_def tot_def fun_eq_iff)

lemma field_other [simp]:
  "fidat (s\<lparr>fpool := m\<rparr>) = fidat s" "reqat (s\<lparr>fpool := m\<rparr>) = reqat s" "tot w (s\<lparr>fpool := m\<rparr>) = tot w s"
  "fidat (s\<lparr>rpool := m\<rparr>) = fidat s" "reqat (s\<lparr>rpool := m\<rparr>) = reqat s" "tot w (s\<lparr>rpool := m\<rparr>) = tot w s"
  "fidat (s\<lparr>s_wbuf := b\<rparr>) = fidat s" "reqat (s\<lparr>s_wbuf := b\<rparr>) = reqat s" "tot w (s\<lparr>s_wbuf := b\<rparr>) = tot w s"
  "fidat (s\<lparr>s_rbuf := b\<rparr>) = fidat s" "reqat (s\<lparr>s_rbuf := b\<rparr>) = reqat s" "tot w (s\<lparr>s_rbuf := b\<rparr>) = tot w s"
  "fidat (s\<lparr>s_msize := n\<rparr>) = fidat s" "reqat (s\<lparr>s_msize := n\<rparr>) = reqat s" "tot w (s\<lparr>s_msize := n\<rparr>) = tot w s"
  "fidat (s\<lparr>pending := l\<rparr>) = fidat s" "reqat (s\<lparr>pending := l\<rparr>) = reqat s" "tot w (s\<lparr>pending := l\<rparr>) = tot w s"
  by (simp_all add: fidat_def reqat_def tot_def fun_eq_iff)

lemma sum_list_upd: "a < length l \<Longrightarrow> sum_list (map w (l[a := x])) + w (l ! a) = sum_list (map w l) + (w x :: nat)"
proof (induction l arbitrary: a)
  case (Cons y l)
  then show ?case by (cases a) auto
qed simp

lemma tot_putr: "a < length (reqs s) \<Longrightarrow> tot w (putr a x s) + w (reqat s a) = tot w s + w x"
  using sum_list_upd[of a "reqs s" w x] by (simp add: tot_def putr_def reqat_nth)

lemma tot_ge: "w None = 0 \<Longrightarrow> w (reqat s a) \<le> tot w s"
proof (cases "a < length (reqs s)")
  case True
  then have "w (reqat s a) \<in> set (map w (reqs s))" using reqat_nth[OF True] nth_mem[OF True] by auto
  then show ?thesis unfolding tot_def by (intro member_le_sum_list) simp_all
next
  case False
  moreover assume "w None = 0"
  ultimately show ?thesis by (simp add: reqat_def rd_def)
qed

lemma tot_0I: "(\<And>a q. reqat s a = Some q \<Longrightarrow> w (Some q) = 0) \<Longrightarrow> w None = 0 \<Longrightarrow> tot w s = 0"
proof -
  assume a: "\<And>a q. reqat s a = Some q \<Longrightarrow> w (Some q) = 0" "w None = 0"
  have "w x = 0" if "x \<in> set (reqs s)" for x
  proof -
    obtain i where "i < length (reqs s)" "reqs s ! i = x" using \<open>x \<in> set (reqs s)\<close> by (auto simp: in_set_conv_nth)
    then show ?thesis using a reqat_nth[of i s] by (cases x) auto
  qed
  then show ?thesis by (simp add: tot_def)
qed

lemma tot_pos: "0 < tot w s \<Longrightarrow> w None = 0 \<Longrightarrow> \<exists>a q. reqat s a = Some q \<and> 0 < w (Some q)"
  using tot_0I[of s w] by (metis gr0I less_irrefl)

section \<open>Fids\<close>

definition uid_ok :: "Fid \<Rightarrow> bool" where
  "uid_ok f \<longleftrightarrow> (\<exists>u. cstr (f_uid f) = Ok u)"

text \<open>
  The count of a fid is the number of references to it: from the pool, from requests, and \<open>E x\<close> more held by the
  code that runs. A fid has no file, and the user of a fid in the pool is known, except for the fids in \<open>Y\<close>.
\<close>

definition fid_inv :: "nat set \<Rightarrow> (nat \<Rightarrow> nat) \<Rightarrow> Srvst \<Rightarrow> bool" where
  "fid_inv Y E s \<longleftrightarrow> imap_ok (fpool s) \<and>
    (\<forall>n x. imap (fpool s) n = Some x \<longrightarrow> (\<exists>f. fidat s x = Some f \<and> f_fid f = n \<and> (x \<in> Y \<or> uid_ok f))) \<and>
    (\<forall>x f. fidat s x = Some f \<longrightarrow> f_file f = None \<and> 0 < f_ref f \<and>
       f_ref f = int (of_bool (imap (fpool s) (f_fid f) = Some x) + tot (wfid x) s + E x)) \<and>
    (\<forall>x. 0 < tot (wfid x) s + E x \<longrightarrow> fidat s x \<noteq> None)"

lemma fid_inv_pool: "fid_inv Y E s \<Longrightarrow> imap (fpool s) n = Some x \<Longrightarrow> \<exists>f. fidat s x = Some f \<and> f_fid f = n \<and> (x \<in> Y \<or> uid_ok f)"
  by (simp add: fid_inv_def)

lemma fid_inv_fid:
  "fid_inv Y E s \<Longrightarrow> fidat s x = Some f \<Longrightarrow> f_file f = None \<and> 0 < f_ref f \<and>
     f_ref f = int (of_bool (imap (fpool s) (f_fid f) = Some x) + tot (wfid x) s + E x)"
  unfolding fid_inv_def by blast

lemma fid_inv_ref: "fid_inv Y E s \<Longrightarrow> 0 < tot (wfid x) s + E x \<Longrightarrow> \<exists>f. fidat s x = Some f"
  by (auto simp: fid_inv_def)

lemma fid_invI:
  assumes "imap_ok (fpool s)"
    "\<And>n x. imap (fpool s) n = Some x \<Longrightarrow> \<exists>f. fidat s x = Some f \<and> f_fid f = n \<and> (x \<in> Y \<or> uid_ok f)"
    "\<And>x f. fidat s x = Some f \<Longrightarrow> f_file f = None \<and> 0 < f_ref f \<and>
       f_ref f = int (of_bool (imap (fpool s) (f_fid f) = Some x) + tot (wfid x) s + E x)"
    "\<And>x. 0 < tot (wfid x) s + E x \<Longrightarrow> fidat s x \<noteq> None"
  shows "fid_inv Y E s"
  unfolding fid_inv_def using assms by blast

text \<open>The invariant depends on the fids, their pool and the number of references only.\<close>

lemma fid_inv_cong:
  assumes "fid_inv Y E s" "fpool s' = fpool s" "fidat s' = fidat s" "\<And>x. tot (wfid x) s' + E' x = tot (wfid x) s + E x" "Y \<subseteq> Y'"
  shows "fid_inv Y' E' s'"
proof (rule fid_invI)
  show "imap_ok (fpool s')" using assms(1,2) by (simp add: fid_inv_def)
  show "\<exists>f. fidat s' x = Some f \<and> f_fid f = n \<and> (x \<in> Y' \<or> uid_ok f)" if "imap (fpool s') n = Some x" for n x
    using fid_inv_pool[OF assms(1), of n x] that assms(2,3,5) by auto
  show "f_file f = None \<and> 0 < f_ref f \<and> f_ref f = int (of_bool (imap (fpool s') (f_fid f) = Some x) + tot (wfid x) s' + E' x)"
    if "fidat s' x = Some f" for x f
    using fid_inv_fid[OF assms(1), of x f] that assms(2,3) assms(4)[of x] by (simp add: algebra_simps)
  show "fidat s' x \<noteq> None" if "0 < tot (wfid x) s' + E' x" for x
    using fid_inv_ref[OF assms(1), of x] that assms(3) assms(4)[of x] by simp
qed

text \<open>Changes of a fid that keep its name, file and count.\<close>

lemma fid_inv_putf:
  assumes "fid_inv Y E s" "fidat s x = Some f" "f_fid g = f_fid f" "f_file g = None" "f_ref g = f_ref f"
    "uid_ok g \<or> x \<in> Y' \<or> (\<forall>n. imap (fpool s) n \<noteq> Some x) \<or> f_uid g = f_uid f \<and> x \<notin> Y" "Y - {x} \<subseteq> Y'"
  shows "fid_inv Y' E (putf x (Some g) s)"
proof -
  have l: "x < length (fids s)" using fidat_less assms(2) by simp
  show ?thesis
  proof (rule fid_invI)
    show "imap_ok (fpool (putf x (Some g) s))" using assms(1) by (simp add: fid_inv_def)
    show "\<exists>h. fidat (putf x (Some g) s) y = Some h \<and> f_fid h = n \<and> (y \<in> Y' \<or> uid_ok h)" if "imap (fpool (putf x (Some g) s)) n = Some y" for n y
      using fid_inv_pool[OF assms(1), of n y] that assms l by (cases "y = x") (auto simp: fidat_putf uid_ok_def)
    show "f_file h = None \<and> 0 < f_ref h \<and>
        f_ref h = int (of_bool (imap (fpool (putf x (Some g) s)) (f_fid h) = Some y) + tot (wfid y) (putf x (Some g) s) + E y)"
      if "fidat (putf x (Some g) s) y = Some h" for y h
      using fid_inv_fid[OF assms(1), of y] that assms l by (cases "y = x") (auto simp: fidat_putf)
    show "fidat (putf x (Some g) s) y \<noteq> None" if "0 < tot (wfid y) (putf x (Some g) s) + E y" for y
      using fid_inv_ref[OF assms(1), of y] that l by (auto simp: fidat_putf)
  qed
qed

text \<open>What the operations on fids leave alone.\<close>

definition nrecv :: "u16 \<Rightarrow> Srvst \<Rightarrow> nat" where
  "nrecv t s = length (filter (\<lambda>e. e = Received t) (log s))"

text \<open>The tag of a message on the wire.\<close>

definition sent_tag :: "event \<Rightarrow> u16 option" where
  "sent_tag e = (case e of Sent b \<Rightarrow> GBIT16 b 5 | _ \<Rightarrow> None)"

definition nsent :: "u16 \<Rightarrow> Srvst \<Rightarrow> nat" where
  "nsent t s = length (filter (\<lambda>e. sent_tag e = Some t) (log s))"

definition keeps :: "Srvst \<Rightarrow> Srvst \<Rightarrow> bool" where
  "keeps s s' \<longleftrightarrow> rpool s' = rpool s \<and> s_msize s' = s_msize s \<and> s_wbuf s' = s_wbuf s \<and> s_rbuf s' = s_rbuf s \<and>
     pending s' = pending s \<and> (\<forall>t. nrecv t s' = nrecv t s \<and> nsent t s' = nsent t s)"

lemma keeps_refl [simp]: "keeps s s"
  by (simp add: keeps_def)

lemma keeps_trans: "keeps s s' \<Longrightarrow> keeps s' s'' \<Longrightarrow> keeps s s''"
  by (simp add: keeps_def)

lemma keeps_put [simp]: "keeps s (putf a x s)" "keeps s (putr a y s)" "keeps s (s\<lparr>fpool := m\<rparr>)" "keeps s (s\<lparr>fids := l\<rparr>)" "keeps s (s\<lparr>reqs := l'\<rparr>)"
  by (simp_all add: keeps_def nrecv_def nsent_def)

lemma keeps_emit [simp]: "keeps s (emit (Destroyfid a) s)" "keeps s (emit (Destroyreq a) s)"
  by (simp_all add: keeps_def nrecv_def nsent_def emit_def sent_tag_def)

lemma closefid_spec:
  assumes "fid_inv Y E s" "0 < E x"
  obtains s' where "closefid srv (Some x) s = Ok s'" "fid_inv Y (E(x := E x - 1)) s'" "keeps s s'" "reqs s' = reqs s" "fpool s' = fpool s"
    "s_tree s' = s_tree s" "\<And>y. y \<noteq> x \<Longrightarrow> fidat s' y = fidat s y" "\<And>g. fidat s' x = Some g \<Longrightarrow> \<exists>f. fidat s x = Some f \<and> g = f\<lparr>f_ref := f_ref g\<rparr>"
proof -
  obtain f where f: "fidat s x = Some f" using fid_inv_ref[OF assms(1), of x] assms(2) by auto
  have l: "x < length (fids s)" using fidat_less f by simp
  note i = fid_inv_fid[OF assms(1) f]
  define g where "g = f\<lparr>f_ref := f_ref f - 1\<rparr>"
  have fg: "fidat (putf x (Some g) s) x = Some g" using l by (simp add: fidat_putf)
  show ?thesis
  proof (cases "f_ref g = 0")
    case False
    have "closefid srv (Some x) s = Ok (putf x (Some g) s)"
      using f l fg False by (simp add: closefid_def ptr_def g_def)
    moreover have "fid_inv Y (E(x := E x - 1)) (putf x (Some g) s)"
    proof (rule fid_invI)
      show "imap_ok (fpool (putf x (Some g) s))" using assms(1) by (simp add: fid_inv_def)
      show "\<exists>h. fidat (putf x (Some g) s) y = Some h \<and> f_fid h = n \<and> (y \<in> Y \<or> uid_ok h)" if "imap (fpool (putf x (Some g) s)) n = Some y" for n y
        using fid_inv_pool[OF assms(1), of n y] that f l by (cases "y = x") (auto simp: fidat_putf g_def uid_ok_def)
      show "f_file h = None \<and> 0 < f_ref h \<and>
          f_ref h = int (of_bool (imap (fpool (putf x (Some g) s)) (f_fid h) = Some y) + tot (wfid y) (putf x (Some g) s) + (E(x := E x - 1)) y)"
        if "fidat (putf x (Some g) s) y = Some h" for y h
        using fid_inv_fid[OF assms(1), of y h] that i False assms(2) l by (cases "y = x") (auto simp: fidat_putf g_def of_nat_diff)
      show "fidat (putf x (Some g) s) y \<noteq> None" if "0 < tot (wfid y) (putf x (Some g) s) + (E(x := E x - 1)) y" for y
        using fid_inv_ref[OF assms(1), of y] that l by (auto simp: fidat_putf split: if_splits)
    qed
    ultimately show ?thesis using that[of "putf x (Some g) s"] f l by (simp add: fidat_putf g_def)
  next
    case True
    have z: "imap (fpool s) (f_fid f) \<noteq> Some x" "tot (wfid x) s = 0" "E x = 1" using True i assms(2) by (auto simp: g_def of_bool_def split: if_splits)
    define e where "e = (if has_destroyfid srv then emit (Destroyfid x) (putf x (Some g) s) else putf x (Some g) s)"
    have e: "fpool e = fpool s" "reqs e = reqs s" "length (fids e) = length (fids s)" "fidat e = fidat (putf x (Some g) s)" "s_tree e = s_tree s"
      "tot w e = tot w s" "keeps s e" for w
      using keeps_trans[OF keeps_put(1) keeps_emit(1)] by (simp_all add: e_def)
    let ?s = "putf x None e"
    have fs: "fidat ?s y = (if y = x then None else fidat s y)" for y using fidat_putf[of x e None y] l by (simp add: e fidat_putf)
    have "closefid srv (Some x) s = Ok ?s"
      using f l fg True i by (simp add: closefid_def ptr_def g_def Let_def e_def)
    moreover have "fid_inv Y (E(x := E x - 1)) ?s"
    proof (rule fid_invI)
      show "imap_ok (fpool ?s)" using assms(1) by (simp add: fid_inv_def e)
      show "\<exists>h. fidat ?s y = Some h \<and> f_fid h = n \<and> (y \<in> Y \<or> uid_ok h)" if "imap (fpool ?s) n = Some y" for n y
      proof -
        have "imap (fpool s) n = Some y" using that by (simp add: e)
        then obtain h where h: "fidat s y = Some h" "f_fid h = n" "y \<in> Y \<or> uid_ok h" using fid_inv_pool[OF assms(1)] by blast
        then have "y \<noteq> x" using z(1) f \<open>imap (fpool s) n = Some y\<close> by auto
        then show ?thesis using h fs by simp
      qed
      show "f_file h = None \<and> 0 < f_ref h \<and>
          f_ref h = int (of_bool (imap (fpool ?s) (f_fid h) = Some y) + tot (wfid y) ?s + (E(x := E x - 1)) y)"
        if "fidat ?s y = Some h" for y h
        using fid_inv_fid[OF assms(1), of y h] that fs by (auto simp: e split: if_splits)
      show "fidat ?s y \<noteq> None" if "0 < tot (wfid y) ?s + (E(x := E x - 1)) y" for y
        using fid_inv_ref[OF assms(1), of y] that fs z by (auto simp: e split: if_splits)
    qed
    ultimately show ?thesis using that[of ?s] fs keeps_trans[OF e(7) keeps_put(1)] by (simp add: e)
  qed
qed

text \<open>A new fid with two references that is not in the pool yet.\<close>

definition new_fid :: "u64 \<Rightarrow> int \<Rightarrow> Fid" where
  "new_fid n r = \<lparr>f_fid = n, f_omode = - 1, f_file = None, f_uid = Nil, f_qid = mkqid 0 0 0, f_rdir = None, f_ref = r, f_diroffset = 0\<rparr>"

definition add_fid :: "u64 \<Rightarrow> Srvst \<Rightarrow> Srvst" where
  "add_fid n s = s\<lparr>fids := fids s @ [Some (new_fid n 2)]\<rparr>"

lemma add_fid_simps [simp]:
  "reqs (add_fid n s) = reqs s" "reqat (add_fid n s) = reqat s" "tot w (add_fid n s) = tot w s" "fpool (add_fid n s) = fpool s"
  "s_tree (add_fid n s) = s_tree s" "keeps s (add_fid n s)" "fidat (add_fid n s) y = (if y = length (fids s) then Some (new_fid n 2) else fidat s y)"
  by (auto simp: add_fid_def reqat_def tot_def fun_eq_iff fidat_def rd_def nth_append)

lemma fresh_fid: "fidat s (length (fids s)) = None"
  by (simp add: fidat_def rd_def)

lemma putf_last: "putf (length (fids s)) y (s\<lparr>fids := fids s @ [x]\<rparr>) = s\<lparr>fids := fids s @ [y]\<rparr>"
  by (simp add: putf_def)

lemma getf_last: "getf (length (fids s)) (s\<lparr>fids := fids s @ [Some x]\<rparr>) = Ok x"
  by (simp add: getf_def rd_def)

lemma allocfid_eq:
  "allocfid srv n s =
    (case caninsertkey (fpool s) n (length (fids s)) of (ok, m) \<Rightarrow>
       if \<not> ok then
         andthen (closefid srv (Some (length (fids s))) (add_fid n s)) (\<lambda>s1.
         andthen (closefid srv (Some (length (fids s))) s1) (\<lambda>s1. Ok (None, s1)))
       else Ok (Some (length (fids s)), (add_fid n s)\<lparr>fpool := m\<rparr>))"
proof -
  have "andthen (incfidref (length (fids s)) (s\<lparr>fids := fids s @ [Some (new_fid n 0)]\<rparr>)) (incfidref (length (fids s))) = Ok (add_fid n s)"
    by (simp add: incfidref_def modf_def getf_last putf_last add_fid_def) (simp add: new_fid_def)
  then have e: "andthen (incfidref (length (fids s)) (s\<lparr>fids := fids s @ [Some (new_fid n 0)]\<rparr>)) (\<lambda>s1. andthen (incfidref (length (fids s)) s1) k) = k (add_fid n s)" for k
    by (simp flip: andthen_assoc)
  show ?thesis
    unfolding allocfid_def Let_def new_fid_def[symmetric] e by (simp add: case_prod_unfold)
qed

lemma fid_inv_add:
  assumes "fid_inv Y E s"
  shows "fid_inv Y (E(length (fids s) := E (length (fids s)) + 2)) (add_fid n s)"
proof -
  let ?x = "length (fids s)"
  have z: "tot (wfid ?x) s + E ?x = 0" using fid_inv_ref[OF assms, of ?x] fresh_fid[of s] by (metis gr0I option.distinct(1))
  have p: "imap (fpool s) k \<noteq> Some ?x" for k using fid_inv_pool[OF assms, of k ?x] fresh_fid[of s] by auto
  show ?thesis
  proof (rule fid_invI)
    show "imap_ok (fpool (add_fid n s))" using assms by (simp add: fid_inv_def)
    show "\<exists>f. fidat (add_fid n s) y = Some f \<and> f_fid f = k \<and> (y \<in> Y \<or> uid_ok f)" if "imap (fpool (add_fid n s)) k = Some y" for k y
      using fid_inv_pool[OF assms, of k y] that p by auto
    show "f_file f = None \<and> 0 < f_ref f \<and> f_ref f = int (of_bool (imap (fpool (add_fid n s)) (f_fid f) = Some y) +
        tot (wfid y) (add_fid n s) + (E(?x := E ?x + 2)) y)" if "fidat (add_fid n s) y = Some f" for y f
      using fid_inv_fid[OF assms, of y f] that z p by (auto simp: new_fid_def split: if_splits)
    show "fidat (add_fid n s) y \<noteq> None" if "0 < tot (wfid y) (add_fid n s) + (E(?x := E ?x + 2)) y" for y
      using fid_inv_ref[OF assms, of y] that by (auto split: if_splits)
  qed
qed

lemma fid_inv_insert:
  assumes "fid_inv Y E s" "fidat s x = Some f" "imap (fpool s) (f_fid f) = None" "0 < E x" "imap_ok m" "imap m = (imap (fpool s))(f_fid f \<mapsto> x)"
  shows "fid_inv (insert x Y) (E(x := E x - 1)) (s\<lparr>fpool := m\<rparr>)"
proof (rule fid_invI)
  show "imap_ok (fpool (s\<lparr>fpool := m\<rparr>))" using assms(5) by simp
  show "\<exists>f. fidat (s\<lparr>fpool := m\<rparr>) y = Some f \<and> f_fid f = k \<and> (y \<in> insert x Y \<or> uid_ok f)" if "imap (fpool (s\<lparr>fpool := m\<rparr>)) k = Some y" for k y
    using fid_inv_pool[OF assms(1), of k y] that assms by (auto split: if_splits)
  show "f_file g = None \<and> 0 < f_ref g \<and> f_ref g = int (of_bool (imap (fpool (s\<lparr>fpool := m\<rparr>)) (f_fid g) = Some y) +
      tot (wfid y) (s\<lparr>fpool := m\<rparr>) + (E(x := E x - 1)) y)" if "fidat (s\<lparr>fpool := m\<rparr>) y = Some g" for y g
  proof (cases "y = x")
    case True
    then show ?thesis using fid_inv_fid[OF assms(1,2)] that assms(2,3,4,6) by (auto simp: of_nat_diff)
  next
    case False
    then show ?thesis using fid_inv_fid[OF assms(1), of y g] that assms(3,6) by auto
  qed
  show "fidat (s\<lparr>fpool := m\<rparr>) y \<noteq> None" if "0 < tot (wfid y) (s\<lparr>fpool := m\<rparr>) + (E(x := E x - 1)) y" for y
    using fid_inv_ref[OF assms(1), of y] that assms(2) by (auto split: if_splits)
qed

lemma allocfid_spec:
  assumes "fid_inv Y E s"
  obtains (dup) s' where "allocfid srv n s = Ok (None, s')" "imap (fpool s) n \<noteq> None" "fid_inv Y E s'" "keeps s s'" "reqs s' = reqs s"
      "fpool s' = fpool s" "fidat s' = fidat s" "s_tree s' = s_tree s"
    | (new) x s' where "allocfid srv n s = Ok (Some x, s')" "imap (fpool s) n = None" "fid_inv (insert x Y) (E(x := E x + 1)) s'" "keeps s s'"
      "reqs s' = reqs s" "imap (fpool s') = (imap (fpool s))(n \<mapsto> x)" "fidat s x = None" "fidat s' = (fidat s)(x \<mapsto> new_fid n 2)" "s_tree s' = s_tree s"
proof -
  let ?x = "length (fids s)"
  have ok: "imap_ok (fpool s)" using assms by (simp add: fid_inv_def)
  obtain b m where bm: "caninsertkey (fpool s) n ?x = (b, m)" by (cases "caninsertkey (fpool s) n ?x")
  have i: "fid_inv Y (E(?x := E ?x + 2)) (add_fid n s)" by (rule fid_inv_add[OF assms])
  show ?thesis
  proof (cases rule: im.can_cases[OF ok bm])
    case 1
    have "fid_inv (insert ?x Y) ((E(?x := E ?x + 2))(?x := (E(?x := E ?x + 2)) ?x - 1)) ((add_fid n s)\<lparr>fpool := m\<rparr>)"
      using 1 by (intro fid_inv_insert[OF i, of ?x "new_fid n 2"]) (simp_all add: new_fid_def)
    moreover have "(E(?x := E ?x + 2))(?x := (E(?x := E ?x + 2)) ?x - 1) = E(?x := E ?x + 1)" by auto
    ultimately show ?thesis
      using new[of ?x "(add_fid n s)\<lparr>fpool := m\<rparr>"] 1 bm fresh_fid[of s] keeps_trans[OF add_fid_simps(6) keeps_put(3)]
      by (simp add: allocfid_eq fun_eq_iff)
  next
    case 2
    obtain s1 where s1: "closefid srv (Some ?x) (add_fid n s) = Ok s1" "fid_inv Y ((E(?x := E ?x + 2))(?x := (E(?x := E ?x + 2)) ?x - 1)) s1"
      "keeps (add_fid n s) s1" "reqs s1 = reqs (add_fid n s)" "fpool s1 = fpool (add_fid n s)" "s_tree s1 = s_tree (add_fid n s)"
      "\<And>y. y \<noteq> ?x \<Longrightarrow> fidat s1 y = fidat (add_fid n s) y"
      by (rule closefid_spec[OF i, of ?x srv]) auto
    have i1: "fid_inv Y (E(?x := E ?x + 1)) s1" using s1(2) by (rule fid_inv_cong) (auto simp: fun_eq_iff)
    obtain s2 where s2: "closefid srv (Some ?x) s1 = Ok s2" "fid_inv Y ((E(?x := E ?x + 1))(?x := (E(?x := E ?x + 1)) ?x - 1)) s2"
      "keeps s1 s2" "reqs s2 = reqs s1" "fpool s2 = fpool s1" "s_tree s2 = s_tree s1" "\<And>y. y \<noteq> ?x \<Longrightarrow> fidat s2 y = fidat s1 y"
      by (rule closefid_spec[OF i1, of ?x srv]) auto
    have i2: "fid_inv Y E s2" using s2(2) by (rule fid_inv_cong) (auto simp: fun_eq_iff)
    have "tot (wfid ?x) s2 = tot (wfid ?x) s" using s1(4) s2(4) by (simp add: tot_def)
    then have z: "tot (wfid ?x) s2 + E ?x = 0"
      using fid_inv_ref[OF assms, of ?x] fresh_fid[of s] by (metis gr0I option.distinct(1))
    have p: "imap (fpool s2) k \<noteq> Some ?x" for k using fid_inv_pool[OF assms, of k ?x] fresh_fid[of s] s1(5) s2(5) by auto
    have "fidat s2 ?x = None"
    proof (rule ccontr)
      assume "fidat s2 ?x \<noteq> None"
      then obtain f where "fidat s2 ?x = Some f" by blast
      from fid_inv_fid[OF i2 this] show False using z p by auto
    qed
    then have "fidat s2 = fidat s" using s1(7) s2(7) fresh_fid[of s] by (intro ext) (metis add_fid_simps(7))
    then show ?thesis
      using dup[of s2] 2 bm s1 s2 i2 keeps_trans[OF add_fid_simps(6) keeps_trans[OF s1(3) s2(3)]] by (simp add: allocfid_eq)
  qed
qed

lemma lookupfid_spec:
  assumes "fid_inv Y E s"
  obtains (none) "lookupfid n s = Ok (None, s)" "imap (fpool s) n = None"
    | (found) x f where "lookupfid n s = Ok (Some x, putf x (Some (f\<lparr>f_ref := f_ref f + 1\<rparr>)) s)" "imap (fpool s) n = Some x" "fidat s x = Some f"
      "fid_inv Y (E(x := E x + 1)) (putf x (Some (f\<lparr>f_ref := f_ref f + 1\<rparr>)) s)" "x \<in> Y \<or> uid_ok f"
proof (cases "imap (fpool s) n")
  case None
  then show ?thesis using none by (simp add: lookupfid_def lookupkey_eq)
next
  case (Some x)
  obtain f where f: "fidat s x = Some f" "f_fid f = n" "x \<in> Y \<or> uid_ok f" using fid_inv_pool[OF assms Some] by blast
  have l: "x < length (fids s)" using fidat_less f by simp
  let ?s = "putf x (Some (f\<lparr>f_ref := f_ref f + 1\<rparr>)) s"
  have "fid_inv Y (E(x := E x + 1)) ?s"
  proof (rule fid_invI)
    show "imap_ok (fpool ?s)" using assms by (simp add: fid_inv_def)
    show "\<exists>h. fidat ?s y = Some h \<and> f_fid h = k \<and> (y \<in> Y \<or> uid_ok h)" if "imap (fpool ?s) k = Some y" for k y
      using fid_inv_pool[OF assms, of k y] that f l by (cases "y = x") (auto simp: fidat_putf uid_ok_def)
    show "f_file h = None \<and> 0 < f_ref h \<and> f_ref h = int (of_bool (imap (fpool ?s) (f_fid h) = Some y) + tot (wfid y) ?s + (E(x := E x + 1)) y)"
      if "fidat ?s y = Some h" for y h
      using fid_inv_fid[OF assms, of y] that f l by (cases "y = x") (auto simp: fidat_putf)
    show "fidat ?s y \<noteq> None" if "0 < tot (wfid y) ?s + (E(x := E x + 1)) y" for y
      using fid_inv_ref[OF assms, of y] that l f by (auto simp: fidat_putf split: if_splits)
  qed
  then show ?thesis using found[of x f] Some f by (simp add: lookupfid_def lookupkey_eq incfidref_def)
qed

lemma removefid_spec:
  assumes "fid_inv Y E s"
  obtains (none) s' where "removefid n s = (None, s')" "imap (fpool s) n = None" "fid_inv Y E s'" "keeps s s'" "reqs s' = reqs s" "fidat s' = fidat s"
      "imap (fpool s') = imap (fpool s)"
    | (found) x s' where "removefid n s = (Some x, s')" "imap (fpool s) n = Some x" "fid_inv (Y - {x}) (E(x := E x + 1)) s'" "keeps s s'" "reqs s' = reqs s"
      "fidat s' = fidat s" "imap (fpool s') = (imap (fpool s))(n := None)"
proof -
  have ok: "imap_ok (fpool s)" using assms by (simp add: fid_inv_def)
  obtain r m where rm: "deletekey (fpool s) n = (r, m)" by (cases "deletekey (fpool s) n")
  have d: "r = imap (fpool s) n" "imap_ok m" "imap m = (imap (fpool s))(n := None)" using im.delE[OF ok rm] by auto
  let ?s = "s\<lparr>fpool := m\<rparr>"
  show ?thesis
  proof (cases "imap (fpool s) n")
    case None
    then have "imap m = imap (fpool s)" using d(3) by (simp add: fun_upd_idem)
    moreover have "fpool ?s = m" by simp
    ultimately have "fid_inv Y E ?s"
      using assms d(2) unfolding fid_inv_def field_other by metis
    then show ?thesis using none[of ?s] None rm d by (simp add: removefid_def fun_upd_idem)
  next
    case (Some x)
    obtain f where f: "fidat s x = Some f" "f_fid f = n" using fid_inv_pool[OF assms Some] by blast
    have "fid_inv (Y - {x}) (E(x := E x + 1)) ?s"
    proof (rule fid_invI)
      show "imap_ok (fpool ?s)" using d(2) by simp
      show "\<exists>h. fidat ?s y = Some h \<and> f_fid h = k \<and> (y \<in> Y - {x} \<or> uid_ok h)" if "imap (fpool ?s) k = Some y" for k y
        using fid_inv_pool[OF assms, of k y] that f d(3) by (auto split: if_splits)
      show "f_file h = None \<and> 0 < f_ref h \<and> f_ref h = int (of_bool (imap (fpool ?s) (f_fid h) = Some y) + tot (wfid y) ?s + (E(x := E x + 1)) y)"
        if "fidat ?s y = Some h" for y h
        using fid_inv_fid[OF assms, of y h] that f d(3) Some by (cases "y = x") auto
      show "fidat ?s y \<noteq> None" if "0 < tot (wfid y) ?s + (E(x := E x + 1)) y" for y
        using fid_inv_ref[OF assms, of y] that f by (auto split: if_splits)
    qed
    then show ?thesis using found[of x ?s] Some rm d by (simp add: removefid_def)
  qed
qed

section \<open>Requests\<close>

text \<open>References from the pool and from the code that is to answer the request, if it is unanswered or in \<open>T\<close>.\<close>

definition base :: "nat set \<Rightarrow> Srvst \<Rightarrow> nat \<Rightarrow> Req \<Rightarrow> nat" where
  "base T s a q = of_bool (imap (rpool s) (ucast (tag (r_ifcall q))) = Some a) + of_bool (\<not> r_responded q \<or> a \<in> T)"

text \<open>The fake request for a duplicate tag refers to nothing.\<close>

definition shape :: "Req \<Rightarrow> bool" where
  "shape q \<longleftrightarrow> \<not> r_statfreed q \<and> (r_pool q \<or> r_fid q = None \<and> r_afid q = None \<and> r_newfid q = None \<and> r_oldreq q = None)"

lemma shape_simps [simp]:
  "shape (q\<lparr>r_ref := n\<rparr>) = shape q" "shape (q\<lparr>r_responded := b\<rparr>) = shape q" "shape (q\<lparr>r_flush := l\<rparr>) = shape q"
  "shape (q\<lparr>r_ofcall := f\<rparr>) = shape q" "shape (q\<lparr>r_error := e\<rparr>) = shape q"
  "shape q \<Longrightarrow> shape (q\<lparr>r_fid := None\<rparr>)" "shape q \<Longrightarrow> shape (q\<lparr>r_oldreq := None\<rparr>)" "shape q \<Longrightarrow> \<not> r_statfreed q"
  by (auto simp: shape_def)

text \<open>
  The count of a request is at least the number of references to it: those of \<open>base\<close>, those from requests
  that flush it, and \<open>E a\<close> more.
\<close>

definition ref_inv :: "nat set \<Rightarrow> (nat \<Rightarrow> nat) \<Rightarrow> Srvst \<Rightarrow> bool" where
  "ref_inv T E s \<longleftrightarrow> imap_ok (rpool s) \<and>
    (\<forall>t a. imap (rpool s) t = Some a \<longrightarrow> (\<exists>q. reqat s a = Some q \<and> r_pool q \<and> \<not> r_responded q \<and> ucast (tag (r_ifcall q)) = t)) \<and>
    (\<forall>a q. reqat s a = Some q \<longrightarrow> int (base T s a q + tot (wold a) s + E a) \<le> r_ref q \<and> shape q \<and>
       (\<forall>b. r_oldreq q = Some b \<longrightarrow> b < a)) \<and>
    (\<forall>a. 0 < tot (wold a) s + E a \<longrightarrow> (\<exists>q. reqat s a = Some q \<and> r_pool q))"

lemma ref_inv_pool: "ref_inv T E s \<Longrightarrow> imap (rpool s) t = Some a \<Longrightarrow>
    \<exists>q. reqat s a = Some q \<and> r_pool q \<and> \<not> r_responded q \<and> ucast (tag (r_ifcall q)) = t"
  unfolding ref_inv_def by blast

lemma ref_inv_req: "ref_inv T E s \<Longrightarrow> reqat s a = Some q \<Longrightarrow>
    int (base T s a q + tot (wold a) s + E a) \<le> r_ref q \<and> shape q \<and> (\<forall>b. r_oldreq q = Some b \<longrightarrow> b < a)"
  unfolding ref_inv_def by blast

lemma ref_inv_ref: "ref_inv T E s \<Longrightarrow> 0 < tot (wold a) s + E a \<Longrightarrow> \<exists>q. reqat s a = Some q \<and> r_pool q"
  unfolding ref_inv_def by metis

lemma ref_invI:
  assumes "imap_ok (rpool s)"
    "\<And>t a. imap (rpool s) t = Some a \<Longrightarrow> \<exists>q. reqat s a = Some q \<and> r_pool q \<and> \<not> r_responded q \<and> ucast (tag (r_ifcall q)) = t"
    "\<And>a q. reqat s a = Some q \<Longrightarrow> int (base T s a q + tot (wold a) s + E a) \<le> r_ref q \<and> shape q \<and> (\<forall>b. r_oldreq q = Some b \<longrightarrow> b < a)"
    "\<And>a. 0 < tot (wold a) s + E a \<Longrightarrow> \<exists>q. reqat s a = Some q \<and> r_pool q"
  shows "ref_inv T E s"
  unfolding ref_inv_def using assms by blast

lemma ref_inv_cong:
  assumes "ref_inv T E s" "rpool s' = rpool s" "reqs s' = reqs s" "\<And>a. E' a \<le> E a"
  shows "ref_inv T E' s'"
proof -
  have e: "reqat s' = reqat s" "\<And>w. tot w s' = tot w s" using assms(3) by (simp_all add: reqat_def tot_def fun_eq_iff)
  show ?thesis
  proof (rule ref_invI)
    show "imap_ok (rpool s')" using assms(1,2) by (simp add: ref_inv_def)
    show "\<exists>q. reqat s' a = Some q \<and> r_pool q \<and> \<not> r_responded q \<and> ucast (tag (r_ifcall q)) = t" if "imap (rpool s') t = Some a" for t a
      using ref_inv_pool[OF assms(1), of t a] that assms(2) e by simp
    show "int (base T s' a q + tot (wold a) s' + E' a) \<le> r_ref q \<and> shape q \<and> (\<forall>b. r_oldreq q = Some b \<longrightarrow> b < a)" if "reqat s' a = Some q" for a q
      using ref_inv_req[OF assms(1), of a q] that assms(2) assms(4)[of a] e by (auto simp: base_def)
    show "\<exists>q. reqat s' a = Some q \<and> r_pool q" if "0 < tot (wold a) s' + E' a" for a
      using ref_inv_ref[OF assms(1), of a] that assms(4)[of a] e by auto
  qed
qed

text \<open>What closing requests leaves: the same objects with other counts, some of them gone.\<close>

definition shrinks :: "nat set \<Rightarrow> Srvst \<Rightarrow> Srvst \<Rightarrow> bool" where
  "shrinks T s s' \<longleftrightarrow> keeps s s' \<and> fpool s' = fpool s \<and> s_tree s' = s_tree s \<and> length (reqs s') = length (reqs s) \<and>
    (\<forall>c q'. reqat s' c = Some q' \<longrightarrow> (\<exists>q. reqat s c = Some q \<and> q' = q\<lparr>r_ref := r_ref q'\<rparr>)) \<and>
    (\<forall>c q. reqat s c = Some q \<and> (\<not> r_responded q \<or> c \<in> T) \<longrightarrow> reqat s' c \<noteq> None) \<and>
    (\<forall>x g. fidat s' x = Some g \<longrightarrow> (\<exists>f. fidat s x = Some f \<and> g = f\<lparr>f_ref := f_ref g\<rparr>))"

lemma shrinks_refl [simp]: "shrinks T s s"
  by (simp add: shrinks_def)

lemma shrinks_trans:
  assumes "shrinks T s s'" "shrinks T s' s''"
  shows "shrinks T s s''"
proof -
  have "\<exists>q. reqat s c = Some q \<and> q'' = q\<lparr>r_ref := r_ref q''\<rparr>" if r: "reqat s'' c = Some q''" for c q''
  proof -
    obtain q' where q': "reqat s' c = Some q'" "q'' = q'\<lparr>r_ref := r_ref q''\<rparr>" using assms(2) r unfolding shrinks_def by blast
    obtain q where q: "reqat s c = Some q" "q' = q\<lparr>r_ref := r_ref q'\<rparr>" using assms(1) q'(1) unfolding shrinks_def by blast
    have "q'' = q\<lparr>r_ref := r_ref q''\<rparr>" using q(2) q'(2) by (metis Req.surjective Req.update_convs(9))
    then show ?thesis using q(1) by blast
  qed
  moreover have "\<exists>f. fidat s x = Some f \<and> g = f\<lparr>f_ref := f_ref g\<rparr>" if r: "fidat s'' x = Some g" for x g
  proof -
    obtain f' where f': "fidat s' x = Some f'" "g = f'\<lparr>f_ref := f_ref g\<rparr>" using assms(2) r unfolding shrinks_def by blast
    obtain f where f: "fidat s x = Some f" "f' = f\<lparr>f_ref := f_ref f'\<rparr>" using assms(1) f'(1) unfolding shrinks_def by blast
    have "g = f\<lparr>f_ref := f_ref g\<rparr>" using f(2) f'(2) by (metis Fid.surjective Fid.update_convs(7))
    then show ?thesis using f(1) by blast
  qed
  moreover have "reqat s'' c \<noteq> None" if r: "reqat s c = Some q" "\<not> r_responded q \<or> c \<in> T" for c q
  proof -
    obtain q' where q': "reqat s' c = Some q'" using assms(1) r unfolding shrinks_def by blast
    then have "q' = q\<lparr>r_ref := r_ref q'\<rparr>" using assms(1) r(1) unfolding shrinks_def by (metis option.inject)
    then have "r_responded q' = r_responded q" by (metis Req.select_convs(13) Req.surjective Req.update_convs(9))
    then show ?thesis using assms(2) q' r(2) unfolding shrinks_def by blast
  qed
  ultimately show ?thesis using assms keeps_trans unfolding shrinks_def by auto
qed

section \<open>Closing requests\<close>

text \<open>Operations on fids do not look at the requests.\<close>

lemma closefid_reqs: "closefid srv x (s\<lparr>reqs := l\<rparr>) = andthen (closefid srv x s) (\<lambda>s. Ok (s\<lparr>reqs := l\<rparr>))"
proof (cases x)
  case (Some b)
  have o1: "on_tree g (s1\<lparr>reqs := l\<rparr>) = andthen (on_tree g s1) (\<lambda>s. Ok (s\<lparr>reqs := l\<rparr>))" for g s1
    by (cases "g (s_tree s1)") (simp_all add: on_tree_def)
  have sw: "putf b z (s1\<lparr>reqs := l\<rparr>) = (putf b z s1)\<lparr>reqs := l\<rparr>" "emit e (s1\<lparr>reqs := l\<rparr>) = (emit e s1)\<lparr>reqs := l\<rparr>"
    "fidat (s1\<lparr>reqs := l\<rparr>) b = fidat s1 b" for z e s1
    by (simp_all add: putf_def emit_def fidat_def)
  show ?thesis
  proof (cases "fidat s b")
    case (Some f)
    then have "fidat (putf b (Some (f\<lparr>f_ref := f_ref f - 1\<rparr>)) s) b = Some (f\<lparr>f_ref := f_ref f - 1\<rparr>)"
      using fidat_less[of s b] by (simp add: fidat_putf)
    then show ?thesis using Some \<open>x = Some b\<close> o1
      by (simp add: closefid_def ptr_def sw Let_def andthen_assoc split: option.splits)
  next
    case None
    then show ?thesis using \<open>x = Some b\<close> by (simp add: closefid_def ptr_def modf_def getf_eq sw)
  qed
qed (simp add: closefid_def ptr_def)

text \<open>The state with the requests in \<open>M\<close> as the invariants see them, such as those that are being freed.\<close>

definition over :: "(nat \<rightharpoonup> Req option) \<Rightarrow> Srvst \<Rightarrow> Srvst" where
  "over M s = s\<lparr>reqs := map (\<lambda>i. case M i of Some x \<Rightarrow> x | None \<Rightarrow> reqs s ! i) [0..<length (reqs s)]\<rparr>"

lemma over_simps [simp]:
  "fidat (over M s) = fidat s" "fids (over M s) = fids s" "fpool (over M s) = fpool s"
  "rpool (over M s) = rpool s" "length (reqs (over M s)) = length (reqs s)" "s_tree (over M s) = s_tree s" "over Map.empty s = s"
  "keeps (over M s) (over M s') = keeps s s'"
  by (simp_all add: over_def fidat_def fun_eq_iff map_nth keeps_def nrecv_def nsent_def)

lemma reqat_over: "M c = None \<Longrightarrow> reqat (over M s) c = reqat s c" "M c = Some x \<Longrightarrow> c < length (reqs s) \<Longrightarrow> reqat (over M s) c = x"
  by (simp_all add: over_def reqat_def rd_def)

lemma over_putr:
  assumes "a < length (reqs s)" "M a = None"
  shows "over M (putr a y s) = putr a y (over M s)" "over M (putr a y s) = over (M(a \<mapsto> y)) s"
  using assms by (auto simp: over_def putr_def nth_list_update split: option.split intro!: Srvst.equality nth_equalityI)

lemma over_emit: "over M (emit e s) = emit e (over M s)"
  by (simp add: over_def emit_def cong: option.case_cong)

lemma over_reqs: "reqs s' = reqs s \<Longrightarrow> over M s' = s'\<lparr>reqs := reqs (over M s)\<rparr>"
  by (simp add: over_def cong: option.case_cong)

lemma closefid_over:
  assumes "fid_inv Y E (over M s)" "0 < E x"
  obtains s' where "closefid srv (Some x) s = Ok s'" "fid_inv Y (E(x := E x - 1)) (over M s')" "shrinks T s s'" "reqs s' = reqs s"
proof -
  obtain m where m: "closefid srv (Some x) (over M s) = Ok m" "fid_inv Y (E(x := E x - 1)) m" "keeps (over M s) m" "reqs m = reqs (over M s)"
    "fpool m = fpool (over M s)" "s_tree m = s_tree (over M s)" "\<And>y. y \<noteq> x \<Longrightarrow> fidat m y = fidat (over M s) y"
    "\<And>g. fidat m x = Some g \<Longrightarrow> \<exists>f. fidat (over M s) x = Some f \<and> g = f\<lparr>f_ref := f_ref g\<rparr>"
    by (rule closefid_spec[OF assms, of srv]) blast
  let ?s = "m\<lparr>reqs := reqs s\<rparr>"
  have "s = (over M s)\<lparr>reqs := reqs s\<rparr>" by (simp add: over_def)
  then have "closefid srv (Some x) s = Ok ?s" using closefid_reqs[where s = "over M s" and l = "reqs s"] m(1) by simp
  moreover have "over M ?s = m" using m(4) over_reqs[of ?s s M] by simp
  moreover have "fidat ?s = fidat m" by (simp add: fidat_def fun_eq_iff)
  moreover have "reqat ?s = reqat s" by (simp add: reqat_def fun_eq_iff)
  moreover have "keeps s ?s" using m(3) by (simp add: keeps_def nrecv_def nsent_def over_def)
  moreover have "\<exists>f. fidat s y = Some f \<and> g = f\<lparr>f_ref := f_ref g\<rparr>" if "fidat m y = Some g" for y g
  proof (cases "y = x")
    case False
    then show ?thesis using m(7)[of y] that by (intro exI[of _ g]) simp
  qed (use m(8)[of g] that in simp)
  ultimately show ?thesis using that[of ?s] m(2,5,6) by (simp add: shrinks_def)
qed

text \<open>Closing the fids of a request that goes away.\<close>

lemma closefids_over:
  assumes "fid_inv Y (\<lambda>x. F x + wfid x (Some q)) (over M s)"
  obtains s' where "\<And>k :: Srvst \<Rightarrow> Srvst outcome. andthen (if r_fid q \<noteq> None then closefid srv (r_fid q) s else Ok s) (\<lambda>s.
      andthen (if r_newfid q \<noteq> None then closefid srv (r_newfid q) s else Ok s) (\<lambda>s.
      andthen (if r_afid q \<noteq> None then closefid srv (r_afid q) s else Ok s) k)) = k s'"
    "fid_inv Y F (over M s')" "shrinks T s s'" "reqs s' = reqs s"
proof -
  define W where "W p n b x = F x + of_bool p * of_bool (r_fid q = Some x) + of_bool n * of_bool (r_newfid q = Some x) + of_bool b * of_bool (r_afid q = Some x)" for p n b x
  have step: "\<exists>s'. (if p \<noteq> None then closefid srv p s else Ok s) = Ok s' \<and> fid_inv Y G (over M s') \<and> shrinks T s s' \<and> reqs s' = reqs s"
    if h1: "fid_inv Y H (over M s)" and h2: "\<And>x. H x = G x + of_bool (p = Some x)" for p G H s
  proof (cases p)
    case None
    then have "H = G" using h2 by (simp add: fun_eq_iff)
    then show ?thesis using None h1 by auto
  next
    case (Some x)
    have h: "0 < H x" using h2[of x] Some by simp
    obtain s' where "closefid srv (Some x) s = Ok s'" "fid_inv Y (H(x := H x - 1)) (over M s')" "shrinks T s s'" "reqs s' = reqs s"
      using closefid_over[OF h1 h, of srv T] by blast
    moreover have "H(x := H x - 1) = G" using h2 Some by (auto simp: fun_eq_iff)
    ultimately show ?thesis using Some by auto
  qed
  have i0: "fid_inv Y (W True True True) (over M s)" using assms by (rule fid_inv_cong) (simp_all add: W_def wfid_def)
  obtain s1 where s1: "(if r_fid q \<noteq> None then closefid srv (r_fid q) s else Ok s) = Ok s1" "fid_inv Y (W False True True) (over M s1)" "shrinks T s s1" "reqs s1 = reqs s"
    using step[OF i0, where G = "W False True True" and p = "r_fid q"] by (auto simp: W_def)
  obtain s2 where s2: "(if r_newfid q \<noteq> None then closefid srv (r_newfid q) s1 else Ok s1) = Ok s2" "fid_inv Y (W False False True) (over M s2)" "shrinks T s1 s2" "reqs s2 = reqs s1"
    using step[OF s1(2), where G = "W False False True" and p = "r_newfid q"] by (auto simp: W_def)
  obtain s3 where s3: "(if r_afid q \<noteq> None then closefid srv (r_afid q) s2 else Ok s2) = Ok s3" "fid_inv Y (W False False False) (over M s3)" "shrinks T s2 s3" "reqs s3 = reqs s2"
    using step[OF s2(2), where G = "W False False False" and p = "r_afid q"] by (auto simp: W_def)
  have "W False False False = F" by (simp add: W_def fun_eq_iff)
  moreover have "shrinks T s s3" using s1(3) s2(3) s3(3) by (blast intro: shrinks_trans)
  moreover have "reqs s3 = reqs s" using s1(4) s2(4) s3(4) by simp
  ultimately show ?thesis by (intro that[of s3]) (use s3(2) in \<open>simp_all only: s1(1) s2(1) s3(1) andthen.simps\<close>)
qed

lemma ref_inv_dec:
  assumes "ref_inv T E s" "0 < E a" "reqat s a = Some q"
  shows "ref_inv T (E(a := E a - 1)) (putr a (Some (q\<lparr>r_ref := r_ref q - 1\<rparr>)) s)"
proof -
  have l: "a < length (reqs s)" using reqat_less assms(3) by simp
  define s' where "s' = putr a (Some (q\<lparr>r_ref := r_ref q - 1\<rparr>)) s"
  have r: "reqat s' b = (if b = a then Some (q\<lparr>r_ref := r_ref q - 1\<rparr>) else reqat s b)" for b
    using l by (simp add: s'_def reqat_putr)
  have w: "tot (wold c) s' = tot (wold c) s" for c
    using tot_putr[OF l, of "wold c" "Some (q\<lparr>r_ref := r_ref q - 1\<rparr>)"] assms(3) by (simp add: wold_def s'_def)
  have p: "rpool s' = rpool s" by (simp add: s'_def)
  have bs: "base T s' b p = base T s b p" "base T s b (q\<lparr>r_ref := n\<rparr>) = base T s b q" for b p n by (simp_all add: base_def p)
  have "ref_inv T (E(a := E a - 1)) s'"
  proof (rule ref_invI)
    show "imap_ok (rpool s')" using assms(1) p by (simp add: ref_inv_def)
    show "\<exists>q. reqat s' b = Some q \<and> r_pool q \<and> \<not> r_responded q \<and> ucast (tag (r_ifcall q)) = t" if "imap (rpool s') t = Some b" for t b
    proof -
      obtain q1 where q1: "reqat s b = Some q1" "r_pool q1" "\<not> r_responded q1" "ucast (tag (r_ifcall q1)) = t"
        using ref_inv_pool[OF assms(1), of t b] \<open>imap (rpool s') t = Some b\<close> p by auto
      show ?thesis using q1 assms(3) by (cases "b = a") (simp_all add: r)
    qed
    show "int (base T s' b p + tot (wold b) s' + (E(a := E a - 1)) b) \<le> r_ref p \<and> shape p \<and> (\<forall>d. r_oldreq p = Some d \<longrightarrow> d < b)" if "reqat s' b = Some p" for b p
    proof (cases "b = a")
      case True
      then have "p = q\<lparr>r_ref := r_ref q - 1\<rparr>" using that r by simp
      then show ?thesis using True ref_inv_req[OF assms(1,3)] assms(2) w bs by auto
    next
      case False
      then show ?thesis using that r ref_inv_req[OF assms(1), of b p] w bs by simp
    qed
    show "\<exists>q. reqat s' b = Some q \<and> r_pool q" if "0 < tot (wold b) s' + (E(a := E a - 1)) b" for b
    proof -
      have "0 < tot (wold b) s + E b" using that w assms(2) by (cases "b = a") auto
      then obtain q1 where "reqat s b = Some q1" "r_pool q1" using ref_inv_ref[OF assms(1), of b] by auto
      then show ?thesis using r assms(3) by (cases "b = a") simp_all
    qed
  qed
  then show ?thesis by (simp add: s'_def)
qed

lemma ref_inv_free:
  assumes "ref_inv T E s" "reqat s a = Some q" "base T s a q = 0" "tot (wold a) s + E a = 0"
  shows "ref_inv T (\<lambda>b. E b + wold b (Some q)) (putr a None s)"
proof -
  have l: "a < length (reqs s)" using reqat_less assms(2) by simp
  define s' where "s' = putr a None s"
  have r: "reqat s' b = (if b = a then None else reqat s b)" for b using l by (simp add: s'_def reqat_putr)
  have w: "tot (wold c) s' + wold c (Some q) = tot (wold c) s" for c
    using tot_putr[OF l, of "wold c" None] assms(2) by (simp add: s'_def)
  have p: "rpool s' = rpool s" by (simp add: s'_def)
  have bs: "base T s' b p = base T s b p" for b p by (simp add: base_def p)
  have "ref_inv T (\<lambda>b. E b + wold b (Some q)) s'"
  proof (rule ref_invI)
    show "imap_ok (rpool s')" using assms(1) p by (simp add: ref_inv_def)
    show "\<exists>q. reqat s' b = Some q \<and> r_pool q \<and> \<not> r_responded q \<and> ucast (tag (r_ifcall q)) = t" if "imap (rpool s') t = Some b" for t b
    proof -
      obtain q1 where q1: "reqat s b = Some q1" "r_pool q1" "\<not> r_responded q1" "ucast (tag (r_ifcall q1)) = t"
        using ref_inv_pool[OF assms(1), of t b] \<open>imap (rpool s') t = Some b\<close> p by auto
      then have "b \<noteq> a" using assms(2,3) by (auto simp: base_def)
      then show ?thesis using q1 r by simp
    qed
    show "int (base T s' b p + tot (wold b) s' + (E b + wold b (Some q))) \<le> r_ref p \<and> shape p \<and> (\<forall>d. r_oldreq p = Some d \<longrightarrow> d < b)" if "reqat s' b = Some p" for b p
    proof -
      have "reqat s b = Some p" using that r by (simp split: if_splits)
      moreover have "base T s' b p + tot (wold b) s' + (E b + wold b (Some q)) = base T s b p + tot (wold b) s + E b" using w[of b] bs by simp
      ultimately show ?thesis using ref_inv_req[OF assms(1), of b p] by presburger
    qed
    show "\<exists>q. reqat s' b = Some q \<and> r_pool q" if "0 < tot (wold b) s' + (E b + wold b (Some q))" for b
    proof -
      have "0 < tot (wold b) s + E b" using that w[of b] by linarith
      then show ?thesis using ref_inv_ref[OF assms(1), of b] r assms(4) by (cases "b = a") simp_all
    qed
  qed
  then show ?thesis by (simp add: s'_def)
qed

lemma shrinks_dec:
  assumes "reqat s a = Some q"
  shows "shrinks T s (putr a (Some (q\<lparr>r_ref := n\<rparr>)) s)"
proof -
  have l: "a < length (reqs s)" using reqat_less assms by simp
  have "\<exists>p. reqat s c = Some p \<and> q' = p\<lparr>r_ref := r_ref q'\<rparr>" if "reqat (putr a (Some (q\<lparr>r_ref := n\<rparr>)) s) c = Some q'" for c q'
  proof (cases "c = a")
    case True
    then have "q' = q\<lparr>r_ref := n\<rparr>" using that l by (simp add: reqat_putr)
    then show ?thesis using True assms by simp
  next
    case False
    then show ?thesis using that l by (intro exI[of _ q']) (simp add: reqat_putr)
  qed
  moreover have "\<exists>f. fidat s x = Some f \<and> g = f\<lparr>f_ref := f_ref g\<rparr>" if "fidat s x = Some g" for x g
    using that by (intro exI[of _ g]) simp
  ultimately show ?thesis using l unfolding shrinks_def by (auto simp: reqat_putr)
qed

lemma shrinks_free:
  assumes "reqat s a = Some q" "r_responded q" "a \<notin> T"
  shows "shrinks T s (putr a None (if b then emit (Destroyreq a) s else s))"
proof -
  have l: "a < length (reqs s)" using reqat_less assms(1) by simp
  let ?s = "putr a None (if b then emit (Destroyreq a) s else s)"
  have r: "reqat ?s c = (if c = a then None else reqat s c)" for c using l by (auto simp: reqat_putr)
  have "keeps s ?s" using keeps_trans[OF keeps_emit(2) keeps_put(2)] by simp
  moreover have "\<exists>p. reqat s c = Some p \<and> q' = p\<lparr>r_ref := r_ref q'\<rparr>" if "reqat ?s c = Some q'" for c q'
    using that by (intro exI[of _ q']) (simp add: r split: if_splits)
  moreover have "\<exists>f. fidat s x = Some f \<and> g = f\<lparr>f_ref := f_ref g\<rparr>" if "fidat s x = Some g" for x g
    using that by (intro exI[of _ g]) simp
  moreover have "reqat ?s c \<noteq> None" if "reqat s c = Some p" "\<not> r_responded p \<or> c \<in> T" for c p
    using that assms by (auto simp: r)
  ultimately show ?thesis unfolding shrinks_def by simp
qed

lemma wfid_ref [simp]: "wfid x (Some (q\<lparr>r_ref := n\<rparr>)) = wfid x (Some q)" "wold x (Some (q\<lparr>r_ref := n\<rparr>)) = wold x (Some q)"
  "wout t (Some (q\<lparr>r_ref := n\<rparr>)) = wout t (Some q)"
  by (simp_all add: wfid_def wold_def wout_def)

lemma shrinks_same: "shrinks T s s' \<Longrightarrow> rpool s' = rpool s"
  by (simp add: shrinks_def keeps_def)

text \<open>Giving up a reference to a request, with all the requests and fids that go away with it.\<close>

lemma closereq_spec:
  assumes "fid_inv Y F (over M s)" "ref_inv T E (over M s)" "0 < E a" "a < n" "\<forall>d\<in>dom M. a < d"
  shows "\<exists>s'. closereq_n n srv (Some a) s = Ok s' \<and> fid_inv Y F (over M s') \<and> ref_inv T (E(a := E a - 1)) (over M s') \<and>
    shrinks T s s' \<and> (\<forall>d\<in>dom M. reqat s' d = reqat s d)"
  using assms
proof (induction n arbitrary: M s E F a)
  case (Suc n)
  have ad: "M a = None" using Suc.prems(5) by (meson domIff less_irrefl)
  obtain q where q: "reqat s a = Some q" "r_pool q" using ref_inv_ref[OF Suc.prems(2), of a] Suc.prems(3) by (auto simp: reqat_over(1)[of M a, OF ad])
  have l: "a < length (reqs s)" using reqat_less q(1) by simp
  define q' where "q' = q\<lparr>r_ref := r_ref q - 1\<rparr>"
  define s1 where "s1 = putr a (Some q') s"
  define E1 where "E1 = E(a := E a - 1)"
  have w1: "over M s1 = putr a (Some q') (over M s)" using over_putr(1)[where M = M, OF l ad] by (simp add: s1_def)
  have r1: "ref_inv T E1 (over M s1)"
    unfolding w1 q'_def E1_def by (rule ref_inv_dec) (use Suc.prems q in \<open>auto simp: reqat_over(1)[of M a, OF ad]\<close>)
  have t1: "tot (wfid x) (over M s1) = tot (wfid x) (over M s)" for x
    using tot_putr[of a "over M s" "wfid x" "Some q'"] l q by (simp add: w1 q'_def reqat_over(1)[of M a, OF ad])
  have f1: "fid_inv Y F (over M s1)"
    using Suc.prems(1) by (rule fid_inv_cong) (simp_all add: t1, simp_all add: s1_def)
  have a1: "reqat s1 a = Some q'" using l by (simp add: s1_def reqat_putr)
  have sh1: "shrinks T s s1" unfolding s1_def q'_def by (rule shrinks_dec[OF q(1)])
  have run: "closereq_n (Suc n) srv (Some a) s = andthen (Ok s1) (\<lambda>s. andthen (getr a s) (\<lambda>r.
    if r_ref r = 0 then
      andthen (if r_fid r \<noteq> None then closefid srv (r_fid r) s else Ok s) (\<lambda>s.
      andthen (if r_newfid r \<noteq> None then closefid srv (r_newfid r) s else Ok s) (\<lambda>s.
      andthen (if r_afid r \<noteq> None then closefid srv (r_afid r) s else Ok s) (\<lambda>s.
      andthen (closereq_n n srv (r_oldreq r) s) (\<lambda>s.
      if Fcall.type (r_ifcall r) = Tstat \<and> r_statfreed r then Undef
      else if \<not> r_pool r then Undef
      else Ok (putr a None (if has_destroyreq srv then emit (Destroyreq a) s else s))))))
    else Ok s))"
    by (simp only: closereq_n.simps modr_Some[OF q(1)] Let_def s1_def q'_def)
  show ?case
  proof (cases "r_ref q' = 0")
    case False
    have "\<forall>d\<in>dom M. reqat s1 d = reqat s d" using l ad by (auto simp: s1_def reqat_putr)
    moreover have "closereq_n (Suc n) srv (Some a) s = Ok s1" using run a1 False by (simp del: closereq_n.simps)
    ultimately show ?thesis using f1 r1 sh1 by (simp only: E1_def) blast
  next
    case True
    have aw: "reqat (over M s1) a = Some q'" using a1 by (simp add: reqat_over(1)[of M a, OF ad])
    note z = ref_inv_req[OF r1 aw]
    have z0: "base T (over M s1) a q' = 0" "tot (wold a) (over M s1) + E1 a = 0" using z True by auto
    define M' where "M' = M(a \<mapsto> None)"
    have l1: "a < length (reqs s1)" using reqat_less a1 by simp
    have w2: "over M' s1 = putr a None (over M s1)" using over_putr(1)[where M = M, OF l1 ad] over_putr(2)[where M = M, OF l1 ad] by (simp add: M'_def)
    have r2: "ref_inv T (\<lambda>b. E1 b + wold b (Some q')) (over M' s1)" unfolding w2 by (rule ref_inv_free[OF r1 aw z0])
    have t2: "tot (wfid x) (over M' s1) + wfid x (Some q') = tot (wfid x) (over M s1)" for x
      using tot_putr[of a "over M s1" "wfid x" None] l1 a1 by (simp add: w2 reqat_over(1)[of M a, OF ad])
    have "tot (wfid x) (over M' s1) + (F x + wfid x (Some q')) = tot (wfid x) (over M s1) + F x" for x using t2[of x] by simp
    then have f2: "fid_inv Y (\<lambda>x. F x + wfid x (Some q')) (over M' s1)"
      by (intro fid_inv_cong[OF f1]) simp_all
    obtain s2 where s2: "\<And>k :: Srvst \<Rightarrow> Srvst outcome. andthen (if r_fid q' \<noteq> None then closefid srv (r_fid q') s1 else Ok s1) (\<lambda>s.
        andthen (if r_newfid q' \<noteq> None then closefid srv (r_newfid q') s else Ok s) (\<lambda>s.
        andthen (if r_afid q' \<noteq> None then closefid srv (r_afid q') s else Ok s) k)) = k s2"
      "fid_inv Y F (over M' s2)" "shrinks T s1 s2" "reqs s2 = reqs s1"
      by (rule closefids_over[OF f2, of srv T]) blast
    have r3: "ref_inv T (\<lambda>b. E1 b + wold b (Some q')) (over M' s2)"
      using r2 by (rule ref_inv_cong) (use s2 shrinks_same[OF s2(3)] in \<open>simp_all add: over_reqs[OF s2(4)]\<close>)
    have "\<exists>s3. closereq_n n srv (r_oldreq q') s2 = Ok s3 \<and> fid_inv Y F (over M' s3) \<and> ref_inv T E1 (over M' s3) \<and>
        shrinks T s2 s3 \<and> (\<forall>d\<in>dom M'. reqat s3 d = reqat s2 d)"
    proof (cases "r_oldreq q'")
      case None
      then have "(\<lambda>b. E1 b + wold b (Some q')) = E1" by (simp add: wold_def)
      then show ?thesis using None s2(2) r3 by simp
    next
      case (Some b)
      then have b: "b < a" using z by blast
      let ?E = "\<lambda>b. E1 b + wold b (Some q')"
      have "\<exists>s3. closereq_n n srv (Some b) s2 = Ok s3 \<and> fid_inv Y F (over M' s3) \<and> ref_inv T (?E(b := ?E b - 1)) (over M' s3) \<and>
        shrinks T s2 s3 \<and> (\<forall>d\<in>dom M'. reqat s3 d = reqat s2 d)"
      proof (rule Suc.IH[OF s2(2) r3])
        have "dom M' = insert a (dom M)" by (simp add: M'_def)
        then show "\<forall>d\<in>dom M'. b < d" using b Suc.prems(5) by (metis insert_iff less_trans)
      qed (use b Suc.prems(4) Some in \<open>simp_all add: wold_def\<close>)
      moreover have "?E(b := ?E b - 1) = E1" using Some by (auto simp: wold_def fun_eq_iff)
      ultimately show ?thesis using Some by simp
    qed
    then obtain s3 where s3: "closereq_n n srv (r_oldreq q') s2 = Ok s3" "fid_inv Y F (over M' s3)" "ref_inv T E1 (over M' s3)"
      "shrinks T s2 s3" "\<forall>d\<in>dom M'. reqat s3 d = reqat s2 d" by blast
    have r23: "reqat s2 = reqat s1" using s2(4) by (simp add: reqat_def fun_eq_iff)
    have a3: "reqat s3 a = Some q'" using s3(5) r23 a1 by (simp add: M'_def)
    let ?m = "if has_destroyreq srv then emit (Destroyreq a) s3 else s3"
    let ?s = "putr a None ?m"
    have l3: "a < length (reqs ?m)" using reqat_less[of s3 a] a3 by simp
    have w: "over M ?s = over M' ?m" using over_putr(2)[where M = M, OF l3 ad] by (simp add: M'_def)
    have "fid_inv Y F (over M ?s)" unfolding w using s3(2) by (rule fid_inv_cong) (simp_all add: over_emit)
    moreover have "ref_inv T E1 (over M ?s)" unfolding w using s3(3) by (rule ref_inv_cong) (simp_all add: over_emit)
    moreover have "shrinks T s ?s"
    proof -
      have "r_responded q'" "a \<notin> T" using z0(1) by (auto simp: base_def)
      then have "shrinks T s3 ?s" by (rule shrinks_free[OF a3])
      then show ?thesis using sh1 s2(3) s3(4) by (blast intro: shrinks_trans)
    qed
    moreover have "\<forall>d\<in>dom M. reqat ?s d = reqat s d"
    proof
      fix d assume d: "d \<in> dom M"
      then have "d \<noteq> a" using ad by auto
      then have "reqat ?s d = reqat s3 d" "reqat s1 d = reqat s d" using l3 l by (simp_all add: reqat_putr s1_def)
      then show "reqat ?s d = reqat s d" using s3(5) r23 d by (simp add: M'_def)
    qed
    moreover have "closereq_n (Suc n) srv (Some a) s = Ok ?s"
    proof -
      have f: "r_statfreed q' = False" "r_pool q' = True" using z q(2) by (simp_all add: q'_def)
      show ?thesis by (simp only: run andthen.simps getr_Some[OF a1] True s2(1) s3(1) f simp_thms if_True if_False)
    qed
    ultimately show ?thesis by (simp only: E1_def) blast
  qed
qed simp

end
