(* ===== verification/NineInv.thy ===== *)
theory NineInv
  imports NineRef
begin

text \<open>
  The invariant of the 9P server: every unanswered request is in the hands of the file server, of the library, or
  waits for another one; every received message is answered or unanswered; and what sending a reply does to this.
\<close>

section \<open>Requests and who is to answer them\<close>

text \<open>The fid that a request brings into the pool, and what a request needs before it may succeed.\<close>

definition estab :: "Req \<Rightarrow> nat option" where
  "estab q = (let i = r_ifcall q; t = Fcall.type i in
     if t = Tattach then r_fid q else if t = Tauth then r_afid q
     else if t = Twalk \<and> fid i \<noteq> newfid i then r_newfid q else None)"

definition ready :: "Req \<Rightarrow> bool" where
  "ready q \<longleftrightarrow> (let t = Fcall.type (r_ifcall q) in
     (t \<in> {Twalk, Topen, Tcreate, Tread, Twrite, Tremove} \<longrightarrow> r_fid q \<noteq> None) \<and> (t = Twalk \<longrightarrow> r_newfid q \<noteq> None))"

text \<open>A request apart from its count, and the unanswered requests.\<close>

definition norm :: "Req \<Rightarrow> Req" where
  "norm q = q\<lparr>r_ref := 0\<rparr>"

lemma norm_simps [simp]:
  "r_tag (norm q) = r_tag q" "r_ifcall (norm q) = r_ifcall q" "r_ofcall (norm q) = r_ofcall q" "r_d (norm q) = r_d q"
  "r_oldreq (norm q) = r_oldreq q" "r_fid (norm q) = r_fid q" "r_afid (norm q) = r_afid q" "r_newfid (norm q) = r_newfid q"
  "r_pool (norm q) = r_pool q" "r_buf (norm q) = r_buf q" "r_responded (norm q) = r_responded q" "r_error (norm q) = r_error q"
  "r_flush (norm q) = r_flush q" "r_statfreed (norm q) = r_statfreed q" "norm (q\<lparr>r_ref := n\<rparr>) = norm q"
  "estab (norm q) = estab q" "ready (norm q) = ready q"
  by (simp_all add: norm_def estab_def ready_def Let_def)

definition view :: "Srvst \<Rightarrow> nat \<Rightarrow> Req option" where
  "view s c = map_option norm (reqat s c)"

definition unans :: "Srvst \<Rightarrow> nat \<Rightarrow> Req option" where
  "unans s c = (case view s c of Some q \<Rightarrow> if r_responded q then None else Some q | None \<Rightarrow> None)"

lemma unans_Some: "unans s c = Some q \<longleftrightarrow> (\<exists>p. reqat s c = Some p \<and> \<not> r_responded p \<and> q = norm p)"
  by (auto simp: unans_def view_def split: option.splits)

lemma unansI: "reqat s c = Some p \<Longrightarrow> \<not> r_responded p \<Longrightarrow> unans s c = Some (norm p)"
  by (simp add: unans_Some)

lemma view_putr: "a < length (reqs s) \<Longrightarrow> view (putr a x s) = (view s)(a := map_option norm x)"
  by (auto simp: view_def reqat_putr)

lemma unans_putr:
  "a < length (reqs s) \<Longrightarrow> unans (putr a (Some q) s) = (unans s)(a := if r_responded q then None else Some (norm q))"
  "a < length (reqs s) \<Longrightarrow> unans (putr a None s) = (unans s)(a := None)"
  by (auto simp: unans_def view_putr)

lemma unans_cong: "reqat s' = reqat s \<Longrightarrow> unans s' = unans s"
  by (simp add: unans_def view_def fun_eq_iff)

lemma shrinks_view: "shrinks T s s' \<Longrightarrow> view s' c = view s c \<or> view s' c = None"
  unfolding shrinks_def view_def by (metis norm_simps(15) option.exhaust option.map_disc_iff option.simps(9))

lemma shrinks_view_T:
  assumes "shrinks T s s'" "c \<in> T \<or> (\<exists>q. unans s c = Some q)"
  shows "view s' c = view s c"
proof (cases "reqat s c")
  case (Some q)
  then have "reqat s' c \<noteq> None" using assms unfolding shrinks_def unans_Some by (metis option.inject)
  then show ?thesis using shrinks_view[OF assms(1), of c] by (auto simp: view_def)
next
  case None
  then show ?thesis using shrinks_view[OF assms(1), of c] by (auto simp: view_def)
qed

lemma shrinks_unans: "shrinks T s s' \<Longrightarrow> unans s' = unans s"
proof
  fix c assume s: "shrinks T s s'"
  show "unans s' c = unans s c"
  proof (cases "unans s c")
    case None
    then show ?thesis using shrinks_view[OF s, of c] by (auto simp: unans_def split: option.splits)
  next
    case (Some q)
    then show ?thesis using shrinks_view_T[OF s, of c] by (auto simp: unans_def split: option.splits)
  qed
qed

text \<open>
  The unanswered requests \<open>U\<close>: those in \<open>pd\<close> are in the hands of the file server, those in \<open>C\<close> in the hands of the
  code that runs, and the others wait in the list of requests that flush an unanswered request. The pool \<open>rp\<close>
  holds them, and the pool \<open>fp\<close> of fids holds the fids that they establish.
\<close>

definition req_ok :: "nat set \<Rightarrow> nat list \<Rightarrow> (nat \<rightharpoonup> Req) \<Rightarrow> (u64 \<rightharpoonup> nat) \<Rightarrow> nat set \<Rightarrow> nat \<Rightarrow> Req \<Rightarrow> bool" where
  "req_ok C pd U rp fp a q \<longleftrightarrow>
     (a \<in> set pd \<or> a \<in> C \<or> (\<exists>b p. U b = Some p \<and> a \<in> set (r_flush p))) \<and>
     (a \<in> set pd \<longrightarrow> ready q) \<and> fcall_ok (r_ofcall q) \<and>
     (r_pool q \<longrightarrow> rp (ucast (tag (r_ifcall q))) = Some a) \<and> distinct (r_flush q) \<and>
     (\<forall>x\<in>set (r_flush q). x \<notin> C \<and> x \<notin> set pd \<and> (\<exists>p. U x = Some p \<and> r_oldreq p = Some a \<and> Fcall.type (r_ifcall p) = Tflush)) \<and>
     (a \<notin> C \<longrightarrow> (\<forall>x. estab q = Some x \<longrightarrow> x \<in> fp))"

definition str_ok :: "nat set \<Rightarrow> nat list \<Rightarrow> (nat \<rightharpoonup> Req) \<Rightarrow> (u64 \<rightharpoonup> nat) \<Rightarrow> nat set \<Rightarrow> bool" where
  "str_ok C pd U rp fp \<longleftrightarrow> distinct pd \<and> set pd \<inter> C = {} \<and> set pd \<union> C \<subseteq> dom U \<and>
     (\<forall>a q. U a = Some q \<longrightarrow> req_ok C pd U rp fp a q) \<and>
     (\<forall>a b q p x. a \<notin> C \<longrightarrow> b \<notin> C \<longrightarrow> U a = Some q \<longrightarrow> U b = Some p \<longrightarrow> estab q = Some x \<longrightarrow> estab p = Some x \<longrightarrow> a = b)"

lemma str_okI:
  assumes "distinct pd" "set pd \<inter> C = {}" "set pd \<union> C \<subseteq> dom U" "\<And>a q. U a = Some q \<Longrightarrow> req_ok C pd U rp fp a q"
    "\<And>a b q p x. a \<notin> C \<Longrightarrow> b \<notin> C \<Longrightarrow> U a = Some q \<Longrightarrow> U b = Some p \<Longrightarrow> estab q = Some x \<Longrightarrow> estab p = Some x \<Longrightarrow> a = b"
  shows "str_ok C pd U rp fp"
  unfolding str_ok_def using assms by blast

lemma str_okD:
  assumes "str_ok C pd U rp fp"
  shows "distinct pd" "set pd \<inter> C = {}" "set pd \<union> C \<subseteq> dom U" "U a = Some q \<Longrightarrow> req_ok C pd U rp fp a q"
    "a \<notin> C \<Longrightarrow> b \<notin> C \<Longrightarrow> U a = Some q \<Longrightarrow> U b = Some p \<Longrightarrow> estab q = Some x \<Longrightarrow> estab p = Some x \<Longrightarrow> a = b"
  using assms unfolding str_ok_def by blast+

lemma req_okD:
  assumes "req_ok C pd U rp fp a q"
  shows "a \<in> set pd \<or> a \<in> C \<or> (\<exists>b p. U b = Some p \<and> a \<in> set (r_flush p))" "a \<in> set pd \<Longrightarrow> ready q" "fcall_ok (r_ofcall q)"
    "r_pool q \<Longrightarrow> rp (ucast (tag (r_ifcall q))) = Some a" "distinct (r_flush q)"
    "x \<in> set (r_flush q) \<Longrightarrow> x \<notin> C \<and> x \<notin> set pd \<and> (\<exists>p. U x = Some p \<and> r_oldreq p = Some a \<and> Fcall.type (r_ifcall p) = Tflush)"
    "a \<notin> C \<Longrightarrow> estab q = Some x \<Longrightarrow> x \<in> fp"
  using assms unfolding req_ok_def by blast+

text \<open>Changes of a request in the hands of the code.\<close>

lemma str_ok_upd:
  assumes "str_ok C pd U rp fp" "a \<in> C" "U a = Some q" "r_flush q' = r_flush q" "r_pool q' = r_pool q"
    "tag (r_ifcall q') = tag (r_ifcall q)" "fcall_ok (r_ofcall q')"
  shows "str_ok C pd (U(a \<mapsto> q')) rp fp"
proof (rule str_okI)
  note d = str_okD[OF assms(1)]
  show "distinct pd" "set pd \<inter> C = {}" using d(1,2) by simp_all
  show "set pd \<union> C \<subseteq> dom (U(a \<mapsto> q'))" using d(3) by auto
  show "req_ok C pd (U(a \<mapsto> q')) rp fp b p" if u: "(U(a \<mapsto> q')) b = Some p" for b p
  proof (cases "b = a")
    case True
    then have p: "p = q'" using u by simp
    note r = req_okD[OF d(4)[OF assms(3)]]
    have "a \<notin> set pd" using d(2) assms(2) by auto
    moreover have "\<exists>p'. (U(a \<mapsto> q')) x = Some p' \<and> r_oldreq p' = Some a \<and> Fcall.type (r_ifcall p') = Tflush" if "x \<in> set (r_flush q)" for x
      using r(6)[OF that] assms(2) by auto
    ultimately show ?thesis unfolding p True req_ok_def assms(4) assms(5) assms(6) using r assms(2,7) by blast
  next
    case False
    then have p: "U b = Some p" using u by simp
    note r = req_okD[OF d(4)[OF p]]
    have "b \<in> set pd \<or> b \<in> C \<or> (\<exists>c p'. (U(a \<mapsto> q')) c = Some p' \<and> b \<in> set (r_flush p'))"
      using r(1) assms(3,4) by (metis fun_upd_apply option.inject)
    moreover have "\<exists>p'. (U(a \<mapsto> q')) x = Some p' \<and> r_oldreq p' = Some b \<and> Fcall.type (r_ifcall p') = Tflush" if "x \<in> set (r_flush p)" for x
      using r(6)[OF that] assms(2) by auto
    ultimately show ?thesis using r unfolding req_ok_def by blast
  qed
  show "b = c" if "b \<notin> C" "c \<notin> C" "(U(a \<mapsto> q')) b = Some p" "(U(a \<mapsto> q')) c = Some p'" "estab p = Some x" "estab p' = Some x" for b c p p' x
    using d(5)[of b c p p' x] that assms(2) by (metis fun_upd_apply)
qed

text \<open>A request that is answered: those that wait for it are in the hands of the code now.\<close>

lemma str_ok_answer:
  assumes "str_ok C pd U rp fp" "a \<in> C" "U a = Some q" "\<And>t. rp' t = (if r_pool q \<and> t = ucast (tag (r_ifcall q)) then None else rp t)"
  shows "str_ok (C - {a} \<union> set (r_flush q)) pd (U(a := None)) rp' fp"
proof (rule str_okI)
  note d = str_okD[OF assms(1)]
  note ra = req_okD[OF d(4)[OF assms(3)]]
  let ?C = "C - {a} \<union> set (r_flush q)"
  show "distinct pd" using d(1) by simp
  show "set pd \<inter> ?C = {}" using d(2) ra(6) by blast
  have ap: "a \<notin> set pd" using d(2) assms(2) by blast
  have af: "a \<notin> set (r_flush q)" using ra(6) assms(2) by blast
  have "set (r_flush q) \<subseteq> dom U" using ra(6) by blast
  then show "set pd \<union> ?C \<subseteq> dom (U(a := None))" using d(3) ap af by auto
  show "req_ok ?C pd (U(a := None)) rp' fp b p" if u: "(U(a := None)) b = Some p" for b p
  proof -
    have b: "b \<noteq> a" "U b = Some p" using u by (auto split: if_splits)
    note r = req_okD[OF d(4)[OF b(2)]]
    have "b \<in> set pd \<or> b \<in> ?C \<or> (\<exists>c p'. (U(a := None)) c = Some p' \<and> b \<in> set (r_flush p'))"
      using r(1) assms(3) b(1) by (metis Diff_iff UnCI fun_upd_other option.inject singletonD)
    moreover have "rp' (ucast (tag (r_ifcall p))) = Some b" if "r_pool p"
      using r(4)[OF that] ra(4) b(1) by (auto simp: assms(4))
    moreover have "x \<notin> ?C \<and> x \<notin> set pd \<and> (\<exists>p'. (U(a := None)) x = Some p' \<and> r_oldreq p' = Some b \<and> Fcall.type (r_ifcall p') = Tflush)"
      if "x \<in> set (r_flush p)" for x
      using r(6)[OF that] ra(6)[of x] assms(2) b(1) by auto
    moreover have "x \<in> fp" if "b \<notin> ?C" "estab p = Some x" for x using r(7)[of x] that b(1) by blast
    ultimately show ?thesis using r(2,3,5) unfolding req_ok_def by blast
  qed
  show "b = c" if "b \<notin> ?C" "c \<notin> ?C" "(U(a := None)) b = Some p" "(U(a := None)) c = Some p'" "estab p = Some x" "estab p' = Some x" for b c p p' x
    using d(5)[of b c p p' x] that by (metis Diff_iff Un_iff fun_upd_apply option.distinct(1) singletonD)
qed

text \<open>A request that waits for the one it flushes.\<close>

lemma str_ok_park:
  assumes "str_ok C pd U rp fp" "a \<in> C" "U a = Some q" "Fcall.type (r_ifcall q) = Tflush" "r_oldreq q = Some b" "U b = Some p" "b \<noteq> a"
    "p' = p\<lparr>r_flush := r_flush p @ [a]\<rparr>"
  shows "str_ok (C - {a}) pd (U(b \<mapsto> p')) rp fp"
proof (rule str_okI)
  note d = str_okD[OF assms(1)]
  let ?U = "U(b \<mapsto> p')"
  show "distinct pd" "set pd \<inter> (C - {a}) = {}" using d(1,2) by auto
  have ap: "a \<notin> set pd" using d(2) assms(2) by blast
  show "set pd \<union> (C - {a}) \<subseteq> dom ?U" using d(3) by auto
  have U: "\<exists>x. ?U c = Some x \<and> r_oldreq x = r_oldreq y \<and> Fcall.type (r_ifcall x) = Fcall.type (r_ifcall y)" if "U c = Some y" for c y
    using that assms(6,8) by auto
  show "req_ok (C - {a}) pd ?U rp fp c y" if u: "?U c = Some y" for c y
  proof -
    obtain z where z: "U c = Some z" "r_pool y = r_pool z" "r_ifcall y = r_ifcall z" "r_ofcall y = r_ofcall z" "ready y = ready z" "estab y = estab z"
      "r_flush y = (if c = b then r_flush z @ [a] else r_flush z)"
      using u assms(6,8) by (auto simp: ready_def estab_def Let_def split: if_splits)
    note r = req_okD[OF d(4)[OF z(1)]]
    have "c \<in> set pd \<or> c \<in> C - {a} \<or> (\<exists>e p1. ?U e = Some p1 \<and> c \<in> set (r_flush p1))"
    proof (cases "c = a")
      case True
      then show ?thesis using assms(8) by auto
    next
      case False
      have "\<exists>p1. ?U e = Some p1 \<and> c \<in> set (r_flush p1)" if "U e = Some y" "c \<in> set (r_flush y)" for e y
        using that assms(6,8) by (cases "e = b") auto
      then show ?thesis using r(1) False by blast
    qed
    moreover have "a \<notin> set (r_flush z)" using r(6)[of a] assms(2) by blast
    then have "distinct (r_flush y)" using r(5) z(7) by simp
    moreover have "x \<notin> C - {a} \<and> x \<notin> set pd \<and> (\<exists>p1. ?U x = Some p1 \<and> r_oldreq p1 = Some c \<and> Fcall.type (r_ifcall p1) = Tflush)"
      if x: "x \<in> set (r_flush y)" for x
    proof (cases "x = a")
      case True
      then have "c = b" using x z(7) \<open>a \<notin> set (r_flush z)\<close> by (auto split: if_splits)
      then show ?thesis using True ap U[OF assms(3)] assms(4,5) by auto
    next
      case False
      then have "x \<in> set (r_flush z)" using x z(7) by (auto split: if_splits)
      then obtain p1 where "U x = Some p1" "r_oldreq p1 = Some c" "Fcall.type (r_ifcall p1) = Tflush" "x \<notin> C" "x \<notin> set pd"
        using r(6) by blast
      then show ?thesis using U[of x p1] by auto
    qed
    moreover have "x \<in> fp" if "c \<notin> C - {a}" "estab y = Some x" for x
      using r(7)[of x] that z assms(3,4) by (cases "c = a") (auto simp: estab_def mtypes)
    moreover have "c \<in> set pd \<longrightarrow> ready y" "fcall_ok (r_ofcall y)" "r_pool y \<longrightarrow> rp (ucast (tag (r_ifcall y))) = Some c"
      using r(2,3,4) z by simp_all
    ultimately show ?thesis unfolding req_ok_def by blast
  qed
  show "c = e" if h: "c \<notin> C - {a}" "e \<notin> C - {a}" "?U c = Some y" "?U e = Some y'" "estab y = Some x" "estab y' = Some x" for c e y y' x
  proof -
    obtain z z' where z: "U c = Some z" "estab z = Some x" "U e = Some z'" "estab z' = Some x"
      using h(3-6) assms(6,8) by (auto simp: estab_def Let_def split: if_splits)
    moreover have "c \<noteq> a" "e \<noteq> a" using z assms(3,4) by (auto simp: estab_def mtypes)
    ultimately show ?thesis using d(5)[of c e z z' x] h(1,2) by blast
  qed
qed

text \<open>A request handed to the file server, and one that it answers.\<close>

lemma str_ok_call:
  assumes "str_ok C pd U rp fp" "a \<in> C" "U a = Some q" "ready q"
    "\<And>x. estab q = Some x \<Longrightarrow> x \<in> fp \<and> (\<forall>b p. b \<noteq> a \<longrightarrow> b \<notin> C \<longrightarrow> U b = Some p \<longrightarrow> estab p \<noteq> Some x)"
  shows "str_ok (C - {a}) (pd @ [a]) U rp fp"
proof (rule str_okI)
  note d = str_okD[OF assms(1)]
  have ap: "a \<notin> set pd" using d(2) assms(2) by blast
  show "distinct (pd @ [a])" "set (pd @ [a]) \<inter> (C - {a}) = {}" "set (pd @ [a]) \<union> (C - {a}) \<subseteq> dom U" using d(1-3) ap assms(3) by auto
  show "req_ok (C - {a}) (pd @ [a]) U rp fp b p" if u: "U b = Some p" for b p
  proof -
    note r = req_okD[OF d(4)[OF u]]
    have "b \<in> set (pd @ [a]) \<or> b \<in> C - {a} \<or> (\<exists>b' p. U b' = Some p \<and> b \<in> set (r_flush p))" using r(1) by auto
    moreover have "ready p" if "b \<in> set (pd @ [a])" using that r(2) assms(3,4) u by auto
    moreover have "x \<notin> C - {a} \<and> x \<notin> set (pd @ [a]) \<and> (\<exists>p'. U x = Some p' \<and> r_oldreq p' = Some b \<and> Fcall.type (r_ifcall p') = Tflush)"
      if "x \<in> set (r_flush p)" for x using r(6)[OF that] assms(2) by auto
    moreover have "x \<in> fp" if "b \<notin> C - {a}" "estab p = Some x" for x using that r(7)[of x] assms(3,5) u by (cases "b = a") auto
    ultimately show ?thesis using r(3-5) unfolding req_ok_def by blast
  qed
  show "b = c" if "b \<notin> C - {a}" "c \<notin> C - {a}" "U b = Some p" "U c = Some p'" "estab p = Some x" "estab p' = Some x" for b c p p' x
    using that d(5)[of b c p p' x] assms(3) assms(5)[of x] by (metis DiffI option.inject singletonD)
qed

lemma str_ok_take:
  assumes "str_ok {} pd U rp fp" "a \<in> set pd"
  shows "str_ok {a} (remove1 a pd) U rp fp"
proof (rule str_okI)
  note d = str_okD[OF assms(1)]
  have s: "set (remove1 a pd) = set pd - {a}" using d(1) by simp
  show "distinct (remove1 a pd)" "set (remove1 a pd) \<inter> {a} = {}" "set (remove1 a pd) \<union> {a} \<subseteq> dom U" using d(1,3) s assms(2) by auto
  show "req_ok {a} (remove1 a pd) U rp fp b p" if u: "U b = Some p" for b p
    unfolding req_ok_def s using req_okD[OF d(4)[OF u]] assms(2) by auto
  show "b = c" if "b \<notin> {a}" "c \<notin> {a}" "U b = Some p" "U c = Some p'" "estab p = Some x" "estab p' = Some x" for b c p p' x
    using that d(5)[of b c p p' x] by blast
qed

text \<open>A request that arrives.\<close>

lemma str_ok_new:
  assumes "str_ok {} pd U rp fp" "U a = None" "r_flush q = []" "fcall_ok (r_ofcall q)"
    "rp' = (if r_pool q then rp(ucast (tag (r_ifcall q)) \<mapsto> a) else rp)" "r_pool q \<longrightarrow> rp (ucast (tag (r_ifcall q))) = None"
  shows "str_ok {a} pd (U(a \<mapsto> q)) rp' fp"
proof (rule str_okI)
  note d = str_okD[OF assms(1)]
  have ap: "a \<notin> set pd" using d(3) assms(2) by auto
  show "distinct pd" "set pd \<inter> {a} = {}" "set pd \<union> {a} \<subseteq> dom (U(a \<mapsto> q))" using d(1,3) ap by auto
  show "req_ok {a} pd (U(a \<mapsto> q)) rp' fp b p" if u: "(U(a \<mapsto> q)) b = Some p" for b p
  proof (cases "b = a")
    case True
    then show ?thesis using u assms(3-5) ap by (auto simp: req_ok_def)
  next
    case False
    then have p: "U b = Some p" using u by simp
    note r = req_okD[OF d(4)[OF p]]
    have 1: "b \<in> set pd \<or> b \<in> {a} \<or> (\<exists>c p'. (U(a \<mapsto> q)) c = Some p' \<and> b \<in> set (r_flush p'))"
      using r(1) assms(2) by (metis empty_iff fun_upd_other option.distinct(1))
    have 2: "x \<notin> {a} \<and> x \<notin> set pd \<and> (\<exists>p'. (U(a \<mapsto> q)) x = Some p' \<and> r_oldreq p' = Some b \<and> Fcall.type (r_ifcall p') = Tflush)"
      if "x \<in> set (r_flush p)" for x using r(6)[OF that] assms(2) by auto
    have 3: "r_pool p \<longrightarrow> rp' (ucast (tag (r_ifcall p))) = Some b" using r(4) assms(5,6) by auto
    show ?thesis using 1 2 3 r(2,3,5,7) unfolding req_ok_def by blast
  qed
  show "b = c" if "b \<notin> {a}" "c \<notin> {a}" "(U(a \<mapsto> q)) b = Some p" "(U(a \<mapsto> q)) c = Some p'" "estab p = Some x" "estab p' = Some x" for b c p p' x
    using that d(5)[of b c p p' x] by auto
qed

text \<open>Changes of the pool of fids.\<close>

lemma str_ok_fp:
  assumes "str_ok C pd U rp fp" "\<And>a q x. a \<notin> C \<Longrightarrow> U a = Some q \<Longrightarrow> estab q = Some x \<Longrightarrow> x \<in> fp \<Longrightarrow> x \<in> fp'"
  shows "str_ok C pd U rp fp'"
proof (rule str_okI)
  note d = str_okD[OF assms(1)]
  show "req_ok C pd U rp fp' a q" if u: "U a = Some q" for a q
    using req_okD[OF d(4)[OF u]] assms(2)[OF _ u] unfolding req_ok_def by blast
qed (use str_okD[OF assms(1)] in blast)+

section \<open>The invariant of the server\<close>

definition cnt :: "u16 \<Rightarrow> (nat \<rightharpoonup> Req) \<Rightarrow> nat" where
  "cnt t U = card {a. \<exists>q. U a = Some q \<and> tag (r_ifcall q) = t}"

lemma finite_unans: "finite (dom (unans s))"
proof (rule finite_subset)
  show "dom (unans s) \<subseteq> {..<length (reqs s)}" using reqat_less by (fastforce simp: unans_Some)
qed simp

lemma cnt_upd:
  assumes "finite (dom U)"
  shows "cnt t (U(a := x)) + of_bool (\<exists>q. U a = Some q \<and> tag (r_ifcall q) = t) = cnt t U + of_bool (\<exists>q. x = Some q \<and> tag (r_ifcall q) = t)"
proof -
  let ?S = "\<lambda>U. {a. \<exists>q. U a = Some q \<and> tag (r_ifcall q) = t}"
  have f: "finite (?S U - {a})" using assms by (rule finite_subset[rotated]) auto
  have 1: "card (?S U) = card (?S U - {a}) + of_bool (a \<in> ?S U)"
    using card.remove[of "?S U" a] f by (cases "a \<in> ?S U") simp_all
  have 2: "card (?S (U(a := x))) = card (?S U - {a}) + of_bool (\<exists>q. x = Some q \<and> tag (r_ifcall q) = t)"
  proof (cases "\<exists>q. x = Some q \<and> tag (r_ifcall q) = t")
    case True
    then have "?S (U(a := x)) = insert a (?S U - {a})" by auto
    then show ?thesis using card_insert_disjoint[OF f, of a] True by simp
  next
    case False
    then have "?S (U(a := x)) = ?S U - {a}" by auto
    then show ?thesis using False by simp
  qed
  show ?thesis unfolding cnt_def 1 2 by auto
qed

text \<open>
  The requests are in order, every received message is answered or accounted for, and the buffers have the
  negotiated size.
\<close>

definition srv_inv :: "nat set \<Rightarrow> Srvst \<Rightarrow> bool" where
  "srv_inv C s \<longleftrightarrow> str_ok C (pending s) (unans s) (imap (rpool s)) (ran (imap (fpool s))) \<and>
     (\<forall>t. nrecv t s = nsent t s + cnt t (unans s)) \<and>
     length (s_wbuf s) = unat (s_msize s) \<and> length (s_rbuf s) = unat (s_msize s) \<and> 0 \<le> sint (s_msize s)"

definition Inv :: "nat set \<Rightarrow> nat set \<Rightarrow> nat set \<Rightarrow> Srvst \<Rightarrow> bool" where
  "Inv C T Y s \<longleftrightarrow> fid_inv Y (\<lambda>_. 0) s \<and> ref_inv T (\<lambda>_. 0) s \<and> srv_inv C s"

lemma InvD: "Inv C T Y s \<Longrightarrow> fid_inv Y (\<lambda>_. 0) s" "Inv C T Y s \<Longrightarrow> ref_inv T (\<lambda>_. 0) s" "Inv C T Y s \<Longrightarrow> srv_inv C s"
  by (simp_all add: Inv_def)

lemma srv_invD:
  assumes "srv_inv C s"
  shows "str_ok C (pending s) (unans s) (imap (rpool s)) (ran (imap (fpool s)))" "nrecv t s = nsent t s + cnt t (unans s)"
    "length (s_wbuf s) = unat (s_msize s)" "length (s_rbuf s) = unat (s_msize s)" "0 \<le> sint (s_msize s)"
  using assms by (simp_all add: srv_inv_def)

lemma srv_inv_keeps:
  "srv_inv C s \<Longrightarrow> keeps s s' \<Longrightarrow> unans s' = unans s \<Longrightarrow> ran (imap (fpool s')) = ran (imap (fpool s)) \<Longrightarrow> srv_inv C s'"
  by (simp add: srv_inv_def keeps_def)

lemma srv_inv_shrinks: "srv_inv C s \<Longrightarrow> shrinks T s s' \<Longrightarrow> srv_inv C s'"
  by (rule srv_inv_keeps[OF _ _ shrinks_unans]) (auto simp: shrinks_def)

lemma srv_inv_str:
  "srv_inv C s \<Longrightarrow> keeps s s' \<Longrightarrow> unans s' = unans s \<Longrightarrow>
    str_ok C' (pending s') (unans s') (imap (rpool s')) (ran (imap (fpool s'))) \<Longrightarrow> srv_inv C' s'"
  by (simp add: srv_inv_def keeps_def)

text \<open>Changes of one object.\<close>

lemma fid_inv_putr:
  assumes "fid_inv Y E s" "reqat s a = Some q" "\<And>x. E' x + wfid x (Some q') = E x + wfid x (Some q)"
  shows "fid_inv Y E' (putr a (Some q') s)"
proof (rule fid_inv_cong[OF assms(1)])
  have l: "a < length (reqs s)" using reqat_less assms(2) by simp
  show "tot (wfid x) (putr a (Some q') s) + E' x = tot (wfid x) s + E x" for x
    using tot_putr[OF l, of "wfid x" "Some q'"] assms(2) assms(3)[of x] by simp
qed simp_all

lemma ref_inv_putr:
  assumes "ref_inv T E s" "reqat s a = Some q" "r_ref q' = r_ref q" "r_pool q' = r_pool q" "r_responded q' = r_responded q"
    "tag (r_ifcall q') = tag (r_ifcall q)" "shape q'" "\<And>b. r_oldreq q' = Some b \<Longrightarrow> b < a"
    "\<And>b. E' b + wold b (Some q') \<le> E b + wold b (Some q)"
  shows "ref_inv T E' (putr a (Some q') s)"
proof -
  have l: "a < length (reqs s)" using reqat_less assms(2) by simp
  define s' where "s' = putr a (Some q') s"
  have r: "reqat s' b = (if b = a then Some q' else reqat s b)" for b using l by (simp add: s'_def reqat_putr)
  have w: "tot (wold c) s' + E' c \<le> tot (wold c) s + E c" for c
    using tot_putr[OF l, of "wold c" "Some q'"] assms(2) assms(9)[of c] by (simp add: s'_def)
  have p: "rpool s' = rpool s" by (simp add: s'_def)
  have bs: "base T s' b y = base T s b y" "base T s b q' = base T s b q" for b y by (simp_all add: base_def p assms(5,6))
  have "ref_inv T E' s'"
  proof (rule ref_invI)
    show "imap_ok (rpool s')" using assms(1) p by (simp add: ref_inv_def)
    show "\<exists>q. reqat s' b = Some q \<and> r_pool q \<and> \<not> r_responded q \<and> ucast (tag (r_ifcall q)) = t" if i: "imap (rpool s') t = Some b" for t b
    proof -
      obtain q1 where q1: "reqat s b = Some q1" "r_pool q1" "\<not> r_responded q1" "ucast (tag (r_ifcall q1)) = t"
        using ref_inv_pool[OF assms(1), of t b] i p by auto
      then show ?thesis using assms(2,4-6) by (cases "b = a") (simp_all add: r)
    qed
    show "int (base T s' b y + tot (wold b) s' + E' b) \<le> r_ref y \<and> shape y \<and> (\<forall>d. r_oldreq y = Some d \<longrightarrow> d < b)" if y: "reqat s' b = Some y" for b y
    proof (cases "b = a")
      case True
      then have "y = q'" using y r by simp
      then show ?thesis using True ref_inv_req[OF assms(1,2)] w[of a] bs assms(3,7,8) by auto
    next
      case False
      then show ?thesis using y r ref_inv_req[OF assms(1), of b y] w[of b] bs by auto
    qed
    show "\<exists>q. reqat s' b = Some q \<and> r_pool q" if g: "0 < tot (wold b) s' + E' b" for b
    proof -
      have "0 < tot (wold b) s + E b" using g w[of b] by linarith
      then obtain q1 where "reqat s b = Some q1" "r_pool q1" using ref_inv_ref[OF assms(1), of b] by auto
      then show ?thesis using r assms(2,4) by (cases "b = a") simp_all
    qed
  qed
  then show ?thesis by (simp add: s'_def)
qed

lemma srv_inv_putr:
  assumes "srv_inv C s" "a \<in> C" "reqat s a = Some q" "\<not> r_responded q" "r_flush q' = r_flush q" "r_pool q' = r_pool q"
    "r_responded q' = r_responded q" "tag (r_ifcall q') = tag (r_ifcall q)" "fcall_ok (r_ofcall q')"
  shows "srv_inv C (putr a (Some q') s)"
proof -
  let ?s = "putr a (Some q') s"
  have l: "a < length (reqs s)" using reqat_less assms(3) by simp
  have u: "unans ?s = (unans s)(a \<mapsto> norm q')" using assms(4,7) by (simp add: unans_putr[OF l])
  have ua: "unans s a = Some (norm q)" using assms(3,4) by (rule unansI)
  have "str_ok C (pending s) ((unans s)(a \<mapsto> norm q')) (imap (rpool s)) (ran (imap (fpool s)))"
    by (rule str_ok_upd[OF srv_invD(1)[OF assms(1)] assms(2) ua]) (use assms in simp_all)
  moreover have "cnt t ((unans s)(a \<mapsto> norm q')) = cnt t (unans s)" for t
    using cnt_upd[OF finite_unans, of t s a "Some (norm q')"] ua assms(8) by simp
  moreover have "nrecv t ?s = nrecv t s" "nsent t ?s = nsent t s" for t by (simp_all add: nrecv_def nsent_def)
  ultimately show ?thesis using srv_invD(2-5)[OF assms(1)] unfolding srv_inv_def u by simp
qed

lemma Inv_putr:
  assumes "Inv C T Y s" "a \<in> C" "reqat s a = Some q" "\<not> r_responded q"
    "r_fid q' = r_fid q" "r_afid q' = r_afid q" "r_newfid q' = r_newfid q" "r_oldreq q' = r_oldreq q \<or> r_oldreq q' = None" "r_ref q' = r_ref q" "r_flush q' = r_flush q" "r_pool q' = r_pool q"
    "r_responded q' = r_responded q" "tag (r_ifcall q') = tag (r_ifcall q)" "fcall_ok (r_ofcall q')" "\<not> r_statfreed q'"
  shows "Inv C T Y (putr a (Some q') s)"
  unfolding Inv_def
proof (intro conjI)
  show "fid_inv Y (\<lambda>_. 0) (putr a (Some q') s)"
    by (rule fid_inv_putr[OF InvD(1)[OF assms(1)] assms(3)]) (simp add: wfid_def assms(5-7))
  have "shape q'" using ref_inv_req[OF InvD(2)[OF assms(1)] assms(3)] assms(5-8,11,15) by (auto simp: shape_def)
  then show "ref_inv T (\<lambda>_. 0) (putr a (Some q') s)"
    by (intro ref_inv_putr[OF InvD(2)[OF assms(1)] assms(3)]) (use assms ref_inv_req[OF InvD(2)[OF assms(1)] assms(3)] in \<open>auto simp: wold_def\<close>)
  show "srv_inv C (putr a (Some q') s)"
    by (rule srv_inv_putr[OF InvD(3)[OF assms(1)]]) (use assms in simp_all)
qed

lemma Inv_putf:
  assumes "Inv C T Y s" "fidat s x = Some f" "f_fid g = f_fid f" "f_file g = None" "f_ref g = f_ref f"
    "uid_ok g \<or> f_uid g = f_uid f" "Y - (if uid_ok g then {x} else {}) \<subseteq> Y'"
  shows "Inv C T Y' (putf x (Some g) s)"
  unfolding Inv_def
proof (intro conjI)
  show "fid_inv Y' (\<lambda>_. 0) (putf x (Some g) s)"
    by (rule fid_inv_putf[OF InvD(1)[OF assms(1)] assms(2-5)]) (use assms(6,7) in \<open>auto split: if_splits\<close>)
  show "ref_inv T (\<lambda>_. 0) (putf x (Some g) s)" by (rule ref_inv_cong[OF InvD(2)[OF assms(1)]]) simp_all
  show "srv_inv C (putf x (Some g) s)"
    by (rule srv_inv_keeps[OF InvD(3)[OF assms(1)] _ unans_cong]) simp_all
qed

text \<open>The request in the hands of the code, and the fids it refers to.\<close>

lemma Inv_req:
  assumes "Inv C T Y s" "a \<in> C"
  obtains q where "reqat s a = Some q" "\<not> r_responded q" "unans s a = Some (norm q)" "fcall_ok (r_ofcall q)" "\<not> r_statfreed q"
    "req_ok C (pending s) (unans s) (imap (rpool s)) (ran (imap (fpool s))) a (norm q)"
proof -
  note d = str_okD[OF srv_invD(1)[OF InvD(3)[OF assms(1)]]]
  obtain p where p: "unans s a = Some p" using d(3) assms(2) by auto
  then obtain q where q: "reqat s a = Some q" "\<not> r_responded q" "p = norm q" by (auto simp: unans_Some)
  moreover have "fcall_ok (r_ofcall q)" using req_okD(3)[OF d(4)[OF p]] q(3) by simp
  moreover have "\<not> r_statfreed q" using ref_inv_req[OF InvD(2)[OF assms(1)] q(1)] by simp
  ultimately show ?thesis using that d(4)[OF p] p by blast
qed

lemma Inv_fid:
  assumes "Inv C T Y s" "reqat s a = Some q" "r_fid q = Some x \<or> r_newfid q = Some x \<or> r_afid q = Some x"
  shows "\<exists>f. fidat s x = Some f \<and> f_file f = None"
proof -
  have "0 < wfid x (reqat s a)" using assms(2,3) by (auto simp: wfid_def)
  then have "0 < tot (wfid x) s + 0" using tot_ge[of "wfid x" s a] by simp
  then obtain f where "fidat s x = Some f" using fid_inv_ref[OF InvD(1)[OF assms(1)], of x] by auto
  then show ?thesis using fid_inv_fid[OF InvD(1)[OF assms(1)]] by blast
qed

section \<open>Sending a reply\<close>

definition sendable :: "byte list \<Rightarrow> Fcall \<Rightarrow> bool" where
  "sendable m f \<longleftrightarrow> fcall_ok f \<and> (\<exists>g. msg_of m f = Some g \<and> msg_ok g)"

lemma sent_tag_wire: "sent_tag (Sent (wire t g)) = Some t"
proof -
  have "has_at (wire t g) 0 (wire t g)" by (simp add: has_at_def)
  then have "GBIT16 (wire t g) (BIT32SZ + BIT8SZ) = Some t" unfolding wire_def by (simp add: gbits del: of_nat_add)
  then show ?thesis by (simp add: sent_tag_def BIT32SZ_def BIT8SZ_def)
qed

lemma sint_of_nat_32: "n < 2 ^ 31 \<Longrightarrow> sint (of_nat n :: u32) = int n"
  by (simp add: signed_of_nat signed_take_bit_int_eq_self)

lemma unat_nonneg_32:
  assumes "0 \<le> sint (m :: u32)"
  shows "unat m < 2 ^ 31"
proof -
  have "sint m = (uint m + 2 ^ 31) mod 2 ^ 32 - 2 ^ 31"
    by (simp add: sint_uint signed_take_bit_eq_take_bit_shift take_bit_eq_mod)
  then have "2 ^ 31 \<le> (uint m + 2 ^ 31) mod 2 ^ 32" using assms by linarith
  moreover have "uint m < 2 ^ 32" using uint_lt2p[of m] by simp
  moreover have "(uint m + 2 ^ 31) mod 2 ^ 32 = uint m - 2 ^ 31" if "2 ^ 31 \<le> uint m"
  proof -
    have "uint m + 2 ^ 31 = uint m - 2 ^ 31 + 2 ^ 32" by simp
    then have "(uint m + 2 ^ 31) mod 2 ^ 32 = (uint m - 2 ^ 31) mod 2 ^ 32" by (metis mod_add_self2)
    also have "\<dots> = uint m - 2 ^ 31" using that calculation by (intro mod_pos_pos_trivial) (use uint_lt2p[of m] in simp_all)
    finally show ?thesis .
  qed
  ultimately have "uint m < 2 ^ 31" by (cases "2 ^ 31 \<le> uint m") simp_all
  then show ?thesis by (simp add: nat_less_iff flip: nat_uint_eq)
qed

text \<open>What \<^verbatim>\<open>convS2M\<close> does with a reply that can be sent.\<close>

lemma reply_wire:
  assumes "sendable m f" "0 \<le> sint (ms :: u32)" "length b = unat ms"
  obtains (small) "convS2M m f b (unat ms) = Some (b, 0)"
    | (sent) g n where "convS2M m f b (unat ms) = Some (upd b 0 (wire (tag f) g), n)" "2 < sint n" "unat n = length (wire (tag f) g)" "unat n \<le> unat ms"
      "7 \<le> unat ms" "take (unat n) (upd b 0 (wire (tag f) g)) = wire (tag f) g"
proof -
  obtain g where g: "fcall_ok f" "msg_of m f = Some g" "msg_ok g" using assms(1) by (auto simp: sendable_def)
  note c = convS2M_wire[OF g(2,1,3), of "unat ms" b]
  show ?thesis
  proof (cases "length (wire (tag f) g) \<le> unat ms")
    case True
    let ?n = "of_nat (length (wire (tag f) g)) :: u32"
    have l: "7 \<le> length (wire (tag f) g)" by (simp add: HDR)
    have s: "length (wire (tag f) g) < 2 ^ 31" using unat_nonneg_32[OF assms(2)] True by linarith
    have "sint ?n = int (length (wire (tag f) g))" by (rule sint_of_nat_32[OF s])
    moreover have "unat ?n = length (wire (tag f) g)" by (rule unat_of_nat_32) (use s in simp)
    moreover have "take (length (wire (tag f) g)) (upd b 0 (wire (tag f) g)) = wire (tag f) g" by (simp add: upd_def)
    ultimately show ?thesis using sent[of g ?n] c True assms(3) l by simp
  qed (use small c assms(3) in simp)
qed

text \<open>Removing the request from the pool, and marking it as answered.\<close>

lemma ref_inv_del:
  assumes "ref_inv T (\<lambda>_. 0) s" "imap (rpool s) t = Some a" "imap_ok m" "imap m = (imap (rpool s))(t := None)"
  shows "ref_inv T (\<lambda>b. of_bool (b = a)) (s\<lparr>rpool := m\<rparr>)"
proof (rule ref_invI)
  let ?s = "s\<lparr>rpool := m\<rparr>"
  obtain q where q: "reqat s a = Some q" "r_pool q" "ucast (tag (r_ifcall q)) = t" using ref_inv_pool[OF assms(1,2)] by blast
  show "imap_ok (rpool ?s)" using assms(3) by simp
  show "\<exists>q. reqat ?s b = Some q \<and> r_pool q \<and> \<not> r_responded q \<and> ucast (tag (r_ifcall q)) = t'" if "imap (rpool ?s) t' = Some b" for t' b
    using ref_inv_pool[OF assms(1), of t' b] that assms(4) by (auto split: if_splits)
  show "int (base T ?s b p + tot (wold b) ?s + of_bool (b = a)) \<le> r_ref p \<and> shape p \<and> (\<forall>d. r_oldreq p = Some d \<longrightarrow> d < b)"
    if p: "reqat ?s b = Some p" for b p
  proof -
    have "base T ?s b p + of_bool (b = a) \<le> base T s b p" using p q assms(2,4) by (cases "b = a") (auto simp: base_def)
    then show ?thesis using ref_inv_req[OF assms(1), of b p] p by auto
  qed
  show "\<exists>q. reqat ?s b = Some q \<and> r_pool q" if "0 < tot (wold b) ?s + of_bool (b = a)" for b
    using ref_inv_ref[OF assms(1), of b] that q by (cases "b = a") auto
qed

lemma ref_inv_respond:
  assumes "ref_inv T (\<lambda>_. 0) s" "reqat s a = Some q" "\<not> r_responded q" "\<And>t. imap (rpool s) t \<noteq> Some a"
  shows "ref_inv (insert a T) (\<lambda>_. 0) (putr a (Some (q\<lparr>r_responded := True\<rparr>)) s)"
proof (rule ref_invI)
  let ?q = "q\<lparr>r_responded := True\<rparr>"
  let ?s = "putr a (Some ?q) s"
  have l: "a < length (reqs s)" using reqat_less assms(2) by simp
  have w: "tot (wold c) ?s = tot (wold c) s" for c using tot_putr[OF l, of "wold c" "Some ?q"] assms(2) by (simp add: wold_def)
  show "imap_ok (rpool ?s)" using assms(1) by (simp add: ref_inv_def)
  show "\<exists>q. reqat ?s b = Some q \<and> r_pool q \<and> \<not> r_responded q \<and> ucast (tag (r_ifcall q)) = t" if "imap (rpool ?s) t = Some b" for t b
    using ref_inv_pool[OF assms(1), of t b] assms(4)[of t] that l by (cases "b = a") (auto simp: reqat_putr)
  show "int (base (insert a T) ?s b p + tot (wold b) ?s + 0) \<le> r_ref p \<and> shape p \<and> (\<forall>d. r_oldreq p = Some d \<longrightarrow> d < b)"
    if p: "reqat ?s b = Some p" for b p
  proof (cases "b = a")
    case True
    then have "p = ?q" using p l by (simp add: reqat_putr)
    then show ?thesis using ref_inv_req[OF assms(1,2)] True w[of a] assms(3) by (simp add: base_def)
  next
    case False
    then have "reqat s b = Some p" using p l by (simp add: reqat_putr)
    then show ?thesis using ref_inv_req[OF assms(1), of b p] False w[of b] by (simp add: base_def)
  qed
  show "\<exists>q. reqat ?s b = Some q \<and> r_pool q" if "0 < tot (wold b) ?s + 0" for b
    using ref_inv_ref[OF assms(1), of b] that w l assms(2) by (cases "b = a") (auto simp: reqat_putr)
qed

text \<open>Giving up the fid of an answered request.\<close>

lemma drop_fid:
  assumes "fid_inv Y (\<lambda>_. 0) s" "ref_inv T (\<lambda>_. 0) s" "reqat s a = Some q" "r_fid q = Some x" "a \<in> T"
  obtains s' where "andthen (closefid srv (r_fid q) s) (modr a (\<lambda>r. r\<lparr>r_fid := None\<rparr>)) = Ok s'"
    "fid_inv Y (\<lambda>_. 0) s'" "ref_inv T (\<lambda>_. 0) s'" "reqat s' = (reqat s)(a \<mapsto> q\<lparr>r_fid := None\<rparr>)" "keeps s s'" "fpool s' = fpool s" "length (reqs s') = length (reqs s)"
proof -
  have l: "a < length (reqs s)" using reqat_less assms(3) by simp
  define q' where "q' = q\<lparr>r_fid := None\<rparr>"
  define M where "M = [a \<mapsto> Some q']"
  have m: "over M u = putr a (Some q') u" if "a < length (reqs u)" for u
    using over_putr(2)[where M = Map.empty and y = "Some q'", OF that] by (simp add: M_def)
  have "fid_inv Y (\<lambda>y. of_bool (y = x)) (over M s)" unfolding m[OF l]
    by (rule fid_inv_putr[OF assms(1,3)]) (use assms(4) in \<open>auto simp: wfid_def q'_def\<close>)
  moreover have "0 < (\<lambda>y. of_bool (y = x) :: nat) x" by simp
  ultimately obtain s1 where s1: "closefid srv (Some x) s = Ok s1"
    "fid_inv Y ((\<lambda>y. of_bool (y = x))(x := (\<lambda>y. of_bool (y = x)) x - 1)) (over M s1)" "shrinks T s s1" "reqs s1 = reqs s"
    by (rule closefid_over[where srv = srv and T = T]) blast
  have r1: "reqat s1 = reqat s" using s1(4) by (simp add: reqat_def fun_eq_iff)
  have l1: "a < length (reqs s1)" using l s1(4) by simp
  let ?s = "putr a (Some q') s1"
  have "andthen (closefid srv (r_fid q) s) (modr a (\<lambda>r. r\<lparr>r_fid := None\<rparr>)) = Ok ?s" using s1(1) assms(3,4) r1 by (simp add: q'_def)
  moreover have "((\<lambda>y. of_bool (y = x))(x := (\<lambda>y. of_bool (y = x)) x - 1)) = (\<lambda>_. 0 :: nat)" by auto
  then have "fid_inv Y (\<lambda>_. 0) ?s" using s1(2) by (simp only: m[OF l1])
  moreover have "ref_inv T (\<lambda>_. 0) s1" by (rule ref_inv_cong[OF assms(2)]) (use s1(4) shrinks_same[OF s1(3)] in simp_all)
  then have "ref_inv T (\<lambda>_. 0) ?s"
    by (rule ref_inv_putr[where q = q]) (use assms(3) r1 ref_inv_req[OF assms(2,3)] in \<open>auto simp: q'_def wold_def\<close>)
  moreover have "reqat ?s = (reqat s)(a \<mapsto> q')" using l1 r1 by (auto simp: reqat_putr)
  moreover have "keeps s ?s" using s1(3) keeps_trans[OF _ keeps_put(2)] by (simp add: shrinks_def)
  ultimately show ?thesis using that[of ?s] s1(3,4) by (simp add: q'_def shrinks_def)
qed

lemma leave_pool:
  assumes "fid_inv Y (\<lambda>_. 0) s" "ref_inv T (\<lambda>_. 0) s" "reqat s a = Some q" "r_pool q \<longrightarrow> imap (rpool s) t = Some a"
  obtains s' where "(if r_pool q then (case removereq t s of (x, s) \<Rightarrow> closereq srv x s) else Ok s) = Ok s'"
    "fid_inv Y (\<lambda>_. 0) s'" "ref_inv T (\<lambda>_. 0) s'" "shrinks T (s\<lparr>rpool := rpool s'\<rparr>) s'"
    "\<And>u. imap (rpool s') u = (if r_pool q \<and> u = t then None else imap (rpool s) u)"
proof (cases "r_pool q")
  case True
  obtain v m where vm: "deletekey (rpool s) t = (v, m)" by (cases "deletekey (rpool s) t")
  have ok: "imap_ok (rpool s)" using assms(2) by (simp add: ref_inv_def)
  have v: "v = imap (rpool s) t" "imap_ok m" "imap m = (imap (rpool s))(t := None)" using im.delE[OF ok vm] by blast+
  have va: "v = Some a" using v(1) assms(4) True by simp
  let ?s = "s\<lparr>rpool := m\<rparr>"
  have f: "fid_inv Y (\<lambda>_. 0) (over Map.empty ?s)" using fid_inv_cong[OF assms(1), of ?s "\<lambda>_. 0" Y] by simp
  have r: "ref_inv T (\<lambda>b. of_bool (b = a)) (over Map.empty ?s)"
    using ref_inv_del[OF assms(2) _ v(2,3), of a] assms(4) True by simp
  have "a < length (reqs ?s)" using reqat_less[of s a] assms(3) by simp
  then obtain s' where s': "closereq srv (Some a) ?s = Ok s'" "fid_inv Y (\<lambda>_. 0) s'"
      "ref_inv T ((\<lambda>b. of_bool (b = a))(a := (\<lambda>b. of_bool (b = a)) a - 1)) s'" "shrinks T ?s s'"
    using closereq_spec[OF f r, of a "Suc (length (reqs ?s))" srv] by (auto simp: closereq_def simp del: closereq_n.simps)
  have "((\<lambda>b. of_bool (b = a))(a := (\<lambda>b. of_bool (b = a)) a - 1)) = (\<lambda>_. 0 :: nat)" by auto
  moreover have "rpool s' = m" using shrinks_same[OF s'(4)] by simp
  ultimately show ?thesis using that[of s'] True s' vm va v(3) by (simp add: removereq_def)
next
  case False
  then show ?thesis using that[of s] assms(1,2) by simp
qed

lemma mark_answered:
  assumes "fid_inv Y (\<lambda>_. 0) s" "ref_inv T (\<lambda>_. 0) s" "reqat s a = Some q" "\<not> r_responded q" "\<And>t. imap (rpool s) t \<noteq> Some a"
  obtains s' q' where "\<And>k :: Srvst \<Rightarrow> Srvst outcome. andthen (modr a (\<lambda>r. r\<lparr>r_responded := True\<rparr>) s) (\<lambda>s.
      andthen (getr a s) (\<lambda>r.
      andthen (if r_pool r \<and> r_ref r = 1 + int (length (r_flush r)) \<and> r_fid r \<noteq> None then
                 andthen (closefid srv (r_fid r) s) (\<lambda>s. modr a (\<lambda>r. r\<lparr>r_fid := None\<rparr>) s)
               else Ok s) k)) = k s'"
    "fid_inv Y (\<lambda>_. 0) s'" "ref_inv (insert a T) (\<lambda>_. 0) s'" "keeps s s'" "fpool s' = fpool s" "length (reqs s') = length (reqs s)"
    "reqat s' = (reqat s)(a \<mapsto> q')" "r_responded q'" "r_flush q' = r_flush q" "r_pool q' = r_pool q"
proof -
  have l: "a < length (reqs s)" using reqat_less assms(3) by simp
  define q1 where "q1 = q\<lparr>r_responded := True\<rparr>"
  define s1 where "s1 = putr a (Some q1) s"
  have m1: "modr a (\<lambda>r. r\<lparr>r_responded := True\<rparr>) s = Ok s1" using assms(3) by (simp add: s1_def q1_def)
  have a1: "reqat s1 a = Some q1" using l by (simp add: s1_def reqat_putr)
  have r1: "reqat s1 = (reqat s)(a \<mapsto> q1)" using l by (auto simp: s1_def reqat_putr)
  have i1: "fid_inv Y (\<lambda>_. 0) s1" unfolding s1_def by (rule fid_inv_putr[OF assms(1,3)]) (simp add: wfid_def q1_def)
  have i2: "ref_inv (insert a T) (\<lambda>_. 0) s1" unfolding s1_def q1_def by (rule ref_inv_respond[OF assms(2-5)])
  have q1: "r_responded q1" "r_flush q1 = r_flush q" "r_pool q1 = r_pool q" by (simp_all add: q1_def)
  have o1: "keeps s s1" "fpool s1 = fpool s" "length (reqs s1) = length (reqs s)" by (simp_all add: s1_def)
  show ?thesis
  proof (cases "r_pool q1 \<and> r_ref q1 = 1 + int (length (r_flush q1)) \<and> r_fid q1 \<noteq> None")
    case True
    then obtain x where x: "r_fid q1 = Some x" by auto
    obtain s2 where s2: "andthen (closefid srv (r_fid q1) s1) (modr a (\<lambda>r. r\<lparr>r_fid := None\<rparr>)) = Ok s2"
      "fid_inv Y (\<lambda>_. 0) s2" "ref_inv (insert a T) (\<lambda>_. 0) s2" "reqat s2 = (reqat s1)(a \<mapsto> q1\<lparr>r_fid := None\<rparr>)" "keeps s1 s2" "fpool s2 = fpool s1"
      "length (reqs s2) = length (reqs s1)"
      by (rule drop_fid[OF i1 i2 a1 x, of srv]) simp
    have s2': "andthen (closefid srv (r_fid q1) s1) (\<lambda>s. modr a (\<lambda>r. r\<lparr>r_fid := None\<rparr>) s) = Ok s2" using s2(1) by simp
    have k: "andthen (modr a (\<lambda>r. r\<lparr>r_responded := True\<rparr>) s) (\<lambda>s.
      andthen (getr a s) (\<lambda>r.
      andthen (if r_pool r \<and> r_ref r = 1 + int (length (r_flush r)) \<and> r_fid r \<noteq> None then
                 andthen (closefid srv (r_fid r) s) (\<lambda>s. modr a (\<lambda>r. r\<lparr>r_fid := None\<rparr>) s)
               else Ok s) k)) = k s2" for k :: "Srvst \<Rightarrow> Srvst outcome"
      unfolding m1 andthen.simps getr_Some[OF a1] if_P[OF True] s2' ..
    show ?thesis
      by (rule that[of s2 "q1\<lparr>r_fid := None\<rparr>", OF k s2(2,3)]) (use s2 r1 q1 o1 keeps_trans[OF o1(1) s2(5)] in \<open>simp_all\<close>)
  next
    case False
    have k: "andthen (modr a (\<lambda>r. r\<lparr>r_responded := True\<rparr>) s) (\<lambda>s.
      andthen (getr a s) (\<lambda>r.
      andthen (if r_pool r \<and> r_ref r = 1 + int (length (r_flush r)) \<and> r_fid r \<noteq> None then
                 andthen (closefid srv (r_fid r) s) (\<lambda>s. modr a (\<lambda>r. r\<lparr>r_fid := None\<rparr>) s)
               else Ok s) k)) = k s1" for k :: "Srvst \<Rightarrow> Srvst outcome"
      unfolding m1 andthen.simps getr_Some[OF a1] if_not_P[OF False] ..
    show ?thesis by (rule that[of s1 q1, OF k i1 i2]) (use r1 q1 o1 in simp_all)
  qed
qed

lemma transmit_spec:
  assumes "Inv C T {} s" "a \<in> C" "reqat s a = Some q" "\<not> r_responded q" "sendable (r_buf q) (r_ofcall q)" "tag (r_ofcall q) = tag (r_ifcall q)"
  obtains (stop) m where "transmit srv a s = Abort m"
    | (answered) s' q' where "transmit srv a s = Ok s'" "Inv (C - {a} \<union> set (r_flush q)) (insert a T) {} s'" "reqat s' a = Some q'" "r_responded q'"
      "r_flush q' = r_flush q" "r_pool q' = r_pool q" "\<And>c. c \<noteq> a \<Longrightarrow> c \<in> T \<or> unans s c \<noteq> None \<Longrightarrow> view s' c = view s c"
      "length (reqs s') = length (reqs s)" "pending s' = pending s" "s_msize s' = s_msize s" "7 \<le> unat (s_msize s)"
proof -
  note I = InvD[OF assms(1)]
  note sv = srv_invD[OF I(3)]
  have ua: "unans s a = Some (norm q)" using assms(3,4) by (rule unansI)
  show ?thesis
  proof (cases rule: reply_wire[OF assms(5) sv(5) sv(3), case_names small sent])
    case small
    then show ?thesis using stop assms(3) by (simp add: transmit_def)
  next
    case (sent g n)
    let ?t = "ucast (tag (r_ifcall q)) :: u64"
    let ?w = "wire (tag (r_ofcall q)) g"
    define s1 where "s1 = s\<lparr>s_wbuf := upd (s_wbuf s) 0 ?w\<rparr>"
    have r1: "reqat s1 = reqat s" by (simp add: s1_def)
    have f1: "fid_inv {} (\<lambda>_. 0) s1" by (rule fid_inv_cong[OF I(1)]) (simp_all add: s1_def)
    have rf1: "ref_inv T (\<lambda>_. 0) s1" by (rule ref_inv_cong[OF I(2)]) (simp_all add: s1_def)
    have p1: "r_pool q \<longrightarrow> imap (rpool s1) ?t = Some a"
      using req_okD(4)[OF str_okD(4)[OF sv(1) ua]] by (simp add: s1_def)
    have a1: "reqat s1 a = Some q" using assms(3) r1 by simp
    obtain s2 where s2: "(if r_pool q then (case removereq ?t s1 of (x, s) \<Rightarrow> closereq srv x s) else Ok s1) = Ok s2"
      "fid_inv {} (\<lambda>_. 0) s2" "ref_inv T (\<lambda>_. 0) s2" "shrinks T (s1\<lparr>rpool := rpool s2\<rparr>) s2"
      "\<And>u. imap (rpool s2) u = (if r_pool q \<and> u = ?t then None else imap (rpool s1) u)"
      by (rule leave_pool[OF f1 rf1 a1 p1, of srv]) blast
    have u2: "unans s2 = unans s" using shrinks_unans[OF s2(4)] unans_cong[of "s1\<lparr>rpool := rpool s2\<rparr>" s] r1 by simp
    have "unans s2 a = Some (norm q)" using ua u2 by simp
    then obtain q2 where q2: "reqat s2 a = Some q2" "\<not> r_responded q2" "norm q2 = norm q" unfolding unans_Some by metis
    have fl: "r_flush q2 = r_flush q" "r_pool q2 = r_pool q" using q2(3) by (metis norm_simps(13), metis norm_simps(9))
    have out: "imap (rpool s2) t \<noteq> Some a" for t
      using ref_inv_pool[OF rf1, of t a] s2(5)[of t] assms(3) r1 by auto
    obtain s3 q3 where s3: "\<And>k :: Srvst \<Rightarrow> Srvst outcome. andthen (modr a (\<lambda>r. r\<lparr>r_responded := True\<rparr>) s2) (\<lambda>s.
      andthen (getr a s) (\<lambda>r.
      andthen (if r_pool r \<and> r_ref r = 1 + int (length (r_flush r)) \<and> r_fid r \<noteq> None then
                 andthen (closefid srv (r_fid r) s) (\<lambda>s. modr a (\<lambda>r. r\<lparr>r_fid := None\<rparr>) s)
               else Ok s) k)) = k s3"
      "fid_inv {} (\<lambda>_. 0) s3" "ref_inv (insert a T) (\<lambda>_. 0) s3" "keeps s2 s3" "fpool s3 = fpool s2" "length (reqs s3) = length (reqs s2)"
      "reqat s3 = (reqat s2)(a \<mapsto> q3)" "r_responded q3" "r_flush q3 = r_flush q2" "r_pool q3 = r_pool q2"
      by (rule mark_answered[OF s2(2,3) q2(1,2) out, of srv]) blast
    have k2: "keeps (s1\<lparr>rpool := rpool s2\<rparr>) s2" "fpool s2 = fpool s" "length (reqs s2) = length (reqs s)"
      using s2(4) by (simp_all add: shrinks_def s1_def)
    define s4 where "s4 = emit (Sent ?w) s3"
    have run: "transmit srv a s = Ok s4"
    proof -
      have wb: "s_wbuf s3 = upd (s_wbuf s) 0 ?w" using s3(4) k2(1) by (simp add: keeps_def s1_def)
      have n2: "\<not> sint n \<le> 0" "\<not> sint n \<le> 2" using sent(2) by linarith+
      show ?thesis
        unfolding transmit_def getr_Some[OF assms(3)] andthen.simps sent(1) access_def option.case prod.case if_not_P[OF n2(1)] if_not_P[OF n2(2)] Let_def
          s1_def[symmetric] s2(1) s3(1) wb sent(6) s4_def ..
    qed
    have u4: "unans s4 = (unans s)(a := None)"
    proof -
      have "unans s4 = (unans s2)(a := None)" using s3(7,8) by (auto simp: s4_def unans_def view_def fun_eq_iff)
      then show ?thesis using u2 by simp
    qed
    have i4: "fid_inv {} (\<lambda>_. 0) s4" "ref_inv (insert a T) (\<lambda>_. 0) s4"
      by (rule fid_inv_cong[OF s3(2)], simp_all add: s4_def) (rule ref_inv_cong[OF s3(3)], simp_all)
    have rp4: "imap (rpool s4) u = (if r_pool (norm q) \<and> u = ucast (tag (r_ifcall (norm q))) then None else imap (rpool s) u)" for u
      using s2(5)[of u] s3(4) by (simp add: s4_def keeps_def s1_def)
    have str: "str_ok (C - {a} \<union> set (r_flush q)) (pending s) (unans s4) (imap (rpool s4)) (ran (imap (fpool s)))"
      using str_ok_answer[OF sv(1) assms(2) ua rp4] by (simp add: u4)
    have o4: "pending s4 = pending s" "s_msize s4 = s_msize s" "s_rbuf s4 = s_rbuf s" "s_wbuf s4 = upd (s_wbuf s) 0 ?w" "fpool s4 = fpool s"
      "nrecv t s4 = nrecv t s" "nsent t s4 = nsent t s + of_bool (tag (r_ifcall q) = t)" for t
      using s3(4,5) k2(1,2) sent_tag_wire[of "tag (r_ofcall q)" g] assms(6) by (simp_all add: s4_def keeps_def s1_def nrecv_def nsent_def emit_def)
    have "nrecv t s4 = nsent t s4 + cnt t (unans s4)" for t
      using cnt_upd[OF finite_unans, of t s a None] ua sv(2)[of t] o4(6,7)[of t] unfolding u4 by auto
    then have "srv_inv (C - {a} \<union> set (r_flush q)) s4" using str sv(3-5) sent(3,4) by (simp add: srv_inv_def o4)
    then have inv: "Inv (C - {a} \<union> set (r_flush q)) (insert a T) {} s4" using i4 by (simp add: Inv_def)
    have v4: "view s4 c = view s c" if "c \<noteq> a" "c \<in> T \<or> unans s c \<noteq> None" for c
    proof -
      have "view s2 c = view (s1\<lparr>rpool := rpool s2\<rparr>) c"
        by (rule shrinks_view_T[OF s2(4)]) (use that(2) u2 shrinks_unans[OF s2(4)] in auto)
      then show ?thesis using s3(7) that(1) r1 by (simp add: s4_def view_def)
    qed
    show ?thesis
      by (rule answered[of s4 q3, OF run inv]) (use s3 fl k2 sent(5) v4 o4 in \<open>simp_all add: s4_def\<close>)
  qed
qed

end
