(* ===== verification/NineRespond.thy ===== *)
theory NineRespond
  imports NineInv
begin

text \<open>
  \<^verbatim>\<open>respond\<close> keeps the invariant and never leaves defined behaviour: the handlers of the replies, the requests
  that wait for the one that is answered, and the recursion over them.
\<close>

section \<open>The part of \<^verbatim>\<open>respond\<close> that depends on the message\<close>

definition reply :: "Req \<Rightarrow> Fcall" where
  "reply q = (let f = (r_ofcall q)\<lparr>tag := tag (r_ifcall q), Fcall.type := Fcall.type (r_ifcall q) + 1\<rparr>
     in if r_error q \<noteq> Nil then setfcallerror (r_error q) f else f)"

definition err_ok :: "cptr \<Rightarrow> bool" where
  "err_ok e \<longleftrightarrow> (\<exists>t. e = Str t \<and> 0 \<in> set t \<and> length t \<le> 65535)"

text \<open>What an answer must satisfy for the reply to be a message.\<close>

definition reply_ok :: "Req \<Rightarrow> cptr \<Rightarrow> bool" where
  "reply_ok q err \<longleftrightarrow> fcall_ok (r_ofcall q) \<and> (err \<noteq> Nil \<longrightarrow> err_ok err) \<and>
     (let t = Fcall.type (r_ifcall q) in
      if t = Twalk then unat (nwqid (r_ofcall q)) \<le> MAXWELEM
      else if t = Tstat then err = Nil \<longrightarrow> (\<exists>e. dir_of [] (r_d q) = Some e \<and> dir_len e < 65536)
      else err = Nil \<longrightarrow> sendable (r_buf q) ((r_ofcall q)\<lparr>Fcall.type := t + 1\<rparr>))"

lemma strlen_ok: "0 \<in> set t \<Longrightarrow> \<exists>n. strlen t = Some n \<and> n < length t"
  by (induction t) auto

lemma sendable_error:
  assumes "err_ok e" "fcall_ok f"
  shows "sendable m (setfcallerror e f)"
proof -
  obtain t where t: "e = Str t" "0 \<in> set t" "length t \<le> 65535" using assms(1) by (auto simp: err_ok_def)
  obtain n where n: "strlen t = Some n" "n < length t" using strlen_ok[OF t(2)] by blast
  have "msg_of m (setfcallerror e f) = Some (MRerror (take n t))"
    using n t(1) by (simp add: msg_of_def setfcallerror_def Let_def mtypes str_of_def deref_def)
  moreover have "msg_ok (MRerror (take n t))" using n t(3) by (simp add: msg_ok_def enc_str_def BIT32SZ_def BIT8SZ_def BIT16SZ_def)
  ultimately show ?thesis using assms(2) by (simp add: sendable_def fcall_ok_def setfcallerror_def)
qed

lemma sendable_tag [simp]: "sendable m (f\<lparr>tag := t\<rparr>) = sendable m f"
proof -
  have "msg_of m (f\<lparr>tag := t\<rparr>) = msg_of m f" by (simp add: msg_of_def Let_def cong: if_cong)
  then show ?thesis by (simp add: sendable_def fcall_ok_def)
qed

lemma sendable_walk:
  assumes "fcall_ok f" "Fcall.type f = Rwalk" "unat (nwqid f) \<le> MAXWELEM"
  shows "sendable m f"
proof -
  let ?q = "map qid_of (take (unat (nwqid f)) (wqid f))"
  have "msg_of m f = Some (MRwalk ?q)" using assms(2,3) by (simp add: msg_of_def Let_def mtypes)
  moreover have "length ?q \<le> MAXWELEM" using assms(3) by simp
  then have "msg_ok (MRwalk ?q)" unfolding msg_ok_def body.simps length_append length_enc_qids
    by (simp add: MAXWELEM_def QIDSZ_def BIT32SZ_def BIT8SZ_def BIT16SZ_def BIT64SZ_def del: length_map length_take)
  ultimately show ?thesis using assms(1) by (auto simp: sendable_def)
qed

lemma sendable_reply:
  assumes "fcall_ok (r_ofcall q)" "r_error q \<noteq> Nil \<longrightarrow> err_ok (r_error q)"
    "r_error q = Nil \<longrightarrow> sendable (r_buf q) ((r_ofcall q)\<lparr>Fcall.type := Fcall.type (r_ifcall q) + 1\<rparr>)"
  shows "sendable (r_buf q) (reply q)"
proof (cases "r_error q = Nil")
  case True
  have "(r_ofcall q)\<lparr>tag := tag (r_ifcall q), Fcall.type := Fcall.type (r_ifcall q) + 1\<rparr> =
    (r_ofcall q)\<lparr>Fcall.type := Fcall.type (r_ifcall q) + 1, tag := tag (r_ifcall q)\<rparr>" by simp
  then have "reply q = (r_ofcall q)\<lparr>Fcall.type := Fcall.type (r_ifcall q) + 1, tag := tag (r_ifcall q)\<rparr>" using True by (simp add: reply_def)
  then show ?thesis using True assms(3) sendable_tag by metis
next
  case False
  then show ?thesis using assms(1,2) sendable_error by (simp add: reply_def fcall_ok_def)
qed

text \<open>The state after that part: the request may have changed, those in \<open>C\<close> and \<open>T\<close> have not.\<close>

definition goes :: "nat set \<Rightarrow> nat set \<Rightarrow> nat \<Rightarrow> Req \<Rightarrow> Srvst \<Rightarrow> Srvst \<Rightarrow> bool" where
  "goes C T a q s s' \<longleftrightarrow> Inv C T {} s' \<and> (\<exists>q'. reqat s' a = Some q' \<and> \<not> r_responded q' \<and> r_flush q' = r_flush q \<and> r_pool q' = r_pool q \<and>
       r_ifcall q' = r_ifcall q \<and> sendable (r_buf q') (reply q')) \<and>
     (\<forall>c. c \<noteq> a \<longrightarrow> c \<in> C \<union> T \<longrightarrow> view s' c = view s c) \<and> length (reqs s') = length (reqs s) \<and> pending s' = pending s"

lemma goesI:
  assumes "Inv C T {} s'" "reqs s' = reqs s" "pending s' = pending s" "reqat s a = Some q" "\<not> r_responded q" "sendable (r_buf q) (reply q)"
  shows "goes C T a q s s'"
  using assms unfolding goes_def by (auto simp: view_def reqat_def)

lemma goes_putr:
  assumes "Inv C T {} s1" "reqs s1 = reqs s" "pending s1 = pending s" "a \<in> C" "reqat s a = Some q" "\<not> r_responded q"
    "q' = q\<lparr>r_ofcall := f, r_error := e\<rparr>" "fcall_ok f" "sendable (r_buf q) (reply q')"
  shows "goes C T a q s (putr a (Some q') s1)"
proof -
  have r: "reqat s1 = reqat s" using assms(2) by (simp add: reqat_def fun_eq_iff)
  have l: "a < length (reqs s1)" using reqat_less[of s1 a] r assms(5) by simp
  have "\<not> r_statfreed q" using ref_inv_req[OF InvD(2)[OF assms(1)], of a q] r assms(5) by simp
  then have "Inv C T {} (putr a (Some q') s1)"
    by (intro Inv_putr[OF assms(1,4)]) (use assms(5-8) r in simp_all)
  then show ?thesis using assms(2-9) l r unfolding goes_def by (auto simp: view_def reqat_putr)
qed

text \<open>A fid that is taken back when the request that brought it fails.\<close>

lemma take_back:
  assumes "Inv C T Y s" "a \<in> C" "Y \<subseteq> {x}" "x \<in> ran (imap (fpool s))"
    "\<And>b p. b \<noteq> a \<Longrightarrow> b \<notin> C \<Longrightarrow> unans s b = Some p \<Longrightarrow> estab p \<noteq> Some x"
  obtains s' where "andthen (andthen (ptr (Some x)) (\<lambda>x. getf x s)) (\<lambda>f. case removefid (f_fid f) s of (y, s) \<Rightarrow> closefid srv y s) = Ok s'"
    "Inv C T {} s'" "reqs s' = reqs s" "pending s' = pending s"
proof -
  note I = InvD[OF assms(1)]
  obtain n where n: "imap (fpool s) n = Some x" using assms(4) by (auto simp: ran_def)
  obtain f where f: "fidat s x = Some f" "f_fid f = n" using fid_inv_pool[OF I(1) n] by blast
  obtain s1 where s1: "removefid n s = (Some x, s1)" "fid_inv (Y - {x}) ((\<lambda>_. 0)(x := 0 + 1)) s1" "keeps s s1" "reqs s1 = reqs s"
    "imap (fpool s1) = (imap (fpool s))(n := None)"
    using I(1) by (cases rule: removefid_spec[where n = n]) (use n in auto)
  have e: "(0 :: nat) < ((\<lambda>_. 0)(x := 0 + 1)) x" by simp
  obtain s2 where s2: "closefid srv (Some x) s1 = Ok s2" "fid_inv (Y - {x}) (((\<lambda>_. 0)(x := 0 + 1))(x := ((\<lambda>_. 0)(x := 0 + 1)) x - 1)) s2" "keeps s1 s2"
    "reqs s2 = reqs s1" "fpool s2 = fpool s1"
    by (rule closefid_spec[OF s1(2) e, of srv]) blast
  have ze: "((\<lambda>_. 0)(x := 0 + 1))(x := ((\<lambda>_. 0)(x := 0 + 1)) x - 1) = (\<lambda>_. 0 :: nat)" by auto
  have ye: "Y - {x} = {}" using assms(3) by blast
  have i: "fid_inv {} (\<lambda>_. 0) s2" using s2(2) unfolding ze ye .
  have k: "keeps s s2" using keeps_trans[OF s1(3) s2(3)] .
  have r: "reqs s2 = reqs s" using s1(4) s2(4) by simp
  have ref: "ref_inv T (\<lambda>_. 0) s2" by (rule ref_inv_cong[OF I(2)]) (use k r in \<open>simp_all add: keeps_def\<close>)
  have u: "unans s2 = unans s" by (rule unans_cong) (simp add: r reqat_def fun_eq_iff)
  have "str_ok C (pending s) (unans s) (imap (rpool s)) (ran (imap (fpool s2)))"
  proof (rule str_ok_fp[OF srv_invD(1)[OF I(3)]])
    fix b p y assume h: "b \<notin> C" "unans s b = Some p" "estab p = Some y" "y \<in> ran (imap (fpool s))"
    then have "y \<noteq> x" using assms(5)[of b p] assms(2) by auto
    obtain k where k: "imap (fpool s) k = Some y" using h(4) by (auto simp: ran_def)
    then have "imap (fpool s2) k = Some y" using n \<open>y \<noteq> x\<close> s1(5) s2(5) by auto
    then show "y \<in> ran (imap (fpool s2))" by (rule ranI)
  qed
  then have "srv_inv C s2" by (intro srv_inv_str[OF I(3) k u]) (use k u in \<open>simp_all add: keeps_def\<close>)
  then have "Inv C T {} s2" using i ref by (simp add: Inv_def)
  moreover have "andthen (andthen (ptr (Some x)) (\<lambda>x. getf x s)) (\<lambda>f. case removefid (f_fid f) s of (y, s) \<Rightarrow> closefid srv y s) = Ok s2"
    using f s1(1) s2(1) by (simp add: ptr_def)
  ultimately show ?thesis using that[of s2] r k by (simp add: keeps_def)
qed

definition owned :: "nat set \<Rightarrow> Srvst \<Rightarrow> nat \<Rightarrow> Req \<Rightarrow> bool" where
  "owned C s a q \<longleftrightarrow> (\<forall>x. estab q = Some x \<longrightarrow> x \<in> ran (imap (fpool s)) \<and> (\<forall>b p. b \<noteq> a \<longrightarrow> b \<notin> C \<longrightarrow> unans s b = Some p \<longrightarrow> estab p \<noteq> Some x))"

definition may_answer :: "nat set \<Rightarrow> nat set \<Rightarrow> nat set \<Rightarrow> Srvst \<Rightarrow> nat \<Rightarrow> Req \<Rightarrow> cptr \<Rightarrow> bool" where
  "may_answer C T Y s a q err \<longleftrightarrow> Inv C T Y s \<and> a \<in> C \<and> reqat s a = Some q \<and> \<not> r_responded q \<and> (err = Nil \<longrightarrow> ready q) \<and> reply_ok q err \<and>
     owned C s a q \<and> (Y = {} \<or> err \<noteq> Nil \<and> (\<exists>x. estab q = Some x \<and> Y = {x}))"

lemma may_answerD:
  assumes "may_answer C T Y s a q err"
  shows "Inv C T Y s" "a \<in> C" "reqat s a = Some q" "\<not> r_responded q" "err = Nil \<Longrightarrow> ready q" "reply_ok q err"
    "estab q = Some x \<Longrightarrow> x \<in> ran (imap (fpool s))" "estab q = Some x \<Longrightarrow> b \<noteq> a \<Longrightarrow> b \<notin> C \<Longrightarrow> unans s b = Some p \<Longrightarrow> estab p \<noteq> Some x"
    "estab q = Some x \<Longrightarrow> Y \<subseteq> {x}" "estab q = None \<Longrightarrow> Y = {}" "err = Nil \<Longrightarrow> Y = {}" "err = Nil \<Longrightarrow> Inv C T {} s" "estab q = None \<Longrightarrow> Inv C T {} s"
  using assms unfolding may_answer_def owned_def by auto

lemma reply_okD:
  assumes "reply_ok q err"
  shows "fcall_ok (r_ofcall q)" "err \<noteq> Nil \<Longrightarrow> err_ok err" "Fcall.type (r_ifcall q) = Twalk \<Longrightarrow> unat (nwqid (r_ofcall q)) \<le> MAXWELEM"
    "Fcall.type (r_ifcall q) = Tstat \<Longrightarrow> err = Nil \<Longrightarrow> \<exists>e. dir_of [] (r_d q) = Some e \<and> dir_len e < 65536"
    "Fcall.type (r_ifcall q) \<noteq> Twalk \<Longrightarrow> Fcall.type (r_ifcall q) \<noteq> Tstat \<Longrightarrow> err = Nil \<Longrightarrow>
      sendable (r_buf q) ((r_ofcall q)\<lparr>Fcall.type := Fcall.type (r_ifcall q) + 1\<rparr>)"
  using assms unfolding reply_ok_def Let_def by (auto simp: Tstat_def Twalk_def split: if_splits)

lemma sendable_answer:
  assumes "reply_ok q err" "r_error q = err" "err \<noteq> Nil \<or> Fcall.type (r_ifcall q) \<notin> {Twalk, Tstat}"
  shows "sendable (r_buf q) (reply q)"
  by (rule sendable_reply) (use reply_okD[OF assms(1)] assms(2,3) in auto)

text \<open>Handlers that do nothing, or take back a fid.\<close>

lemma goes_same:
  assumes "may_answer C T Y s a q err" "r_error q = err" "err \<noteq> Nil \<or> Fcall.type (r_ifcall q) \<notin> {Twalk, Tstat}" "err = Nil \<or> estab q = None"
  shows "goes C T a q s s"
  by (rule goesI) (use may_answerD[OF assms(1)] sendable_answer[OF _ assms(2,3)] assms(4) in auto)

lemma goes_take_back:
  assumes "may_answer C T Y s a q err" "r_error q = err" "err \<noteq> Nil" "estab q = Some x"
  obtains s' where "andthen (andthen (ptr (Some x)) (\<lambda>x. getf x s)) (\<lambda>f. case removefid (f_fid f) s of (y, s) \<Rightarrow> closefid srv y s) = Ok s'"
    "goes C T a q s s'" "Inv C T {} s'" "reqs s' = reqs s" "pending s' = pending s"
proof -
  note m = may_answerD[OF assms(1)]
  obtain s' where s': "andthen (andthen (ptr (Some x)) (\<lambda>x. getf x s)) (\<lambda>f. case removefid (f_fid f) s of (y, s) \<Rightarrow> closefid srv y s) = Ok s'"
    "Inv C T {} s'" "reqs s' = reqs s" "pending s' = pending s"
    by (rule take_back[OF m(1,2) m(9)[OF assms(4)] m(7)[OF assms(4)] m(8)[OF assms(4)], where srv = srv]) blast
  have "goes C T a q s s'"
    by (rule goesI[OF s'(2-4) m(3,4)]) (use sendable_answer[OF m(6) assms(2)] assms(3) in blast)
  then show ?thesis using that s' by blast
qed

lemma rauth_goes:
  assumes "may_answer C T Y s a q err" "r_error q = err" "Fcall.type (r_ifcall q) = Tauth"
  shows "\<exists>s'. rauth srv a err s = Ok s' \<and> goes C T a q s s'"
proof (cases "err \<noteq> Nil \<and> r_afid q \<noteq> None")
  case True
  then obtain x where x: "r_afid q = Some x" "estab q = Some x" using assms(3) by (auto simp: estab_def mtypes)
  show ?thesis using goes_take_back[OF assms(1,2) _ x(2), of srv] True x(1) may_answerD(3)[OF assms(1)]
    by (simp add: rauth_def) metis
next
  case False
  then have "goes C T a q s s" using goes_same[OF assms(1,2)] assms(3) by (auto simp: estab_def mtypes)
  then show ?thesis using False may_answerD(3)[OF assms(1)] by (auto simp: rauth_def)
qed

lemma rattach_goes:
  assumes "may_answer C T Y s a q err" "r_error q = err" "Fcall.type (r_ifcall q) = Tattach"
  shows "\<exists>s'. rattach srv a err s = Ok s' \<and> goes C T a q s s'"
proof (cases "err \<noteq> Nil \<and> r_fid q \<noteq> None")
  case True
  then obtain x where x: "r_fid q = Some x" "estab q = Some x" using assms(3) by (auto simp: estab_def mtypes)
  show ?thesis using goes_take_back[OF assms(1,2) _ x(2), of srv] True x(1) may_answerD(3)[OF assms(1)]
    by (simp add: rattach_def) metis
next
  case False
  then have "goes C T a q s s" using goes_same[OF assms(1,2)] assms(3) by (auto simp: estab_def mtypes)
  then show ?thesis using False may_answerD(3)[OF assms(1)] by (auto simp: rattach_def)
qed

text \<open>Handlers that change a fid.\<close>

lemma goes_modf:
  assumes "may_answer C T Y s a q err" "err = Nil" "sendable (r_buf q) (reply q)" "r_fid q = Some x \<or> r_newfid q = Some x"
    "\<And>f. f_fid (g f) = f_fid f \<and> f_file (g f) = f_file f \<and> f_ref (g f) = f_ref f \<and> f_uid (g f) = f_uid f"
  shows "\<exists>s'. modf x g s = Ok s' \<and> goes C T a q s s'"
proof -
  note m = may_answerD[OF assms(1)]
  obtain f where f: "fidat s x = Some f" "f_file f = None" using Inv_fid[OF m(1,3), of x] assms(4) by auto
  have "Inv C T {} (putf x (Some (g f)) s)"
    by (rule Inv_putf[OF m(12)[OF assms(2)] f(1)]) (use assms(5)[of f] f(2) in auto)
  then have "goes C T a q s (putf x (Some (g f)) s)" by (rule goesI) (use m(3,4) assms(3) in auto)
  then show ?thesis using f by simp
qed

lemma ropen_goes:
  assumes "may_answer C T Y s a q err" "r_error q = err" "Fcall.type (r_ifcall q) = Topen"
  shows "\<exists>s'. ropen a err s = Ok s' \<and> goes C T a q s s'"
proof (cases "err = Nil")
  case True
  then obtain x where x: "r_fid q = Some x" using may_answerD(5)[OF assms(1)] assms(3) by (auto simp: ready_def)
  show ?thesis
    using goes_modf[OF assms(1) True sendable_answer[OF may_answerD(6)[OF assms(1)] assms(2)], of x "\<lambda>f. f\<lparr>f_omode := uint (Fcall.mode (r_ifcall q)), f_qid := Fcall.qid (r_ofcall q),
          f_diroffset := (if qtype (Fcall.qid (r_ofcall q)) AND QTDIR \<noteq> 0 then 0 else f_diroffset f)\<rparr>"]
      True x assms(3) may_answerD(3)[OF assms(1)] by (simp add: ropen_def ptr_def mtypes)
next
  case False
  then show ?thesis using goes_same[OF assms(1,2)] assms(3) by (auto simp: ropen_def estab_def mtypes)
qed

lemma rcreate_goes:
  assumes "may_answer C T Y s a q err" "r_error q = err" "Fcall.type (r_ifcall q) = Tcreate"
  shows "\<exists>s'. rcreate a err s = Ok s' \<and> goes C T a q s s'"
proof (cases "err = Nil")
  case True
  then obtain x where x: "r_fid q = Some x" using may_answerD(5)[OF assms(1)] assms(3) by (auto simp: ready_def)
  show ?thesis
    using goes_modf[OF assms(1) True sendable_answer[OF may_answerD(6)[OF assms(1)] assms(2)], of x "\<lambda>f. f\<lparr>f_omode := uint (Fcall.mode (r_ifcall q)), f_qid := Fcall.qid (r_ofcall q)\<rparr>"]
      True x assms(3) may_answerD(3)[OF assms(1)] by (simp add: rcreate_def ptr_def mtypes)
next
  case False
  then show ?thesis using goes_same[OF assms(1,2)] assms(3) by (auto simp: rcreate_def estab_def mtypes)
qed

lemma rread_goes:
  assumes "may_answer C T Y s a q err" "r_error q = err" "Fcall.type (r_ifcall q) = Tread"
  shows "\<exists>s'. rread a err s = Ok s' \<and> goes C T a q s s'"
proof (cases "err = Nil")
  case True
  note m = may_answerD[OF assms(1)]
  obtain x where x: "r_fid q = Some x" using m(5)[OF True] assms(3) by (auto simp: ready_def)
  obtain f where f: "fidat s x = Some f" using Inv_fid[OF m(1,3), of x] x by auto
  show ?thesis
  proof (cases "qtype (f_qid f) AND QTDIR = 0")
    case dir: False
    show ?thesis
      using goes_modf[OF assms(1) True sendable_answer[OF m(6) assms(2)], of x "\<lambda>f. f\<lparr>f_diroffset := offset (r_ifcall q) + ucast (count (r_ofcall q))\<rparr>"]
        True x f dir assms(3) m(3) by (simp add: rread_def ptr_def mtypes)
  next
    case plain: True
    then show ?thesis using goes_same[OF assms(1,2)] True x f m(3) assms(3) by (auto simp: rread_def ptr_def mtypes)
  qed
next
  case False
  then show ?thesis using goes_same[OF assms(1,2)] assms(3) by (auto simp: rread_def estab_def mtypes)
qed

lemma rfid_goes:
  assumes "may_answer C T Y s a q err" "r_error q = err"
  shows "Fcall.type (r_ifcall q) = Twrite \<Longrightarrow> rwrite a err s = Ok s \<and> goes C T a q s s"
    "Fcall.type (r_ifcall q) = Tremove \<Longrightarrow> rremove a err s = Ok s \<and> goes C T a q s s"
    "Fcall.type (r_ifcall q) = Tclunk \<Longrightarrow> goes C T a q s s" "Fcall.type (r_ifcall q) = Twstat \<Longrightarrow> goes C T a q s s"
proof -
  note m = may_answerD[OF assms(1)]
  have x: "\<exists>x f. r_fid q = Some x \<and> fidat s x = Some f \<and> f_file f = None" if "err = Nil" "Fcall.type (r_ifcall q) \<in> {Twrite, Tremove}"
    using m(5)[OF that(1)] that(2) Inv_fid[OF m(1,3)] by (auto simp: ready_def)
  have g: "goes C T a q s s" if "Fcall.type (r_ifcall q) \<in> {Twrite, Tremove, Tclunk, Twstat}"
    by (rule goes_same[OF assms]) (use that in \<open>auto simp: estab_def mtypes\<close>)
  show "rwrite a err s = Ok s \<and> goes C T a q s s" if "Fcall.type (r_ifcall q) = Twrite"
    using g x that m(3) by (cases "err = Nil") (auto simp: rwrite_def ptr_def)
  show "rremove a err s = Ok s \<and> goes C T a q s s" if "Fcall.type (r_ifcall q) = Tremove"
    using g x that m(3) by (cases "err = Nil") (auto simp: rremove_def ptr_def)
qed (auto intro: goes_same[OF assms] simp: estab_def mtypes)

lemma err_ok_lit: "length s < 65535 \<Longrightarrow> err_ok (lit s)"
  by (simp add: err_ok_def lit_def bytes_of_def)

lemma err_ok_errbuf: "err_ok (errbuf t)"
  by (simp add: err_ok_def errbuf_def ERRMAX_def)

lemmas errs = Ebadoffset_def Ebotch_def Ecreatenondir_def Edupfid_def Eduptag_def Eisdir_def Enocreate_def Enoremove_def Enostat_def
  Enotfound_def Enowstat_def Eperm_def Eunknownfid_def Ebaddir_def Ewalknodir_def

lemma lit_not_Nil [simp]: "lit s \<noteq> Nil" "errbuf t \<noteq> Nil"
  by (simp_all add: lit_def errbuf_def)

lemma sendable_rwalk:
  assumes "fcall_ok (r_ofcall q)" "unat (nwqid (r_ofcall q)) \<le> MAXWELEM" "Fcall.type (r_ifcall q) = Twalk" "r_error q \<noteq> Nil \<longrightarrow> err_ok (r_error q)"
  shows "sendable (r_buf q) (reply q)"
  by (rule sendable_reply[OF assms(1,4)]) (use assms in \<open>auto intro!: sendable_walk simp: fcall_ok_def Twalk_def Rwalk_def\<close>)

lemma rwalk_goes:
  assumes "may_answer C T Y s a q err" "r_error q = err" "Fcall.type (r_ifcall q) = Twalk"
  shows "\<exists>s'. rwalk srv a err s = Ok s' \<and> goes C T a q s s'"
proof -
  note m = may_answerD[OF assms(1)]
  note r = reply_okD[OF m(6)]
  let ?i = "r_ifcall q" and ?o = "r_ofcall q"
  have snd: "sendable (r_buf q) (reply (q\<lparr>r_error := e\<rparr>))" if "e = Nil \<or> err_ok e" for e
    using sendable_rwalk[of "q\<lparr>r_error := e\<rparr>"] r(1) r(3)[OF assms(3)] assms(3) that by auto
  have qq: "q\<lparr>r_error := err\<rparr> = q" using assms(2) by simp
  show ?thesis
  proof (cases "err \<noteq> Nil \<or> nwqid ?o < nwname ?i")
    case True
    have "\<exists>s1. (if fid ?i \<noteq> newfid ?i \<and> r_newfid q \<noteq> None then
           andthen (andthen (ptr (r_newfid q)) (\<lambda>x. getf x s)) (\<lambda>f.
           case removefid (f_fid f) s of (x, s) \<Rightarrow> closefid srv x s)
         else Ok s) = Ok s1 \<and> Inv C T {} s1 \<and> reqs s1 = reqs s \<and> pending s1 = pending s"
    proof (cases "fid ?i \<noteq> newfid ?i \<and> r_newfid q \<noteq> None")
      case True
      then obtain x where x: "r_newfid q = Some x" "estab q = Some x" using assms(3) by (auto simp: estab_def mtypes)
      obtain s1 where "andthen (andthen (ptr (Some x)) (\<lambda>x. getf x s)) (\<lambda>f. case removefid (f_fid f) s of (y, s) \<Rightarrow> closefid srv y s) = Ok s1"
        "Inv C T {} s1" "reqs s1 = reqs s" "pending s1 = pending s"
        by (rule take_back[OF m(1,2) m(9)[OF x(2)] m(7)[OF x(2)] m(8)[OF x(2)], where srv = srv]) blast
      then show ?thesis using True x(1) by simp
    next
      case False
      then have "estab q = None" using assms(3) by (auto simp: estab_def mtypes Let_def)
      then show ?thesis using False m(13) by auto
    qed
    then obtain s1 where s1: "(if fid ?i \<noteq> newfid ?i \<and> r_newfid q \<noteq> None then
           andthen (andthen (ptr (r_newfid q)) (\<lambda>x. getf x s)) (\<lambda>f.
           case removefid (f_fid f) s of (x, s) \<Rightarrow> closefid srv x s)
         else Ok s) = Ok s1" "Inv C T {} s1" "reqs s1 = reqs s" "pending s1 = pending s" by blast
    have run: "rwalk srv a err s = (if nwqid ?o = 0 then
        if err = Nil \<and> nwname ?i \<noteq> 0 then modr a (\<lambda>r. r\<lparr>r_error := Enotfound\<rparr>) s1 else Ok s1
      else modr a (\<lambda>r. r\<lparr>r_error := Nil\<rparr>) s1)"
      unfolding rwalk_def getr_Some[OF m(3)] andthen.simps Let_def if_P[OF True] s1(1) ..
    have a1: "reqat s1 a = Some q" using m(3) s1(3) by (simp add: reqat_def)
    have g: "\<exists>s'. modr a (\<lambda>r. r\<lparr>r_error := e\<rparr>) s1 = Ok s' \<and> goes C T a q s s'" if "e = Nil \<or> err_ok e" for e
      using goes_putr[OF s1(2-4) m(2-4), where q' = "q\<lparr>r_error := e\<rparr>" and f = ?o and e = e] r(1) snd[OF that] a1 by simp
    have g0: "goes C T a q s s1" if "err \<noteq> Nil"
      by (rule goesI[OF s1(2-4) m(3,4)]) (use snd[of err] r(2) that qq in simp)
    show ?thesis unfolding run using g[of Enotfound] g[of Nil] g0 True by (auto simp: errs err_ok_lit)
  next
    case False
    then have e: "err = Nil" by simp
    obtain nf x where nf: "r_newfid q = Some nf" "r_fid q = Some x" using m(5)[OF e] assms(3) by (auto simp: ready_def)
    obtain f where f: "fidat s x = Some f" using Inv_fid[OF m(1,3), of x] nf(2) by auto
    have sq: "sendable (r_buf q) (reply q)" using snd[of Nil] qq e by simp
    have g: "\<exists>s'. modf nf (\<lambda>g. g\<lparr>f_qid := z\<rparr>) s = Ok s' \<and> goes C T a q s s'" for z
      by (rule goes_modf[OF assms(1) e sq]) (use nf in simp_all)
    have run: "rwalk srv a err s = (if nwqid ?o = 0 then modf nf (\<lambda>g. g\<lparr>f_qid := f_qid f\<rparr>) s
        else andthen (access (rd (wqid ?o) (unat (nwqid ?o) - 1))) (\<lambda>z. modf nf (\<lambda>g. g\<lparr>f_qid := z\<rparr>) s))"
      using False m(3) nf f by (simp add: rwalk_def ptr_def Let_def)
    have "unat (nwqid ?o) - 1 < length (wqid ?o)" if "nwqid ?o \<noteq> 0"
      using r(1) r(3)[OF assms(3)] that by (simp add: fcall_ok_def MAXWELEM_def)
    then show ?thesis unfolding run using g by (auto simp: rd_def access_def)
  qed
qed

lemma rversion_goes:
  assumes "may_answer C T Y s a q err" "r_error q = err" "Fcall.type (r_ifcall q) = Tversion"
  shows "(\<exists>m. rversion a err s = Abort m) \<or> (\<exists>s'. rversion a err s = Ok s' \<and> goes C T a q s s')"
proof (cases "err = Nil")
  case False
  then show ?thesis by (simp add: rversion_def)
next
  case True
  note m = may_answerD[OF assms(1)]
  define ms where "ms = msize (r_ofcall q)"
  have sq: "sendable (r_buf q) (reply q)" by (rule sendable_answer[OF m(6) assms(2)]) (use assms(3) in \<open>simp add: mtypes\<close>)
  have run: "rversion a err s = changemsize ms s" using True m(3) by (simp add: rversion_def ms_def)
  show ?thesis
  proof (cases "s_msize s = ms \<or> sint ms < 0")
    case same: True
    have "goes C T a q s s" by (rule goesI[OF m(12)[OF True]]) (use m(3,4) sq in simp_all)
    then show ?thesis unfolding run using same by (auto simp: changemsize_def)
  next
    case False
    define s1 where "s1 = s\<lparr>s_msize := ms, s_rbuf := replicate (unat ms) 0, s_wbuf := replicate (unat ms) 0\<rparr>"
    have r: "reqat s1 = reqat s" "fidat s1 = fidat s" "tot w s1 = tot w s" for w by (simp_all add: s1_def reqat_def fidat_def tot_def fun_eq_iff)
    note I = InvD[OF m(12)[OF True]]
    have "fid_inv {} (\<lambda>_. 0) s1" by (rule fid_inv_cong[OF I(1)]) (simp_all add: r, simp_all add: s1_def)
    moreover have "ref_inv T (\<lambda>_. 0) s1" by (rule ref_inv_cong[OF I(2)]) (simp_all add: s1_def)
    moreover have "srv_inv C s1"
      using I(3) False unans_cong[OF r(1)] unfolding srv_inv_def by (simp add: s1_def nrecv_def nsent_def)
    ultimately have "goes C T a q s s1" by (intro goesI) (use m(3,4) sq in \<open>simp_all add: Inv_def s1_def\<close>)
    then show ?thesis unfolding run using False by (auto simp: changemsize_def s1_def)
  qed
qed

lemma rstat_goes:
  assumes "may_answer C T Y s a q err" "r_error q = err" "Fcall.type (r_ifcall q) = Tstat"
  shows "\<exists>s'. rstat a err s = Ok s' \<and> goes C T a q s s'"
proof (cases "err = Nil")
  case False
  then show ?thesis using goes_same[OF assms(1,2)] assms(3) by (auto simp: rstat_def estab_def mtypes)
next
  case True
  note m = may_answerD[OF assms(1)]
  obtain e where e: "dir_of [] (r_d q) = Some e" "dir_len e < 65536" using reply_okD(4)[OF m(6) assms(3) True] by blast
  have big: "BIT16SZ < dir_len e" by (simp add: dir_len_def STATFIXLEN_val BIT16SZ_def)
  let ?n = "dir_len e"
  have c1: "convD2M [] (r_d q) (replicate BIT16SZ 0) BIT16SZ = Some (upd (replicate BIT16SZ 0) 0 (PBIT16 (of_nat (?n - BIT16SZ) :: u16)), BIT16SZ)"
    using convD2M_wire(2)[OF e(1), of BIT16SZ "replicate BIT16SZ 0"] e(2) big by simp
  have g: "GBIT16 (upd (replicate BIT16SZ 0) 0 (PBIT16 (of_nat (?n - BIT16SZ) :: u16))) 0 = Some (of_nat (?n - BIT16SZ))"
  proof -
    have "has_at (upd (replicate BIT16SZ 0) 0 (PBIT16 (of_nat (?n - BIT16SZ) :: u16))) 0 (PBIT16 (of_nat (?n - BIT16SZ) :: u16))"
      by (simp add: has_at_def upd_def)
    then show ?thesis by (simp only: gbits)
  qed
  have u: "unat (of_nat (?n - BIT16SZ) :: u16) + BIT16SZ = ?n" "unat (of_nat ?n :: u16) = ?n"
    using e(2) big by (simp_all add: unat_of_nat take_bit_nat_eq_self del: of_nat_diff)
  have c2: "convD2M [] (r_d q) (replicate ?n 0) ?n = Some (upd (replicate ?n 0) 0 (dir_wire e), ?n)"
    using convD2M_wire(2)[OF e(1), of ?n "replicate ?n 0"] e(2) big by simp
  define f where "f = (r_ofcall q)\<lparr>nstat := of_nat ?n, stat := Str (upd (replicate ?n 0) 0 (dir_wire e))\<rparr>"
  define q' where "q' = q\<lparr>r_ofcall := f\<rparr>"
  have run: "rstat a err s = Ok (putr a (Some q') s)"
    using True m(3) c1 g c2 u big by (simp add: rstat_def access_def Let_def q'_def f_def)
  have sq: "sendable (r_buf q') (reply q')"
  proof (rule sendable_reply)
    let ?w = "upd (replicate ?n 0) 0 (dir_wire e)"
    have l: "length ?w = ?n" using length_dir_wire[of e] by simp
    then have "msg_of (r_buf q') ((r_ofcall q')\<lparr>Fcall.type := Fcall.type (r_ifcall q') + 1\<rparr>) = Some (MRstat ?w)"
      using assms(3) u(2) big by (simp add: msg_of_def Let_def mtypes q'_def f_def memsrc_def rdn_def deref_def)
    moreover have "msg_ok (MRstat ?w)" using e(2) l by (simp add: msg_ok_def BIT32SZ_def BIT8SZ_def BIT16SZ_def)
    ultimately show "r_error q' = Nil \<longrightarrow> sendable (r_buf q') ((r_ofcall q')\<lparr>Fcall.type := Fcall.type (r_ifcall q') + 1\<rparr>)"
      using reply_okD(1)[OF m(6)] by (simp add: sendable_def fcall_ok_def q'_def f_def)
  qed (use reply_okD(1)[OF m(6)] assms(2) True in \<open>simp_all add: q'_def f_def fcall_ok_def\<close>)
  have "goes C T a q s (putr a (Some q') s)"
    by (rule goes_putr[OF m(12)[OF True] refl refl m(2-4), where f = f and e = err]) (use reply_okD(1)[OF m(6)] sq assms(2) in \<open>simp_all add: q'_def f_def fcall_ok_def\<close>)
  then show ?thesis using run by blast
qed

text \<open>A flush waits for the request it flushes, unless that is answered.\<close>

lemma old_request:
  assumes "ref_inv T E s" "reqat s a = Some q" "r_oldreq q = Some b"
  shows "b < a" "\<exists>p. reqat s b = Some p \<and> r_pool p"
proof -
  show "b < a" using ref_inv_req[OF assms(1,2)] assms(3) by blast
  have "wold b (reqat s a) = 1" using assms(2,3) by (simp add: wold_def)
  then have "0 < tot (wold b) s + E b" using tot_ge[of "wold b" s a] by simp
  then show "\<exists>p. reqat s b = Some p \<and> r_pool p" by (rule ref_inv_ref[OF assms(1)])
qed

lemma flush_wait:
  assumes "Inv {a} {} {} s" "reqat s a = Some q" "\<not> r_responded q" "Fcall.type (r_ifcall q) = Tflush" "r_oldreq q = Some b" "reqat s b = Some p" "\<not> r_responded p"
  shows "Inv {} {} {} (putr b (Some (p\<lparr>r_flush := r_flush p @ [a]\<rparr>)) s)"
proof -
  note I = InvD[OF assms(1)]
  define p' where "p' = p\<lparr>r_flush := r_flush p @ [a]\<rparr>"
  define s' where "s' = putr b (Some p') s"
  have l: "b < length (reqs s)" using reqat_less assms(6) by simp
  have ne: "b \<noteq> a" using old_request(1)[OF I(2) assms(2,5)] by simp
  have "fid_inv {} (\<lambda>_. 0) s'" unfolding s'_def by (rule fid_inv_putr[OF I(1) assms(6)]) (simp add: wfid_def p'_def)
  moreover have "ref_inv {} (\<lambda>_. 0) s'" unfolding s'_def
    by (rule ref_inv_putr[OF I(2) assms(6)]) (use ref_inv_req[OF I(2) assms(6)] in \<open>auto simp: p'_def wold_def\<close>)
  moreover have u: "unans s' = (unans s)(b \<mapsto> norm p')" using assms(7) unans_putr(1)[OF l, of p'] by (simp add: s'_def p'_def)
  have ub: "unans s b = Some (norm p)" "unans s a = Some (norm q)" using unansI assms(2,3,6,7) by blast+
  have "str_ok ({a} - {a}) (pending s) ((unans s)(b \<mapsto> norm p')) (imap (rpool s)) (ran (imap (fpool s)))"
    by (rule str_ok_park[OF srv_invD(1)[OF I(3)] _ ub(2) _ _ ub(1) ne]) (use assms(4,5) in \<open>simp_all add: p'_def norm_def\<close>)
  moreover have "cnt t ((unans s)(b \<mapsto> norm p')) = cnt t (unans s)" for t
    using cnt_upd[OF finite_unans, of t s b "Some (norm p')"] ub(1) by (simp add: p'_def)
  moreover have "nrecv t s' = nrecv t s" "nsent t s' = nsent t s" for t by (simp_all add: nrecv_def nsent_def s'_def)
  ultimately have "srv_inv {} s'" using srv_invD(2-5)[OF I(3)] unfolding srv_inv_def u by (simp add: s'_def)
  then show ?thesis using \<open>fid_inv {} (\<lambda>_. 0) s'\<close> \<open>ref_inv {} (\<lambda>_. 0) s'\<close> by (simp add: Inv_def s'_def p'_def)
qed

lemma flush_done:
  assumes "Inv {a} {} {} s" "reqat s a = Some q" "\<not> r_responded q" "r_oldreq q = Some b" "sendable (r_buf q) (reply q)"
  shows "\<exists>s'. andthen (closereq srv (Some b) s) (modr a (\<lambda>r. r\<lparr>r_oldreq := None\<rparr>)) = Ok s' \<and> goes {a} {} a q s s'"
proof -
  note I = InvD[OF assms(1)]
  define q' where "q' = q\<lparr>r_oldreq := None\<rparr>"
  define M where "M = [a \<mapsto> Some q']"
  have l: "a < length (reqs s)" using reqat_less assms(2) by simp
  have ba: "b < a" by (rule old_request(1)[OF I(2) assms(2,4)])
  have m: "over M u = putr a (Some q') u" if "a < length (reqs u)" for u
    using over_putr(2)[where M = Map.empty and y = "Some q'", OF that] by (simp add: M_def)
  have f: "fid_inv {} (\<lambda>_. 0) (over M s)" unfolding m[OF l] by (rule fid_inv_putr[OF I(1) assms(2)]) (simp add: wfid_def q'_def)
  have r: "ref_inv {} (\<lambda>c. of_bool (c = b)) (over M s)" unfolding m[OF l]
    by (rule ref_inv_putr[OF I(2) assms(2)]) (use ref_inv_req[OF I(2) assms(2)] assms(4) in \<open>auto simp: q'_def wold_def\<close>)
  have "\<forall>d\<in>dom M. b < d" using ba by (simp add: M_def)
  then obtain s1 where s1: "closereq srv (Some b) s = Ok s1" "fid_inv {} (\<lambda>_. 0) (over M s1)"
      "ref_inv {} ((\<lambda>c. of_bool (c = b))(b := (\<lambda>c. of_bool (c = b)) b - 1)) (over M s1)" "shrinks {} s s1" "\<forall>d\<in>dom M. reqat s1 d = reqat s d"
    using closereq_spec[OF f r, of b "Suc (length (reqs s))" srv] ba l by (auto simp: closereq_def simp del: closereq_n.simps)
  have z: "((\<lambda>c. of_bool (c = b))(b := (\<lambda>c. of_bool (c = b)) b - 1)) = (\<lambda>_. 0 :: nat)" by auto
  have a1: "reqat s1 a = Some q" using s1(5) assms(2) by (simp add: M_def)
  have l1: "a < length (reqs s1)" using reqat_less a1 by simp
  let ?s = "putr a (Some q') s1"
  have "srv_inv {a} s1" by (rule srv_inv_shrinks[OF I(3) s1(4)])
  then have "srv_inv {a} ?s"
    by (rule srv_inv_putr[where q = q]) (use a1 assms(3,5) in \<open>simp_all add: q'_def sendable_def reply_def setfcallerror_def fcall_ok_def Let_def split: if_splits\<close>)
  then have inv: "Inv {a} {} {} ?s" using s1(2,3) unfolding z m[OF l1] by (simp add: Inv_def)
  have "reply q' = reply q" by (simp add: reply_def q'_def Let_def)
  then have "goes {a} {} a q s ?s" using inv assms(3,5) l1 s1(4) unfolding goes_def by (auto simp: reqat_putr q'_def shrinks_def keeps_def)
  moreover have "andthen (closereq srv (Some b) s) (modr a (\<lambda>r. r\<lparr>r_oldreq := None\<rparr>)) = Ok ?s" using s1(1) a1 by (simp add: q'_def)
  ultimately show ?thesis by blast
qed

lemma rflush_spec:
  assumes "may_answer C T Y s a q err" "r_error q = err" "Fcall.type (r_ifcall q) = Tflush" "r_oldreq q = None \<or> C = {a} \<and> T = {}"
  obtains (stop) m where "rflush srv a err s = Abort m"
    | (go) s' where "rflush srv a err s = Ok (True, s')" "goes C T a q s s'"
    | (wait) s' where "rflush srv a err s = Ok (False, s')" "C = {a}" "T = {}" "Inv {} {} {} s'" "length (reqs s') = length (reqs s)" "pending s' = pending s"
        "s_msize s' = s_msize s"
proof (cases "err = Nil")
  case False
  then show ?thesis using stop by (simp add: rflush_def)
next
  case True
  note m = may_answerD[OF assms(1)]
  have sq: "sendable (r_buf q) (reply q)" by (rule sendable_answer[OF m(6) assms(2)]) (use assms(3) in \<open>simp add: mtypes\<close>)
  show ?thesis
  proof (cases "r_oldreq q")
    case None
    have "goes C T a q s s" by (rule goes_same[OF assms(1,2)]) (use assms(3) True in \<open>simp_all add: mtypes\<close>)
    then show ?thesis using go[of s] None True m(3) by (simp add: rflush_def)
  next
    case (Some b)
    then have C: "C = {a}" "T = {}" using assms(4) by auto
    have i: "Inv {a} {} {} s" using m(12)[OF True] C by simp
    obtain p where p: "reqat s b = Some p" using old_request(2)[OF InvD(2)[OF m(1)] m(3) Some] by blast
    show ?thesis
    proof (cases "r_responded p")
      case True
      obtain s' where "andthen (closereq srv (Some b) s) (modr a (\<lambda>r. r\<lparr>r_oldreq := None\<rparr>)) = Ok s'" "goes {a} {} a q s s'"
        using flush_done[OF i m(3,4) Some sq, of srv] by blast
      then have "rflush srv a err s = Ok (True, s')"
        using \<open>err = Nil\<close> m(3) Some p True by (cases "closereq srv (Some b) s") (simp_all add: rflush_def)
      then show ?thesis using go \<open>goes {a} {} a q s s'\<close> C by blast
    next
      case False
      let ?s = "putr b (Some (p\<lparr>r_flush := r_flush p @ [a]\<rparr>)) s"
      have "rflush srv a err s = Ok (False, ?s)" using \<open>err = Nil\<close> m(3) Some p False by (simp add: rflush_def)
      then show ?thesis using wait C flush_wait[OF i m(3,4) assms(3) Some p False] by simp
    qed
  qed
qed

lemma rswitch_spec:
  assumes "may_answer C T Y s a q err" "r_error q = err" "r_oldreq q = None \<or> C = {a} \<and> T = {}"
  obtains (stop) m where "rswitch srv a err s = Abort m"
    | (go) s' where "rswitch srv a err s = Ok (True, s')" "goes C T a q s s'"
    | (wait) s' where "rswitch srv a err s = Ok (False, s')" "C = {a}" "T = {}" "Inv {} {} {} s'" "length (reqs s') = length (reqs s)" "pending s' = pending s"
        "s_msize s' = s_msize s"
proof -
  let ?t = "Fcall.type (r_ifcall q)"
  have rq: "reqat s a = Some q" by (rule may_answerD(3)[OF assms(1)])
  show ?thesis
  proof (cases "?t = Tflush")
    case True
    then have "rswitch srv a err s = rflush srv a err s" using rq by (simp add: rswitch_def)
    then show ?thesis using rflush_spec[OF assms(1,2) True assms(3), of srv] stop go wait by metis
  next
    case False
    define h where "h = (if ?t = Tversion then rversion a err s
        else if ?t = Tauth then rauth srv a err s
        else if ?t = Tattach then rattach srv a err s
        else if ?t = Twalk then rwalk srv a err s
        else if ?t = Topen then ropen a err s
        else if ?t = Tcreate then rcreate a err s
        else if ?t = Tread then rread a err s
        else if ?t = Twrite then rwrite a err s
        else if ?t = Tclunk then rclunk s
        else if ?t = Tremove then rremove a err s
        else if ?t = Tstat then rstat a err s
        else if ?t = Twstat then rwstat s
        else Abort ''assert(0)'')"
    have run: "rswitch srv a err s = andthen h (\<lambda>s. Ok (True, s))"
      using False rq unfolding rswitch_def h_def Let_def by simp
    note r = rversion_goes[OF assms(1,2)] rauth_goes[OF assms(1,2), of srv] rattach_goes[OF assms(1,2), of srv] rwalk_goes[OF assms(1,2), of srv]
      ropen_goes[OF assms(1,2)] rcreate_goes[OF assms(1,2)] rread_goes[OF assms(1,2)] rstat_goes[OF assms(1,2)] rfid_goes[OF assms(1,2)]
    have "(\<exists>m. h = Abort m) \<or> (\<exists>s'. h = Ok s' \<and> goes C T a q s s')"
      unfolding h_def rclunk_def rwstat_def using r by (simp split: if_split)
    then show ?thesis using stop go run by auto
  qed
qed

section \<open>Responding\<close>

lemma may_answer_error:
  assumes "may_answer C T Y s a q err"
  shows "may_answer C T Y (putr a (Some (q\<lparr>r_error := e\<rparr>)) s) a (q\<lparr>r_error := e\<rparr>) err"
proof -
  note m = may_answerD[OF assms]
  have l: "a < length (reqs s)" using reqat_less m(3) by simp
  let ?q = "q\<lparr>r_error := e\<rparr>"
  let ?s = "putr a (Some ?q) s"
  have e: "ready ?q = ready q" "estab ?q = estab q" "reply_ok ?q err = reply_ok q err" by (simp_all add: ready_def estab_def reply_ok_def Let_def)
  have "\<not> r_statfreed q" using ref_inv_req[OF InvD(2)[OF m(1)] m(3)] by simp
  then have "Inv C T Y ?s" by (intro Inv_putr[OF m(1-4)]) (use reply_okD(1)[OF m(6)] in simp_all)
  moreover have "unans ?s b = unans s b" if "b \<noteq> a" for b using unans_putr(1)[OF l, of ?q] that by simp
  then have "owned C ?s a ?q" using m(7,8) unfolding owned_def e by simp
  ultimately show ?thesis using assms l m(2) unfolding may_answer_def e by (simp add: reqat_putr)
qed

lemma ref_inv_retire:
  assumes "ref_inv (insert a T) (\<lambda>_. 0) s" "a \<notin> T" "reqat s a = Some q" "r_responded q"
  shows "r_pool q \<Longrightarrow> ref_inv T (\<lambda>b. of_bool (b = a)) s" "\<not> r_pool q \<Longrightarrow> ref_inv T (\<lambda>_. 0) (putr a None s)"
proof -
  have l: "a < length (reqs s)" using reqat_less assms(3) by simp
  note q = ref_inv_req[OF assms(1,3)]
  have b: "base T s b p + of_bool (b = a) = base (insert a T) s b p" if "reqat s b = Some p" for b p
    using that assms(2-4) by (cases "b = a") (auto simp: base_def)
  show "ref_inv T (\<lambda>b. of_bool (b = a)) s" if "r_pool q"
  proof (rule ref_invI)
    show "imap_ok (rpool s)" using assms(1) by (simp add: ref_inv_def)
    show "\<exists>q. reqat s b = Some q \<and> r_pool q \<and> \<not> r_responded q \<and> ucast (tag (r_ifcall q)) = t" if "imap (rpool s) t = Some b" for t b
      by (rule ref_inv_pool[OF assms(1) that])
    show "int (base T s b p + tot (wold b) s + of_bool (b = a)) \<le> r_ref p \<and> shape p \<and> (\<forall>d. r_oldreq p = Some d \<longrightarrow> d < b)" if "reqat s b = Some p" for b p
      using ref_inv_req[OF assms(1) that] b[OF that] by (simp add: algebra_simps)
    show "\<exists>q. reqat s b = Some q \<and> r_pool q" if "0 < tot (wold b) s + of_bool (b = a)" for b
      using ref_inv_ref[OF assms(1), of b] that assms(3) \<open>r_pool q\<close> by (cases "b = a") auto
  qed
  show "ref_inv T (\<lambda>_. 0) (putr a None s)" if np: "\<not> r_pool q"
  proof (rule ref_invI)
    let ?s = "putr a None s"
    have "r_oldreq q = None" using q np by (simp add: shape_def)
    then have w: "tot (wold c) ?s = tot (wold c) s" for c using tot_putr[OF l, of "wold c" None] assms(3) by (simp add: wold_def)
    show "imap_ok (rpool ?s)" using assms(1) by (simp add: ref_inv_def)
    show "\<exists>q. reqat ?s b = Some q \<and> r_pool q \<and> \<not> r_responded q \<and> ucast (tag (r_ifcall q)) = t" if "imap (rpool ?s) t = Some b" for t b
      using ref_inv_pool[OF assms(1), of t b] that assms(3,4) l by (cases "b = a") (auto simp: reqat_putr)
    show "int (base T ?s b p + tot (wold b) ?s + 0) \<le> r_ref p \<and> shape p \<and> (\<forall>d. r_oldreq p = Some d \<longrightarrow> d < b)" if p: "reqat ?s b = Some p" for b p
    proof -
      have "b \<noteq> a" "reqat s b = Some p" using p l by (auto simp: reqat_putr split: if_splits)
      then show ?thesis using ref_inv_req[OF assms(1), of b p] b[of b p] w[of b] by (simp add: base_def)
    qed
    show "\<exists>q. reqat ?s b = Some q \<and> r_pool q" if "0 < tot (wold b) ?s + 0" for b
      using ref_inv_ref[OF assms(1), of b] that w[of b] assms(3) np l by (cases "b = a") (auto simp: reqat_putr)
  qed
qed

definition answered :: "nat set \<Rightarrow> nat set \<Rightarrow> Srvst \<Rightarrow> Srvst \<Rightarrow> bool" where
  "answered C T s s' \<longleftrightarrow> Inv C T {} s' \<and> (\<forall>c\<in>C \<union> T. view s' c = view s c) \<and> length (reqs s') = length (reqs s) \<and> pending s' = pending s \<and>
     (7 \<le> unat (s_msize s') \<or> s_msize s' = s_msize s)"

lemma answeredD:
  assumes "answered C T s s'"
  shows "Inv C T {} s'" "c \<in> C \<union> T \<Longrightarrow> view s' c = view s c" "length (reqs s') = length (reqs s)" "pending s' = pending s"
    "7 \<le> unat (s_msize s') \<or> s_msize s' = s_msize s"
  using assms by (auto simp: answered_def)

lemma release:
  assumes "Inv C (insert a T) {} s" "a \<notin> T" "reqat s a = Some q" "r_responded q"
  shows "\<exists>s'. andthen (modr a (\<lambda>r. r\<lparr>r_flush := []\<rparr>) s) (\<lambda>s. if r_pool q then closereq srv (Some a) s else Ok (putr a None s)) = Ok s' \<and> answered C T s s' \<and> s_msize s' = s_msize s"
proof -
  note I = InvD[OF assms(1)]
  have l: "a < length (reqs s)" using reqat_less assms(3) by simp
  define q' where "q' = q\<lparr>r_flush := []\<rparr>"
  define s1 where "s1 = putr a (Some q') s"
  have a1: "reqat s1 a = Some q'" using l by (simp add: s1_def reqat_putr)
  have l1: "a < length (reqs s1)" using l by (simp add: s1_def)
  have f1: "fid_inv {} (\<lambda>_. 0) s1" unfolding s1_def by (rule fid_inv_putr[OF I(1) assms(3)]) (simp add: wfid_def q'_def)
  have r1: "ref_inv (insert a T) (\<lambda>_. 0) s1" unfolding s1_def
    by (rule ref_inv_putr[OF I(2) assms(3)]) (use ref_inv_req[OF I(2) assms(3)] in \<open>auto simp: q'_def wold_def\<close>)
  have ua: "unans s a = None" using assms(3,4) by (simp add: unans_def view_def)
  have u1: "unans s1 = unans s" using unans_putr(1)[OF l, of q'] ua assms(4) by (auto simp: s1_def q'_def)
  have v1: "srv_inv C s1" by (rule srv_inv_keeps[OF I(3) _ u1]) (simp_all add: s1_def)
  have vw: "view s1 c = view s c" if "c \<noteq> a" for c using that l by (simp add: s1_def view_putr)
  have ca: "c \<noteq> a" if "c \<in> C \<union> T" for c
    using that assms(2) ua str_okD(3)[OF srv_invD(1)[OF I(3)]] by auto
  have m: "modr a (\<lambda>r. r\<lparr>r_flush := []\<rparr>) s = Ok s1" using assms(3) by (simp add: s1_def q'_def)
  show ?thesis
  proof (cases "r_pool q")
    case True
    have r2: "ref_inv T (\<lambda>b. of_bool (b = a)) (over Map.empty s1)"
      using ref_inv_retire(1)[OF r1 assms(2) a1] True assms(4) by (simp add: q'_def)
    have f2: "fid_inv {} (\<lambda>_. 0) (over Map.empty s1)" using f1 by simp
    obtain s2 where s2: "closereq srv (Some a) s1 = Ok s2" "fid_inv {} (\<lambda>_. 0) s2"
      "ref_inv T ((\<lambda>b. of_bool (b = a))(a := (\<lambda>b. of_bool (b = a)) a - 1)) s2" "shrinks T s1 s2"
      using closereq_spec[OF f2 r2, of a "Suc (length (reqs s1))" srv] l1 by (auto simp: closereq_def simp del: closereq_n.simps)
    have z: "((\<lambda>b. of_bool (b = a))(a := (\<lambda>b. of_bool (b = a)) a - 1)) = (\<lambda>_. 0 :: nat)" by auto
    have inv: "Inv C T {} s2" using s2(2,3) srv_inv_shrinks[OF v1 s2(4)] unfolding z by (simp add: Inv_def)
    have "view s2 c = view s c" if c: "c \<in> C \<union> T" for c
    proof -
      have "c \<in> T \<or> (\<exists>q. unans s1 c = Some q)" using c str_okD(3)[OF srv_invD(1)[OF v1]] by auto
      then show ?thesis using shrinks_view_T[OF s2(4)] vw[OF ca[OF c]] by simp
    qed
    then have "answered C T s s2" using inv s2(4) by (simp add: answered_def shrinks_def keeps_def s1_def)
    moreover have "s_msize s2 = s_msize s" using s2(4) by (simp add: shrinks_def keeps_def s1_def)
    ultimately show ?thesis using m s2(1) True by simp
  next
    case False
    have sh: "shape q'" using ref_inv_req[OF r1 a1] by blast
    have "tot (wfid x) (putr a None s1) = tot (wfid x) s1" for x
      using tot_putr[OF l1, of "wfid x" None] a1 sh False by (simp add: wfid_def shape_def q'_def)
    then have "fid_inv {} (\<lambda>_. 0) (putr a None s1)" by (intro fid_inv_cong[OF f1]) simp_all
    moreover have "ref_inv T (\<lambda>_. 0) (putr a None s1)" by (rule ref_inv_retire(2)[OF r1 assms(2) a1]) (use False assms(4) in \<open>simp_all add: q'_def\<close>)
    moreover have "unans (putr a None s1) = unans s1" using unans_putr(2)[OF l1] u1 ua by auto
    then have "srv_inv C (putr a None s1)" by (intro srv_inv_keeps[OF v1]) simp_all
    ultimately have "answered C T s (putr a None s1)" using ca l1 vw by (simp add: answered_def Inv_def view_putr s1_def)
    then show ?thesis using m False by (simp add: s1_def)
  qed
qed

text \<open>
  \<^verbatim>\<open>respond\<close> on a request in the hands of the code, given enough fuel: it aborts, or the request is answered or
  waits for another one, and nothing else happens to those in \<open>C\<close> and \<open>T\<close>.
\<close>

definition respond_ok :: "Srv \<Rightarrow> nat \<Rightarrow> bool" where
  "respond_ok srv n \<longleftrightarrow> (\<forall>C T Y s a q err. may_answer C T Y s a q err \<longrightarrow> length (reqs s) - a \<le> n \<longrightarrow> (r_oldreq q = None \<or> C = {a} \<and> T = {}) \<longrightarrow>
     (\<forall>c\<in>T. unans s c = None) \<longrightarrow>
     (\<exists>m. respond_n n srv a err s = Abort m) \<or> (\<exists>s'. respond_n n srv a err s = Ok s' \<and> answered (C - {a}) T s s'))"

lemma unans_view: "view s' c = view s c \<Longrightarrow> unans s' c = unans s c"
  by (simp add: unans_def)

lemma answered_trans:
  assumes "answered C T s s1" "answered C' T s1 s2" "C' \<subseteq> C"
  shows "answered C' T s s2"
  using assms unfolding answered_def by auto

lemma sendable_plain:
  "fcall_ok f \<Longrightarrow> sendable m (f\<lparr>Fcall.type := Tflush + 1\<rparr>)" "fcall_ok f \<Longrightarrow> sendable m (f\<lparr>Fcall.type := Tclunk + 1\<rparr>)"
  "fcall_ok f \<Longrightarrow> sendable m (f\<lparr>Fcall.type := Tattach + 1\<rparr>)" "fcall_ok f \<Longrightarrow> sendable m (f\<lparr>Fcall.type := Topen + 1\<rparr>)"
  by (simp_all add: sendable_def fcall_ok_def msg_of_def Let_def mtypes msg_ok_def QIDSZ_def BIT32SZ_def BIT8SZ_def BIT16SZ_def BIT64SZ_def)

lemma flushes_spec:
  assumes "respond_ok srv n" "Inv C T {} s" "set l \<subseteq> C" "distinct l" "\<forall>c\<in>T. unans s c = None" "\<forall>x\<in>set l. length (reqs s) - x \<le> n"
    "\<forall>x\<in>set l. \<exists>p. unans s x = Some p \<and> Fcall.type (r_ifcall p) = Tflush"
  shows "(\<exists>m. flushes_n n srv l s = Abort m) \<or> (\<exists>s'. flushes_n n srv l s = Ok s' \<and> answered (C - set l) T s s')"
  using assms(2-)
proof (induction l arbitrary: C s)
  case Nil
  then show ?case by (simp add: answered_def)
next
  case (Cons x l)
  have xC: "x \<in> C" using Cons.prems(2) by simp
  obtain q where q: "reqat s x = Some q" "\<not> r_responded q" "fcall_ok (r_ofcall q)" "\<not> r_statfreed q" "unans s x = Some (norm q)"
    by (rule Inv_req[OF Cons.prems(1) xC]) blast
  have t: "Fcall.type (r_ifcall q) = Tflush" using Cons.prems(6) q(5) by auto
  have l: "x < length (reqs s)" using reqat_less q(1) by simp
  define q' where "q' = q\<lparr>r_oldreq := None\<rparr>"
  define s1 where "s1 = putr x (Some q') s"
  have i1: "Inv C T {} s1" unfolding s1_def by (rule Inv_putr[OF Cons.prems(1) xC q(1,2)]) (use q in \<open>simp_all add: q'_def\<close>)
  have x1: "reqat s1 x = Some q'" using l by (simp add: s1_def reqat_putr)
  have v1: "view s1 c = view s c" if "c \<noteq> x" for c using that l by (simp add: s1_def view_putr)
  have ne: "Tflush \<noteq> Twalk" "Tflush \<noteq> Tstat" by (simp_all add: mtypes)
  have "reply_ok q' Nil" using q(3) t ne sendable_plain(1) by (simp add: reply_ok_def q'_def)
  then have "may_answer C T {} s1 x q' Nil"
    unfolding may_answer_def owned_def using i1 xC x1 q t by (auto simp: q'_def ready_def estab_def Let_def mtypes)
  moreover have "length (reqs s1) - x \<le> n" using Cons.prems(5) by (simp add: s1_def)
  moreover have T1: "\<forall>c\<in>T. unans s1 c = None" using Cons.prems(4) q(5) unans_view[OF v1] by (metis option.distinct(1))
  ultimately have "(\<exists>m. respond_n n srv x Nil s1 = Abort m) \<or> (\<exists>s'. respond_n n srv x Nil s1 = Ok s' \<and> answered (C - {x}) T s1 s')"
    using assms(1) unfolding respond_ok_def by (simp add: q'_def)
  moreover have m: "modr x (\<lambda>r. r\<lparr>r_oldreq := None\<rparr>) s = Ok s1" using q(1) by (simp add: s1_def q'_def)
  ultimately consider (stop) e where "flushes_n n srv (x # l) s = Abort e"
    | (cont) s2 where "flushes_n n srv (x # l) s = flushes_n n srv l s2" "answered (C - {x}) T s1 s2" by auto
  then show ?case
  proof cases
    case (cont s2)
    note d = answeredD[OF cont(2)]
    have vs: "view s2 c = view s c" if "c \<in> C - {x} \<union> T" for c
    proof -
      have "c \<noteq> x" using that Cons.prems(4) q(5) by auto
      then show ?thesis using d(2)[OF that] v1 by simp
    qed
    have a2: "answered (C - {x}) T s s2" using d vs by (auto simp: answered_def s1_def)
    have "(\<exists>m. flushes_n n srv l s2 = Abort m) \<or> (\<exists>s'. flushes_n n srv l s2 = Ok s' \<and> answered (C - {x} - set l) T s2 s')"
    proof (rule Cons.IH[OF d(1)])
      show "set l \<subseteq> C - {x}" "distinct l" using Cons.prems(2,3) by auto
      show "\<forall>c\<in>T. unans s2 c = None" using Cons.prems(4) unans_view[OF vs] by auto
      show "\<forall>y\<in>set l. length (reqs s2) - y \<le> n" using Cons.prems(5) d(3) by (simp add: s1_def)
      show "\<forall>y\<in>set l. \<exists>p. unans s2 y = Some p \<and> Fcall.type (r_ifcall p) = Tflush"
      proof
        fix y assume y: "y \<in> set l"
        then have "y \<in> C - {x} \<union> T" using Cons.prems(2,3) by auto
        then show "\<exists>p. unans s2 y = Some p \<and> Fcall.type (r_ifcall p) = Tflush" using unans_view[OF vs] Cons.prems(6) y by simp
      qed
    qed
    moreover have "C - {x} - set l = C - set (x # l)" by auto
    ultimately show ?thesis using answered_trans[OF a2, of "C - set (x # l)"] cont(1) by auto
  qed simp
qed

text \<open>From the reply to the end of \<^verbatim>\<open>respond\<close>: sending, the requests that wait, and giving up the request.\<close>

definition finish :: "nat \<Rightarrow> Srv \<Rightarrow> nat \<Rightarrow> Srvst \<Rightarrow> Srvst outcome" where
  "finish n srv a s =
    andthen (getr a s) (\<lambda>r.
    andthen (flushes_n n srv (r_flush r) s) (\<lambda>s.
    andthen (modr a (\<lambda>r. r\<lparr>r_flush := []\<rparr>) s) (\<lambda>s.
    if r_pool r then closereq srv (Some a) s else Ok (putr a None s))))"

lemma respond_n_finish:
  assumes "reqat s a = Some q" "\<not> r_responded q" "\<not> fake srv"
  shows "respond_n (Suc n) srv a err s = andthen (rswitch srv a err (putr a (Some (q\<lparr>r_error := err\<rparr>)) s)) (\<lambda>(go, s).
    if \<not> go then Ok s else andthen (modr a (\<lambda>r. r\<lparr>r_ofcall := reply r\<rparr>) s) (\<lambda>s. andthen (transmit srv a s) (finish n srv a)))"
  using assms by (simp add: reply_def finish_def[abs_def] Let_def cong: if_cong)

lemma finish_spec:
  assumes "respond_ok srv n" "Inv C T {} s" "a \<in> C" "reqat s a = Some q" "\<not> r_responded q" "sendable (r_buf q) (r_ofcall q)" "tag (r_ofcall q) = tag (r_ifcall q)"
    "length (reqs s) - a \<le> Suc n" "\<forall>c\<in>T. unans s c = None"
  shows "(\<exists>m. andthen (transmit srv a s) (finish n srv a) = Abort m) \<or>
    (\<exists>s'. andthen (transmit srv a s) (finish n srv a) = Ok s' \<and> answered (C - {a}) T s s' \<and> 7 \<le> unat (s_msize s'))"
proof (cases rule: transmit_spec[OF assms(2-7), of srv, case_names stop answered])
  case (answered s1 q1)
  note d = str_okD[OF srv_invD(1)[OF InvD(3)[OF assms(2)]]]
  have ua: "unans s a = Some (norm q)" using assms(4,5) by (rule unansI)
  note ra = req_okD[OF d(4)[OF ua], simplified]
  let ?l = "r_flush q"
  have aT: "a \<notin> T" using assms(9) ua by auto
  have new: "x \<notin> C \<and> x \<noteq> a \<and> (\<exists>p. unans s x = Some p \<and> r_oldreq p = Some a \<and> Fcall.type (r_ifcall p) = Tflush)" if "x \<in> set ?l" for x
    using ra(6)[OF that] assms(3) by blast
  have v1: "view s1 c = view s c" if "c \<in> C - {a} \<union> T \<or> c \<in> set ?l" for c
    by (rule answered(7)) (use that new aT d(3) in auto)
  have fl: "(\<exists>m. flushes_n n srv ?l s1 = Abort m) \<or> (\<exists>s'. flushes_n n srv ?l s1 = Ok s' \<and> answered (C - {a} \<union> set ?l - set ?l) (insert a T) s1 s')"
  proof (rule flushes_spec[OF assms(1) answered(2)])
    show "set ?l \<subseteq> C - {a} \<union> set ?l" "distinct ?l" using ra(5) by auto
    have "unans s1 a = None" using answered(3,4) by (simp add: unans_def view_def)
    then show "\<forall>c\<in>insert a T. unans s1 c = None" using assms(9) unans_view[OF v1] by auto
    show "\<forall>x\<in>set ?l. length (reqs s1) - x \<le> n"
    proof
      fix x assume x: "x \<in> set ?l"
      obtain p where p: "reqat s x = Some p" "r_oldreq p = Some a" using new[OF x] by (auto simp: unans_Some)
      have "a < x" by (rule old_request(1)[OF InvD(2)[OF assms(2)] p])
      then show "length (reqs s1) - x \<le> n" using assms(8) answered(8) by simp
    qed
    show "\<forall>x\<in>set ?l. \<exists>p. unans s1 x = Some p \<and> Fcall.type (r_ifcall p) = Tflush" using new unans_view[OF v1] by auto
  qed
  have C: "C - {a} \<union> set ?l - set ?l = C - {a}" using new by auto
  have run: "andthen (transmit srv a s) (finish n srv a) = andthen (flushes_n n srv ?l s1) (\<lambda>s.
    andthen (modr a (\<lambda>r. r\<lparr>r_flush := []\<rparr>) s) (\<lambda>s. if r_pool q1 then closereq srv (Some a) s else Ok (putr a None s)))"
    using answered(1,3,5) by (simp add: finish_def)
  from fl show ?thesis
  proof
    assume "\<exists>s'. flushes_n n srv ?l s1 = Ok s' \<and> answered (C - {a} \<union> set ?l - set ?l) (insert a T) s1 s'"
    then obtain s2 where s2: "flushes_n n srv ?l s1 = Ok s2" "NineRespond.answered (C - {a}) (insert a T) s1 s2" unfolding C by blast
    note d2 = answeredD[OF s2(2)]
    have "view s2 a = view s1 a" using d2(2)[of a] by simp
    then obtain q2 where q2: "reqat s2 a = Some q2" "norm q2 = norm q1" using answered(3) by (auto simp: view_def)
    have r2: "r_responded q2" "r_pool q2 = r_pool q1" using q2(2) answered(4) by (metis norm_simps(11), metis norm_simps(9))
    obtain s3 where s3: "andthen (modr a (\<lambda>r. r\<lparr>r_flush := []\<rparr>) s2) (\<lambda>s. if r_pool q1 then closereq srv (Some a) s else Ok (putr a None s)) = Ok s3"
      "NineRespond.answered (C - {a}) T s2 s3" "s_msize s3 = s_msize s2"
      using release[OF d2(1) aT q2(1) r2(1), of srv] unfolding r2(2) by blast
    have "NineRespond.answered (C - {a}) T s s3"
      unfolding answered_def using answeredD[OF s3(2)] d2 answered(8,9,10,11) v1 s3(3) by auto
    moreover have "7 \<le> unat (s_msize s3)" using s3(3) d2(5) answered(10,11) by auto
    ultimately show ?thesis using run s2(1) s3(1) by simp
  qed (use run in auto)
qed simp

lemma respond_ok_0: "respond_ok srv 0"
  using reqat_less unfolding respond_ok_def may_answer_def by (metis diff_is_0_eq leD le_zero_eq option.distinct(1))

lemma respond_ok_Suc:
  assumes "respond_ok srv n" "\<not> fake srv"
  shows "respond_ok srv (Suc n)"
  unfolding respond_ok_def
proof (intro allI impI)
  fix C T Y s a q err
  assume m: "may_answer C T Y s a q err" and le: "length (reqs s) - a \<le> Suc n" and old: "r_oldreq q = None \<or> C = {a} \<and> T = {}" and un: "\<forall>c\<in>T. unans s c = None"
  define q0 where "q0 = q\<lparr>r_error := err\<rparr>"
  define s0 where "s0 = putr a (Some q0) s"
  note md = may_answerD[OF m]
  have l: "a < length (reqs s)" using reqat_less md(3) by simp
  have m0: "may_answer C T Y s0 a q0 err" unfolding s0_def q0_def by (rule may_answer_error[OF m])
  note run = respond_n_finish[OF md(3,4) assms(2), of n err, folded q0_def, folded s0_def]
  have aT: "a \<notin> T" using un unansI[OF md(3,4)] by auto
  have v0: "view s0 c = view s c" if "c \<noteq> a" for c using that l by (simp add: s0_def view_putr)
  have old0: "r_oldreq q0 = None \<or> C = {a} \<and> T = {}" using old by (simp add: q0_def)
  have e0: "r_error q0 = err" by (simp add: q0_def)
  show "(\<exists>m. respond_n (Suc n) srv a err s = Abort m) \<or> (\<exists>s'. respond_n (Suc n) srv a err s = Ok s' \<and> answered (C - {a}) T s s')"
  proof (cases rule: rswitch_spec[OF m0 e0 old0, of srv, case_names stop go wait])
    case (stop e)
    then show ?thesis using run by simp
  next
    case (wait s')
    then have "answered (C - {a}) T s s'" by (simp add: answered_def s0_def)
    then show ?thesis using run wait(1) by simp
  next
    case (go s1)
    obtain q1 where q1: "reqat s1 a = Some q1" "\<not> r_responded q1" "r_ifcall q1 = r_ifcall q0" "sendable (r_buf q1) (reply q1)"
      and g: "Inv C T {} s1" "\<And>c. c \<noteq> a \<Longrightarrow> c \<in> C \<union> T \<Longrightarrow> view s1 c = view s0 c" "length (reqs s1) = length (reqs s0)" "pending s1 = pending s0"
      using go(2) unfolding goes_def by blast
    define q2 where "q2 = q1\<lparr>r_ofcall := reply q1\<rparr>"
    define s2 where "s2 = putr a (Some q2) s1"
    have l1: "a < length (reqs s1)" using reqat_less q1(1) by simp
    have "\<not> r_statfreed q1" using ref_inv_req[OF InvD(2)[OF g(1)] q1(1)] by simp
    then have i2: "Inv C T {} s2" unfolding s2_def
      by (intro Inv_putr[OF g(1) md(2) q1(1,2)]) (use q1(4) in \<open>simp_all add: q2_def sendable_def\<close>)
    have a2: "reqat s2 a = Some q2" using l1 by (simp add: s2_def reqat_putr)
    have v2: "view s2 c = view s c" if "c \<in> C - {a} \<union> T" for c
      using that g(2)[of c] v0[of c] aT l1 by (auto simp: s2_def view_putr)
    have tg: "tag (r_ofcall q2) = tag (r_ifcall q2)" by (simp add: q2_def reply_def setfcallerror_def Let_def)
    have run2: "respond_n (Suc n) srv a err s = andthen (transmit srv a s2) (finish n srv a)"
      using run go(1) q1(1) by (simp add: s2_def q2_def)
    have "(\<exists>m. andthen (transmit srv a s2) (finish n srv a) = Abort m) \<or>
      (\<exists>s'. andthen (transmit srv a s2) (finish n srv a) = Ok s' \<and> answered (C - {a}) T s2 s' \<and> 7 \<le> unat (s_msize s'))"
    proof (rule finish_spec[OF assms(1) i2 md(2) a2])
      show "\<not> r_responded q2" "sendable (r_buf q2) (r_ofcall q2)" using q1 by (simp_all add: q2_def)
      show "length (reqs s2) - a \<le> Suc n" using le g(3) by (simp add: s2_def s0_def)
      show "\<forall>c\<in>T. unans s2 c = None" using un unans_view[OF v2] by auto
    qed (fact tg)
    moreover have "answered (C - {a}) T s s'" if "answered (C - {a}) T s2 s'" "7 \<le> unat (s_msize s')" for s'
      using answeredD[OF that(1)] that(2) v2 g(3,4) by (auto simp: answered_def s2_def s0_def)
    ultimately show ?thesis unfolding run2 by blast
  qed
qed

lemma respond_ok_all: "\<not> fake srv \<Longrightarrow> respond_ok srv n"
  by (induction n) (simp_all add: respond_ok_0 respond_ok_Suc)

text \<open>The whole of \<^verbatim>\<open>respond\<close>, for the request that is being processed.\<close>

lemma respond_spec:
  assumes "\<not> fake srv" "may_answer {a} {} Y s a q err"
  obtains (stop) m where "respond srv a err s = Abort m"
    | (ok) s' where "respond srv a err s = Ok s'" "Inv {} {} {} s'" "pending s' = pending s" "7 \<le> unat (s_msize s') \<or> s_msize s' = s_msize s"
proof -
  have "(\<exists>m. respond_n (Suc (length (reqs s))) srv a err s = Abort m) \<or>
    (\<exists>s'. respond_n (Suc (length (reqs s))) srv a err s = Ok s' \<and> answered ({a} - {a}) {} s s')"
    using respond_ok_all[OF assms(1), of "Suc (length (reqs s))"] assms(2) unfolding respond_ok_def by (metis empty_iff diff_le_self le_SucI)
  then show ?thesis using stop ok unfolding respond_def answered_def by auto
qed

end
