(* ===== verification/Spec2Isabelle.thy ===== *)
theory Spec2Isabelle
  imports UtfStr RuneStr RuneCase NinePSpec DirStat MpStore NineRespond
begin

text \<open>
  Verification of the core libraries of Plan 9 from User Space: UTF-8 and rune strings and the 9P message
  format of lib9, the multiple-precision arithmetic of libmp, and the 9P server library lib9p.

  \<^bold>\<open>How C is modelled.\<close> An object in memory is the list of its cells, a pointer into it an offset; \<open>rd\<close>, \<open>rdn\<close>
  and \<open>wr\<close> (theory CBuf) give \<open>None\<close> outside the object, so that a theorem that a function returns \<open>Some\<close> says
  that it stays inside its buffers. Where the C code may also abort, the result is an \<open>outcome\<close> (theory Outcome):
  a value, an abort with its message, or undefined behaviour. Objects with identity (numbers, files, fids,
  requests) are addressed by index, and \<open>None\<close> at an index is a freed object. Machine integers are words of their
  width. Structures are records with the fields of the C structures, and every function is a definition with the
  name it has in C. Loops are recursive functions with termination proofs.

  \<^bold>\<open>Prelude.\<close> P9Prelude has the types of bytes, runes and words, the reading of lists with bounds, \<open>strlen\<close> and
  lemmas on lists and words.

  \<^bold>\<open>UTF-8 and runes\<close> (src/lib9/utf). Utf: \<open>chartorune\<close>, \<open>runetochar\<close>, \<open>runelen\<close>, \<open>runenlen\<close> and \<open>fullrune\<close> of
  rune.c; encoding and decoding are inverse, no overlong form is accepted, no read passes the terminating NUL.
  UtfStr: the functions on UTF-8 strings against the sequence of runes a string decodes to. RuneStr: the
  runestr functions on zero-terminated arrays. RuneTables, RuneType and RuneCase: the tables of runetype.c, the
  binary search over them, and what the classification and case functions compute.

  \<^bold>\<open>9P messages\<close> (src/lib9/conv*.c). NinePWire has the fields of messages, Fcall9P the structure \<open>Fcall\<close> with
  \<open>convM2S\<close>, \<open>sizeS2M\<close> and \<open>convS2M\<close>; NinePSpec gives the messages of the manual as a datatype with their layout,
  and shows that the writer produces it, that the reader accepts exactly the well-formed messages, that they are
  inverse, and where the sizes go wrong. DirStat does the same for directory entries (\<open>convD2M\<close>, \<open>convM2D\<close>,
  \<open>statcheck\<close>).

  \<^bold>\<open>Arithmetic\<close> (src/libmp/port). MpVec: vectors of digits (addition, subtraction, comparison, multiplication by a
  digit, division of two digits by one). MpHeap: numbers in memory, allocation, growth, release and the fixed
  constants. MpMul: products of vectors by the schoolbook loop and by Karatsuba's method. MpInt and MpShift:
  comparison, addition, subtraction, multiplication and shifts of signed numbers, for any aliasing of operands
  and result. MpStore: the locales \<open>mp_binary\<close> and \<open>mp_unary\<close> are the contract of such an operation against the
  integers; all operations are instances, and programs over them compute what they compute on integers.

  \<^bold>\<open>The 9P server\<close> (src/lib9p). Intmap: the hash table of intmap.c; the locale \<open>int_map\<close> is the contract its
  clients rely on. FileTree: the file trees of file.c and the permission check of uid.c. NineSrv: the pools of fids
  and requests (fid.c, req.c) and the service loop of srv.c with all handlers, \<open>respond\<close> and the flushing of
  requests. A function of the file server that takes a request over leaves it \<open>pending\<close> until the server
  answers, in any order. \<open>closereq_n\<close> and \<open>respond_n\<close> have a bound on the depth of their recursion; the
  callers pass the number of requests, and both recursions move to requests of smaller, or of larger, address, so
  that the bound is never reached. NineRef: the reference counts of fids and requests against the references
  there are, kept by the operations of both pools. NineInv: who is to answer each request, and which messages
  were received and answered. NineRespond: \<open>respond\<close> keeps all of this and has no undefined behaviour.

  \<^bold>\<open>Not modelled.\<close> Locks and threads: each operation is one step. Failure of memory allocation, except where a
  size is negative. Diagnostic output, \<^verbatim>\<open>aux\<close> pointers, and the system calls behind file descriptors: the input of
  the server is the list of bytes it has still to read, its output the log of messages sent. In libmp, division,
  exponentiation and conversions; in lib9p the helpers for directory reading, command parsing and replies from
  buffers. The remaining libraries (graphics, threads, cryptography, storage, network, object files) and the commands
  are interfaces to the system or independent of the libraries above.
\<close>

end
